(* ===== verification/Cache_Prelude.thy ===== *)
theory Cache_Prelude
  imports Main "HOL-Library.AList"
begin

text \<open>
  Shared ground of the development: the JavaScript notions the source relies on (absent values,
  truthiness, plain objects with their property order), the errors the source throws, and the
  generic lemmas on lists and association lists used by every component.

  Conventions. An \<open>undefined\<close> or \<open>null\<close> value is \<^term>\<open>None\<close>; the library treats both alike
  through \<open>isUndefinedOrNull\<close>. The storage type \<open>R\<close> is its default instance \<open>string\<close>. Numbers
  (time stamps, ttls) are integers; levels and lengths are naturals.
\<close>

section \<open>Collections of rewrite rules\<close>

named_theorems js_simps "truthiness and plain-object rules"
named_theorems tree_simps "rules for tree lookup, update and children"
named_theorems item_simps "rules for traversal items and chained objects"

type_synonym key = string
type_synonym rvalue = string
type_synonym path = "key list"

section \<open>Errors thrown by the source\<close>

datatype error =
    UndefinedKey nat               \<comment> \<open>\<open>Undefined key at position\<close>\<close>
  | NonConsistentStorage           \<comment> \<open>\<open>Non consistent storage\<close>\<close>
  | NoRandomIterate                \<comment> \<open>\<open>Storage implementation does not support random iteration\<close>\<close>
  | NoReprocessing                 \<comment> \<open>\<open>Storage implementation does not support key level children reprocessing\<close>\<close>
  | NoGetChildren                  \<comment> \<open>\<open>This storage does not support DFS or BFS on key level nodes\<close>\<close>
  | ListStructure                  \<comment> \<open>\<open>Something went wrong processing list structure\<close>\<close>
  | SomethingWentWrong             \<comment> \<open>\<open>Something went wrong\<close>\<close>
  | AlgorithmError                 \<comment> \<open>\<open>Algorithm error\<close>\<close>
  | PersistingError                \<comment> \<open>\<open>Persisting error\<close>\<close>
  | NoDeserializeList              \<comment> \<open>\<open>deserializeList is not implemented on valueSerializer\<close>\<close>
  | NoDeserializeAsyncList         \<comment> \<open>\<open>deserializeAsyncList is not implemented on valueSerializer\<close>\<close>
  | PathLost                       \<comment> \<open>\<open>Path lost\<close>\<close>
  | StackLost                      \<comment> \<open>\<open>Stack lost\<close>\<close>
  | EmptyTree                      \<comment> \<open>\<open>Empty tree\<close>\<close>
  | SerializerError                \<comment> \<open>whatever a user supplied serializer throws\<close>
  | TypeError                      \<comment> \<open>a property of \<open>undefined\<close> is read\<close>
  | MemoMismatch                   \<comment> \<open>the memoizer answers with an entry stored for the other kind of node\<close>
  | OutOfFuel                      \<comment> \<open>of the model only: the bound of a loop is used up\<close>

section \<open>Absent values and truthiness\<close>

definition isUndefinedOrNull :: "'a option \<Rightarrow> bool" where
  "isUndefinedOrNull v \<longleftrightarrow> (case v of None \<Rightarrow> True | Some _ \<Rightarrow> False)"

lemma isUndefinedOrNull_iff [simp]: "isUndefinedOrNull v \<longleftrightarrow> v = None"
  by (simp add: isUndefinedOrNull_def split: option.splits)

text \<open>A string is truthy when it is not empty, a number when it is not zero.\<close>

definition str_truthy :: "string option \<Rightarrow> bool" where
  "str_truthy s \<longleftrightarrow> (case s of None \<Rightarrow> False | Some x \<Rightarrow> x \<noteq> [])"

definition num_truthy :: "int option \<Rightarrow> bool" where
  "num_truthy n \<longleftrightarrow> (case n of None \<Rightarrow> False | Some x \<Rightarrow> x \<noteq> 0)"

lemma str_truthy_simps [simp, js_simps]:
  "\<not> str_truthy None" "str_truthy (Some s) \<longleftrightarrow> s \<noteq> []"
  by (simp_all add: str_truthy_def)

lemma num_truthy_simps [simp, js_simps]:
  "\<not> num_truthy None" "num_truthy (Some n) \<longleftrightarrow> n \<noteq> 0"
  by (simp_all add: num_truthy_def)

text \<open>The truthy elements of a list of possibly absent strings: \<open>filter()\<close> without a predicate.\<close>

definition filter_truthy :: "string option list \<Rightarrow> string list" where
  "filter_truthy xs = map the (filter str_truthy xs)"

lemma filter_truthy_simps [simp]:
  "filter_truthy [] = []"
  "filter_truthy (x # xs) =
     (case x of None \<Rightarrow> filter_truthy xs
      | Some s \<Rightarrow> if s = [] then filter_truthy xs else s # filter_truthy xs)"
  by (auto simp: filter_truthy_def split: option.splits)

section \<open>Plain objects\<close>

text \<open>
  A plain object is the list of its own properties in enumeration order (\<open>for in\<close>,
  \<open>Object.entries\<close>). JavaScript enumerates array-index keys first, in ascending order, and the
  other keys in insertion order; \<open>obj_put\<close> keeps that order.
\<close>

type_synonym 'a obj = "(key \<times> 'a) list"

definition is_digit :: "char \<Rightarrow> bool" where
  "is_digit c \<longleftrightarrow> (of_char c :: nat) \<in> {48..57}"

definition digit_val :: "char \<Rightarrow> nat" where
  "digit_val c = of_char c - 48"

definition num_of_key :: "key \<Rightarrow> nat" where
  "num_of_key k = foldl (\<lambda>n c. 10 * n + digit_val c) 0 k"

definition is_index_key :: "key \<Rightarrow> bool" where
  "is_index_key k \<longleftrightarrow> k \<noteq> [] \<and> list_all is_digit k
     \<and> (k = ''0'' \<or> hd k \<noteq> CHR ''0'') \<and> num_of_key k < 4294967295"

fun obj_insert :: "key \<Rightarrow> 'a \<Rightarrow> 'a obj \<Rightarrow> 'a obj" where
  "obj_insert k v [] = [(k, v)]"
| "obj_insert k v ((k', v') # ps) =
     (if is_index_key k \<and> (\<not> is_index_key k' \<or> num_of_key k < num_of_key k')
      then (k, v) # (k', v') # ps
      else (k', v') # obj_insert k v ps)"

definition obj_put :: "key \<Rightarrow> 'a \<Rightarrow> 'a obj \<Rightarrow> 'a obj" where
  "obj_put k v ps = (if k \<in> fst ` set ps then AList.update k v ps else obj_insert k v ps)"

abbreviation obj_get :: "'a obj \<Rightarrow> key \<Rightarrow> 'a option" where
  "obj_get ps k \<equiv> map_of ps k"

lemma set_obj_insert [simp]: "set (obj_insert k v ps) = insert (k, v) (set ps)"
  by (induction k v ps rule: obj_insert.induct) (simp_all add: insert_commute)

lemma distinct_obj_insert:
  "k \<notin> fst ` set ps \<Longrightarrow> distinct (map fst ps) \<Longrightarrow> distinct (map fst (obj_insert k v ps))"
  by (induction k v ps rule: obj_insert.induct) auto

lemma map_of_obj_insert:
  "k \<notin> fst ` set ps \<Longrightarrow> map_of (obj_insert k v ps) = (map_of ps)(k \<mapsto> v)"
  by (induction k v ps rule: obj_insert.induct) (auto simp: fun_upd_twist)

lemma obj_get_put [simp, js_simps]: "map_of (obj_put k v ps) = (map_of ps)(k \<mapsto> v)"
  by (simp add: obj_put_def map_of_obj_insert update_conv')

lemma distinct_obj_put [simp, js_simps]:
  "distinct (map fst ps) \<Longrightarrow> distinct (map fst (obj_put k v ps))"
  by (simp add: obj_put_def distinct_obj_insert distinct_update)

lemma keys_obj_put [simp, js_simps]: "fst ` set (obj_put k v ps) = insert k (fst ` set ps)"
  by (auto simp: obj_put_def dom_update)

lemma set_obj_put: "distinct (map fst ps) \<Longrightarrow>
   x \<in> set (obj_put k v ps) \<Longrightarrow> x = (k, v) \<or> (x \<in> set ps \<and> fst x \<noteq> k)"
proof -
  assume d: "distinct (map fst ps)" and x: "x \<in> set (obj_put k v ps)"
  have "map_of (obj_put k v ps) (fst x) = Some (snd x)"
    using x d by (simp add: distinct_obj_put map_of_is_SomeI del: obj_get_put)
  then show ?thesis
    by (cases x) (auto split: if_splits dest: map_of_SomeD)
qed

text \<open>Own properties are distinct and in enumeration order.\<close>

definition key_before :: "key \<Rightarrow> key \<Rightarrow> bool" where
  "key_before k k' \<longleftrightarrow> (is_index_key k' \<longrightarrow> is_index_key k \<and> num_of_key k \<le> num_of_key k')"

definition js_object :: "'a obj \<Rightarrow> bool" where
  "js_object ps \<longleftrightarrow> distinct (map fst ps) \<and> sorted_wrt key_before (map fst ps)"

lemma js_object_Nil [simp]: "js_object []"
  by (simp add: js_object_def)

lemma js_object_distinct: "js_object ps \<Longrightarrow> distinct (map fst ps)"
  by (simp add: js_object_def)

lemma sorted_obj_insert:
  "sorted_wrt key_before (map fst ps) \<Longrightarrow> sorted_wrt key_before (map fst (obj_insert k v ps))"
  by (induction k v ps rule: obj_insert.induct) (auto simp: key_before_def)

lemma js_object_put [simp]: "js_object ps \<Longrightarrow> js_object (obj_put k v ps)"
proof -
  assume ps: "js_object ps"
  have "map fst (AList.update k v ps) = map fst ps" if "k \<in> fst ` set ps"
    using that by (simp add: update_keys)
  with ps show ?thesis
    by (auto simp: js_object_def obj_put_def distinct_obj_insert sorted_obj_insert)
qed

lemma obj_insert_last:
  "\<forall>k' \<in> fst ` set ps. key_before k' k \<Longrightarrow> obj_insert k v ps = ps @ [(k, v)]"
  by (induction k v ps rule: obj_insert.induct) (auto simp: key_before_def)

lemma obj_put_snoc: "js_object (ps @ [(k, v)]) \<Longrightarrow> obj_put k v ps = ps @ [(k, v)]"
  by (auto simp: js_object_def obj_put_def sorted_wrt_append image_iff intro!: obj_insert_last)

lemma js_object_append: "js_object (ps @ qs) \<Longrightarrow> js_object ps"
  by (auto simp: js_object_def sorted_wrt_append)

lemma js_object_map_filter:
  "js_object ps \<Longrightarrow> js_object (map (\<lambda>(k, v). (k, f k v)) (filter P ps))"
proof -
  assume "js_object ps"
  moreover have "map fst (map (\<lambda>(k, v). (k, f k v)) (filter P ps)) = map fst (filter P ps)"
    by (simp add: comp_def case_prod_unfold)
  moreover have "sorted_wrt key_before (map fst ps) \<Longrightarrow> sorted_wrt key_before (map fst (filter P ps))"
    by (induction ps) auto
  ultimately show ?thesis
    by (simp only: js_object_def distinct_map_filter)
qed

text \<open>Assigning the properties one after the other rebuilds an object.\<close>

lemma fold_obj_put: "js_object (acc @ ps) \<Longrightarrow> fold (\<lambda>(k, v). obj_put k v) ps acc = acc @ ps"
proof (induction ps arbitrary: acc)
  case (Cons p ps)
  then have "js_object (acc @ [p])" by (metis append.assoc append_Cons append_Nil js_object_append)
  with Cons show ?case by (cases p) (simp add: obj_put_snoc)
qed simp

end
