(* ===== verification/Cache_Keys.thy ===== *)
theory Cache_Keys
  imports Cache_Prelude
begin

text \<open>
  Keys and chained keys: the chained objects that represent the path to a node
  (\<open>src/types/tree-type.ts\<close>), \<open>buildKey\<close> and \<open>splitKey\<close> (\<open>src/utils/build-key.ts\<close>),
  \<open>getKey\<close> and \<open>getChainedKey\<close> (\<open>src/internal\<close>). The lemmas show that chained keys identify
  paths: \<open>splitKey\<close> inverts \<open>buildKey\<close> on keys without the separator, and the key
  \<open>deepTreeSet\<close> builds level by level is the key the readers build from the node reference.
\<close>

section \<open>Joining and splitting\<close>

fun join :: "string list \<Rightarrow> string" where
  "join [] = []"
| "join [k] = k"
| "join (k # l # ks) = k @ CHR '':'' # join (l # ks)"

fun splitKey :: "key \<Rightarrow> string list" where
  "splitKey [] = [[]]"
| "splitKey (c # cs) =
     (if c = CHR '':'' then [] # splitKey cs
      else (case splitKey cs of [] \<Rightarrow> [[c]] | k # ks \<Rightarrow> (c # k) # ks))"

section \<open>Chained objects\<close>

datatype chained = ChainedObject (ch_key: key) (ch_level: nat) (ch_parentRef: "chained option")

function (sequential) pushParents :: "string list \<Rightarrow> chained option \<Rightarrow> string list" where
  "pushParents keys None = keys"
| "pushParents keys (Some parent) = pushParents (keys @ [ch_key parent]) (ch_parentRef parent)"
  by pat_completeness auto
termination
proof (relation "measure (\<lambda>(_, p). size_option size p)")
  fix keys :: "string list" and parent :: chained
  show "((keys @ [ch_key parent], ch_parentRef parent), (keys, Some parent))
        \<in> measure (\<lambda>(_, p). size_option size p)"
    by (cases parent) simp
qed simp

definition buildKey :: "chained \<Rightarrow> key" where
  "buildKey nodeRef = join (rev (pushParents [ch_key nodeRef] (ch_parentRef nodeRef)))"

definition buildKeyList :: "string list \<Rightarrow> key" where
  "buildKeyList keys = join keys"

section \<open>Reading a path\<close>

definition getKey :: "path \<Rightarrow> nat \<Rightarrow> error + key" where
  "getKey keys level = (if level < length keys then Inr (keys ! level) else Inl (UndefinedKey level))"

definition getChainedKey :: "path \<Rightarrow> nat \<Rightarrow> key option \<Rightarrow> error + (key \<times> key)" where
  "getChainedKey keys level chainedKey =
     (case getKey keys level of
        Inl e \<Rightarrow> Inl e
      | Inr key \<Rightarrow>
          Inr (if str_truthy chainedKey then the chainedKey @ CHR '':'' # key else key, key))"

lemma getKey_in [simp]: "level < length keys \<Longrightarrow> getKey keys level = Inr (keys ! level)"
  by (simp add: getKey_def)

lemma getKey_out [simp]: "length keys \<le> level \<Longrightarrow> getKey keys level = Inl (UndefinedKey level)"
  by (simp add: getKey_def)

lemma getKey_Inr_iff: "getKey keys level = Inr k \<longleftrightarrow> level < length keys \<and> k = keys ! level"
  by (auto simp: getKey_def)

section \<open>Paths of node references\<close>

text \<open>The keys from the root down to a chained object: what \<open>buildKey\<close> joins.\<close>

fun chain_path :: "chained \<Rightarrow> path" where
  "chain_path (ChainedObject k l None) = [k]"
| "chain_path (ChainedObject k l (Some p)) = chain_path p @ [k]"

abbreviation opt_path :: "chained option \<Rightarrow> path" where
  "opt_path p \<equiv> (case p of None \<Rightarrow> [] | Some c \<Rightarrow> chain_path c)"

lemma chain_path_eq: "chain_path c = opt_path (ch_parentRef c) @ [ch_key c]"
  by (cases c rule: chain_path.cases) auto

lemma chain_path_Chained [simp, item_simps]: "chain_path (ChainedObject k l p) = opt_path p @ [k]"
  by (cases p) auto

lemma chain_path_neq_Nil [simp]: "chain_path c \<noteq> []"
  by (cases c) simp

lemma last_chain_path [simp]: "last (chain_path c) = ch_key c"
  by (cases c) simp

lemma pushParents_eq: "pushParents keys p = keys @ rev (opt_path p)"
  by (induction keys p rule: pushParents.induct) (simp_all add: chain_path_eq [of "_ :: chained"])

lemma buildKey_eq: "buildKey c = join (chain_path c)"
  by (simp add: buildKey_def pushParents_eq chain_path_eq [of c])

text \<open>A chained object is consistent when its level counts the keys of its path.\<close>

fun wf_chain :: "chained \<Rightarrow> bool" where
  "wf_chain (ChainedObject k l None) \<longleftrightarrow> l = 1"
| "wf_chain (ChainedObject k l (Some p)) \<longleftrightarrow> l = Suc (ch_level p) \<and> wf_chain p"

lemma wf_chain_level: "wf_chain c \<Longrightarrow> ch_level c = length (chain_path c)"
  by (induction c rule: wf_chain.induct) auto

text \<open>The chained object that stands for a path.\<close>

fun ref_of :: "chained option \<Rightarrow> nat \<Rightarrow> path \<Rightarrow> chained option" where
  "ref_of p l [] = p"
| "ref_of p l (k # ks) = ref_of (Some (ChainedObject k (Suc l) p)) (Suc l) ks"

abbreviation path_ref :: "path \<Rightarrow> chained option" where
  "path_ref ks \<equiv> ref_of None 0 ks"

lemma ref_of_append: "ref_of p l (xs @ ys) = ref_of (ref_of p l xs) (l + length xs) ys"
  by (induction xs arbitrary: p l) auto

lemma ref_of_snoc [simp]:
  "ref_of p l (ks @ [k]) = Some (ChainedObject k (Suc (l + length ks)) (ref_of p l ks))"
  by (simp add: ref_of_append)

lemma opt_path_ref_of [simp]: "opt_path (ref_of p l ks) = opt_path p @ ks"
  by (induction ks arbitrary: p l) auto

lemma ref_of_None_iff [simp]: "ref_of p l ks = None \<longleftrightarrow> p = None \<and> ks = []"
  by (induction ks arbitrary: p l) auto

lemma chain_path_path_ref: "path_ref ks = Some c \<Longrightarrow> chain_path c = ks"
  using opt_path_ref_of [of None 0 ks] by simp

lemma ref_of_wf:
  "ref_of p l ks = Some c \<Longrightarrow> (case p of None \<Rightarrow> l = 0 | Some q \<Rightarrow> wf_chain q \<and> ch_level q = l)
   \<Longrightarrow> wf_chain c \<and> ch_level c = l + length ks"
proof (induction ks arbitrary: p l)
  case (Cons k ks)
  have "wf_chain c \<and> ch_level c = Suc l + length ks"
    by (rule Cons.IH [of "Some (ChainedObject k (Suc l) p)"])
      (use Cons.prems in \<open>auto split: option.splits\<close>)
  then show ?case by simp
qed auto

section \<open>Separator-free keys\<close>

definition sep_free :: "key \<Rightarrow> bool" where
  "sep_free k \<longleftrightarrow> CHR '':'' \<notin> set k"

definition valid_path :: "path \<Rightarrow> bool" where
  "valid_path ks \<longleftrightarrow> ks \<noteq> [] \<and> list_all sep_free ks \<and> hd ks \<noteq> []"

lemma splitKey_neq_Nil [simp]: "splitKey s \<noteq> []"
  by (induction s) (auto split: list.splits)

lemma splitKey_sep_free: "sep_free k \<Longrightarrow> splitKey k = [k]"
  by (induction k) (auto simp: sep_free_def)

lemma splitKey_append_sep: "sep_free k \<Longrightarrow> splitKey (k @ CHR '':'' # s) = k # splitKey s"
  by (induction k) (auto simp: sep_free_def)

lemma splitKey_join: "ks \<noteq> [] \<Longrightarrow> list_all sep_free ks \<Longrightarrow> splitKey (join ks) = ks"
  by (induction ks rule: join.induct) (auto simp: splitKey_sep_free splitKey_append_sep)

lemma join_splitKey: "join (splitKey s) = s"
proof (induction s)
  case (Cons c cs)
  obtain k ks where split: "splitKey cs = k # ks"
    using splitKey_neq_Nil by (meson neq_Nil_conv)
  have "join ((c # k) # ks) = c # join (k # ks)"
    by (cases ks) auto
  with Cons split show ?case
    by auto
qed simp

lemma splitKey_parts_sep_free: "list_all sep_free (splitKey s)"
  by (induction s) (auto simp: sep_free_def split: list.splits)

lemma join_inject:
  assumes "list_all sep_free ks" "list_all sep_free ls" "ks \<noteq> []" "ls \<noteq> []" "join ks = join ls"
  shows "ks = ls"
  using assms splitKey_join by metis

lemma join_snoc: "ks \<noteq> [] \<Longrightarrow> join (ks @ [k]) = join ks @ CHR '':'' # k"
proof (induction ks)
  case (Cons x xs)
  show ?case
  proof (cases xs)
    case (Cons y ys)
    then have "join (y # ys @ [k]) = join (y # ys) @ CHR '':'' # k"
      using Cons.IH by simp
    then show ?thesis using Cons by simp
  qed simp
qed simp

lemma join_eq_Nil_iff: "join ks = [] \<longleftrightarrow> ks = [] \<or> ks = [[]]"
  by (cases ks rule: join.cases) auto

lemma getChainedKey_next:
  assumes "l < length ks" "hd ks \<noteq> []"
  shows "getChainedKey ks l (if l = 0 then None else Some (join (take l ks)))
         = Inr (join (take (Suc l) ks), ks ! l)"
proof (cases "l = 0")
  case True
  with assms show ?thesis
    by (cases ks) (auto simp: getChainedKey_def)
next
  case False
  have ne: "take l ks \<noteq> []" using False assms by auto
  moreover have "take l ks \<noteq> [[]]" using False assms by (cases ks) (auto simp: take_Cons')
  ultimately have "join (take l ks) \<noteq> []"
    by (simp add: join_eq_Nil_iff)
  with False assms ne show ?thesis
    by (simp add: getChainedKey_def take_Suc_conv_app_nth join_snoc)
qed

lemma buildKey_injective:
  "list_all sep_free (chain_path n1) \<Longrightarrow> list_all sep_free (chain_path n2) \<Longrightarrow> buildKey n1 = buildKey n2 \<Longrightarrow>
   chain_path n1 = chain_path n2"
  using join_inject [of "chain_path n1" "chain_path n2"] by (simp add: buildKey_eq)

end
