(* ===== verification/Cache_Trees.thy ===== *)
theory Cache_Trees
  imports Cache_Keys
begin

text \<open>
  The tree types of \<open>src/types/tree-type.ts\<close>, expiration
  (\<open>get-tree-current-serialized-value.ts\<close>), traversal items (\<open>create-traversal-item.ts\<close>) and
  the two navigation helpers \<open>getNextStorageNode\<close> and \<open>getNextTreeNode\<close>.
  The second half is the library the other components use: following a path in a tree, replacing
  a sub-tree, and the effect of dropping undefined children, which is what serialization does.
\<close>

section \<open>Trees\<close>

text \<open>
  \<open>Tree<T>\<close> has the optional fields \<open>v\<close>, \<open>d\<close> and \<open>c\<close>; a child may be the value
  \<open>undefined\<close> under a key that is still present, which pruning creates.
\<close>

datatype 'a tree =
  Tree (tvalue: "'a option") (tdeadline: "int option")
       (tchildren: "(key \<times> 'a tree option) list option")

definition empty_tree :: "'a tree" where
  "empty_tree = Tree None None None"

lemma empty_tree_simps [simp]:
  "tvalue empty_tree = None" "tdeadline empty_tree = None" "tchildren empty_tree = None"
  by (simp_all add: empty_tree_def)

definition set_value :: "'a option \<Rightarrow> 'a tree \<Rightarrow> 'a tree" where
  "set_value v t = Tree v (tdeadline t) (tchildren t)"

definition set_deadline :: "int option \<Rightarrow> 'a tree \<Rightarrow> 'a tree" where
  "set_deadline d t = Tree (tvalue t) d (tchildren t)"

definition set_children :: "(key \<times> 'a tree option) list option \<Rightarrow> 'a tree \<Rightarrow> 'a tree" where
  "set_children c t = Tree (tvalue t) (tdeadline t) c"

lemma tree_field_simps [simp, tree_simps]:
  "tvalue (set_value v t) = v" "tdeadline (set_value v t) = tdeadline t"
  "tchildren (set_value v t) = tchildren t"
  "tvalue (set_deadline d t) = tvalue t" "tdeadline (set_deadline d t) = d"
  "tchildren (set_deadline d t) = tchildren t"
  "tvalue (set_children c t) = tvalue t" "tdeadline (set_children c t) = tdeadline t"
  "tchildren (set_children c t) = c"
  by (simp_all add: set_value_def set_deadline_def set_children_def)

text \<open>The children a \<open>for in\<close> loop with a truthiness test visits, in enumeration order.\<close>

definition kids_of :: "(key \<times> 'a tree option) list option \<Rightarrow> (key \<times> 'a tree) list" where
  "kids_of c = (case c of None \<Rightarrow> []
     | Some ps \<Rightarrow> map (\<lambda>(k, t). (k, the t)) (filter (\<lambda>(k, t). t \<noteq> None) ps))"

definition kids :: "'a tree \<Rightarrow> (key \<times> 'a tree) list" where
  "kids t = kids_of (tchildren t)"

lemma in_kids_iff: "(k, t') \<in> set (kids t) \<longleftrightarrow> (\<exists>ps. tchildren t = Some ps \<and> (k, Some t') \<in> set ps)"
  by (force simp: kids_def kids_of_def image_iff split: option.splits)

lemma kids_of_size: "sum_list (map (\<lambda>(k, t). Suc (size t)) (kids_of (Some ps)))
    \<le> size_list (size_prod (\<lambda>_. 0) (size_option size)) ps"
  by (induction ps) (auto simp: kids_of_def)

lemma kids_size: "sum_list (map (\<lambda>(k, t). Suc (size t)) (kids t)) < size t"
proof (cases t)
  case (Tree v d c)
  show ?thesis
  proof (cases c)
    case (Some ps)
    with kids_of_size [of ps] Tree show ?thesis
      unfolding kids_def by simp
  qed (simp add: Tree kids_def kids_of_def)
qed

lemma kid_size [termination_simp]: "(k, t') \<in> set (kids t) \<Longrightarrow> size t' < size t"
proof -
  assume "(k, t') \<in> set (kids t)"
  then have "Suc (size t') \<le> sum_list (map (\<lambda>(k, t). Suc (size t)) (kids t))"
    by (intro member_le_sum_list) (force simp: image_iff)+
  with kids_size [of t] show ?thesis by simp
qed

text \<open>Induction along truthy children.\<close>

lemma tree_kids_induct [case_names Tree]:
  assumes "\<And>t. (\<And>k t'. (k, t') \<in> set (kids t) \<Longrightarrow> P t') \<Longrightarrow> P t"
  shows "P t"
  by (induction t rule: measure_induct_rule [of size]) (auto intro: assms kid_size)

section \<open>Expiration\<close>

definition getTreeCurrentSerializedValue :: "'a tree \<Rightarrow> int \<Rightarrow> 'a option" where
  "getTreeCurrentSerializedValue tree now =
     (if \<not> num_truthy (tdeadline tree) \<or> the (tdeadline tree) > now then tvalue tree else None)"

lemma current_value_empty [simp]: "getTreeCurrentSerializedValue empty_tree now = None"
  by (simp add: getTreeCurrentSerializedValue_def)

lemma current_value_no_deadline:
  "tdeadline t = None \<Longrightarrow> getTreeCurrentSerializedValue t now = tvalue t"
  by (simp add: getTreeCurrentSerializedValue_def)

lemma current_value_cong:
  "tvalue t = tvalue u \<Longrightarrow> tdeadline t = tdeadline u
   \<Longrightarrow> getTreeCurrentSerializedValue t now = getTreeCurrentSerializedValue u now"
  by (simp add: getTreeCurrentSerializedValue_def)

lemma current_value_set_children [simp]:
  "getTreeCurrentSerializedValue (set_children c t) now = getTreeCurrentSerializedValue t now"
  by (rule current_value_cong) simp_all

section \<open>Trees with history\<close>

text \<open>
  A \<open>MultiTree<R>\<close> has the shape of a tree whose values are the lists wrapped as
  \<open>MultiTreeValue\<close>; \<open>SyncTree<R>\<close> is the union of both.
\<close>

datatype 'r tree_value = Single 'r | MultiTreeValue "'r list"

datatype 'r sync_tree = PlainTree "'r tree" | MultiTree "'r list tree"

fun sync_value :: "'r sync_tree \<Rightarrow> int \<Rightarrow> 'r tree_value option" where
  "sync_value (PlainTree t) now = map_option Single (getTreeCurrentSerializedValue t now)"
| "sync_value (MultiTree t) now = map_option MultiTreeValue (getTreeCurrentSerializedValue t now)"

definition tree_child :: "'a tree \<Rightarrow> key \<Rightarrow> 'a tree option" where
  "tree_child t k = (case tchildren t of None \<Rightarrow> None | Some ps \<Rightarrow> Option.bind (obj_get ps k) id)"

fun sync_child :: "'r sync_tree \<Rightarrow> key \<Rightarrow> 'r sync_tree option" where
  "sync_child (PlainTree t) k = map_option PlainTree (tree_child t k)"
| "sync_child (MultiTree t) k = map_option MultiTree (tree_child t k)"

section \<open>Traversal items\<close>

record 'a item =
  it_key :: key
  it_level :: nat
  it_parentRef :: "chained option"
  it_value :: "'a option"
  it_tree :: "'a tree"

definition createTraversalItem ::
  "key \<Rightarrow> nat \<Rightarrow> chained option \<Rightarrow> 'a tree \<Rightarrow> int \<Rightarrow> 'a item" where
  "createTraversalItem key level parentRef treeRef now =
     \<lparr>it_key = key, it_level = level, it_parentRef = parentRef,
      it_value = getTreeCurrentSerializedValue treeRef now, it_tree = treeRef\<rparr>"

definition item_ref :: "'a item \<Rightarrow> chained" where
  "item_ref i = ChainedObject (it_key i) (it_level i) (it_parentRef i)"

lemma createTraversalItem_simps [simp, item_simps]:
  "it_key (createTraversalItem k l p t now) = k"
  "it_level (createTraversalItem k l p t now) = l"
  "it_parentRef (createTraversalItem k l p t now) = p"
  "it_value (createTraversalItem k l p t now) = getTreeCurrentSerializedValue t now"
  "it_tree (createTraversalItem k l p t now) = t"
  by (simp_all add: createTraversalItem_def)

lemma item_ref_create [simp, item_simps]:
  "item_ref (createTraversalItem k l p t now) = ChainedObject k l p"
  by (simp add: item_ref_def)

text \<open>Items over the union of both tree kinds, as the readers pass them around.\<close>

record 'r sync_item =
  si_ref :: chained
  si_value :: "'r tree_value option"
  si_tree :: "'r sync_tree"

definition createSyncItem ::
  "key \<Rightarrow> nat \<Rightarrow> chained option \<Rightarrow> 'r sync_tree \<Rightarrow> int \<Rightarrow> 'r sync_item" where
  "createSyncItem key level parentRef treeRef now =
     \<lparr>si_ref = ChainedObject key level parentRef, si_value = sync_value treeRef now,
      si_tree = treeRef\<rparr>"

lemma createSyncItem_simps [simp, item_simps]:
  "si_ref (createSyncItem k l p t now) = ChainedObject k l p"
  "si_value (createSyncItem k l p t now) = sync_value t now"
  "si_tree (createSyncItem k l p t now) = t"
  by (simp_all add: createSyncItem_def)

section \<open>Navigation helpers\<close>

definition getNextStorageNode ::
  "path \<Rightarrow> nat \<Rightarrow> chained option \<Rightarrow> 'r sync_tree \<Rightarrow> int \<Rightarrow> error + 'r sync_item" where
  "getNextStorageNode path level parentRef treeRef now =
     (case getKey path level of
        Inl e \<Rightarrow> Inl e
      | Inr key \<Rightarrow> Inr (createSyncItem key (level + 1) parentRef treeRef now))"

definition getNextTreeNode ::
  "path \<Rightarrow> nat \<Rightarrow> 'r sync_tree \<Rightarrow> chained option \<Rightarrow> 'r sync_tree \<Rightarrow> int
   \<Rightarrow> error + ('r sync_item \<times> 'r sync_tree) option" where
  "getNextTreeNode path level tree parentRef treeRef now =
     (case getKey path level of
        Inl e \<Rightarrow> Inl e
      | Inr key \<Rightarrow>
          (case sync_child tree key of
             None \<Rightarrow> Inr None
           | Some nextTree \<Rightarrow>
               Inr (Some (createSyncItem key (level + 1) parentRef treeRef now, nextTree))))"

section \<open>Following a path\<close>

fun tree_lookup :: "'a tree \<Rightarrow> path \<Rightarrow> 'a tree option" where
  "tree_lookup t [] = Some t"
| "tree_lookup t (k # ks) = (case tree_child t k of None \<Rightarrow> None | Some u \<Rightarrow> tree_lookup u ks)"

fun sync_lookup :: "'r sync_tree \<Rightarrow> path \<Rightarrow> 'r sync_tree option" where
  "sync_lookup (PlainTree t) ks = map_option PlainTree (tree_lookup t ks)"
| "sync_lookup (MultiTree t) ks = map_option MultiTree (tree_lookup t ks)"

text \<open>The live value found at a path below a tree: the abstract reading of a stored tree.\<close>

definition tree_at :: "int \<Rightarrow> 'a tree \<Rightarrow> path \<Rightarrow> 'a option" where
  "tree_at now t ks = (case tree_lookup t ks of None \<Rightarrow> None
     | Some u \<Rightarrow> getTreeCurrentSerializedValue u now)"

lemma tree_child_empty [simp, tree_simps]: "tree_child empty_tree k = None"
  by (simp add: tree_child_def)

lemma tree_child_cong: "tchildren t = tchildren u \<Longrightarrow> tree_child t = tree_child u"
  by (rule ext) (simp add: tree_child_def)

lemma tree_child_set [simp, tree_simps]:
  "tree_child (set_value v t) = tree_child t" "tree_child (set_deadline d t) = tree_child t"
  by (rule tree_child_cong, simp)+

lemma tree_lookup_append:
  "tree_lookup t (xs @ ys) = (case tree_lookup t xs of None \<Rightarrow> None | Some u \<Rightarrow> tree_lookup u ys)"
  by (induction xs arbitrary: t) (auto split: option.splits)

lemma tree_at_Nil [simp, tree_simps]: "tree_at now t [] = getTreeCurrentSerializedValue t now"
  by (simp add: tree_at_def)

lemma tree_at_Cons [simp, tree_simps]:
  "tree_at now t (k # ks) = (case tree_child t k of None \<Rightarrow> None | Some u \<Rightarrow> tree_at now u ks)"
  by (simp add: tree_at_def split: option.splits)

lemma tree_at_empty [simp, tree_simps]: "tree_at now empty_tree ks = None"
  by (cases ks) auto

lemma sync_lookup_Nil [simp]: "sync_lookup t [] = Some t"
  by (cases t) auto

lemma sync_lookup_Cons [simp]:
  "sync_lookup t (k # ks) = (case sync_child t k of None \<Rightarrow> None | Some u \<Rightarrow> sync_lookup u ks)"
  by (cases t) (auto split: option.splits)

section \<open>Replacing a child\<close>

text \<open>\<open>children ??= {}; children[k] = child\<close>.\<close>

definition children_or_empty :: "'a tree \<Rightarrow> (key \<times> 'a tree option) list" where
  "children_or_empty t = (case tchildren t of None \<Rightarrow> [] | Some ps \<Rightarrow> ps)"

definition put_child :: "key \<Rightarrow> 'a tree \<Rightarrow> 'a tree \<Rightarrow> 'a tree" where
  "put_child k u t = set_children (Some (obj_put k (Some u) (children_or_empty t))) t"

lemma tree_child_put [simp, tree_simps]:
  "tree_child (put_child k u t) j = (if j = k then Some u else tree_child t j)"
  by (auto simp: put_child_def tree_child_def children_or_empty_def split: option.splits)

lemma put_child_fields [simp, tree_simps]:
  "tvalue (put_child k u t) = tvalue t" "tdeadline (put_child k u t) = tdeadline t"
  "getTreeCurrentSerializedValue (put_child k u t) now = getTreeCurrentSerializedValue t now"
  by (simp_all add: put_child_def)

section \<open>Updating a node in place\<close>

fun tree_replace :: "path \<Rightarrow> 'a tree \<Rightarrow> 'a tree \<Rightarrow> 'a tree" where
  "tree_replace [] u t = u"
| "tree_replace (k # ks) u t =
     (case tree_child t k of None \<Rightarrow> t | Some c \<Rightarrow> put_child k (tree_replace ks u c) t)"

section \<open>Well-formed trees and dropping undefined children\<close>

text \<open>The children of every reachable node are the properties of an object.\<close>

fun wf_tree :: "'a tree \<Rightarrow> bool" where
  "wf_tree t \<longleftrightarrow> js_object (children_or_empty t) \<and> list_all (\<lambda>(k, u). wf_tree u) (kids t)"

declare wf_tree.simps [simp del]

text \<open>Serializing a tree loses the children that are present but \<open>undefined\<close>.\<close>

fun strip :: "'a tree \<Rightarrow> 'a tree" where
  "strip t = Tree (tvalue t) (tdeadline t)
     (map_option (\<lambda>_. map (\<lambda>(k, u). (k, Some (strip u))) (kids t)) (tchildren t))"

declare strip.simps [simp del]

lemma strip_fields [simp, tree_simps]:
  "tvalue (strip t) = tvalue t" "tdeadline (strip t) = tdeadline t"
  "getTreeCurrentSerializedValue (strip t) now = getTreeCurrentSerializedValue t now"
  by (simp_all add: strip.simps [of t] getTreeCurrentSerializedValue_def)

lemma map_of_kids_of:
  "distinct (map fst ps) \<Longrightarrow> map_of (kids_of (Some ps)) k = Option.bind (map_of ps k) id"
proof (induction ps)
  case (Cons p ps)
  have "k \<notin> fst ` set ps \<Longrightarrow> map_of (kids_of (Some ps)) k = None"
    by (force simp: kids_of_def map_of_eq_None_iff)
  with Cons show ?case
    by (cases p) (auto simp: kids_of_def)
qed (simp add: kids_of_def)

lemma wf_tree_distinct: "wf_tree t \<Longrightarrow> distinct (map fst (children_or_empty t))"
  by (simp add: wf_tree.simps [of t] js_object_distinct)

lemma tree_child_kids: "wf_tree t \<Longrightarrow> tree_child t k = map_of (kids t) k"
  using wf_tree_distinct [of t]
  by (auto simp: tree_child_def kids_def children_or_empty_def map_of_kids_of
      kids_of_def [of None] split: option.splits)

lemma distinct_kids: "wf_tree t \<Longrightarrow> distinct (map fst (kids t))"
  using wf_tree_distinct [of t]
  by (auto simp: kids_def kids_of_def children_or_empty_def comp_def
      case_prod_unfold distinct_map_filter split: option.splits)

lemma tree_child_Some_iff: "wf_tree t \<Longrightarrow> tree_child t k = Some u \<longleftrightarrow> (k, u) \<in> set (kids t)"
  by (simp add: tree_child_kids distinct_kids map_of_eq_Some_iff)

lemma wf_kid: "wf_tree t \<Longrightarrow> (k, u) \<in> set (kids t) \<Longrightarrow> wf_tree u"
  by (auto simp: wf_tree.simps [of t] list_all_iff)

lemma wf_tree_child: "wf_tree t \<Longrightarrow> tree_child t k = Some u \<Longrightarrow> wf_tree u"
  by (auto simp: tree_child_kids wf_tree.simps [of t] list_all_iff dest!: map_of_SomeD)

lemma wf_tree_lookup: "wf_tree t \<Longrightarrow> tree_lookup t ks = Some u \<Longrightarrow> wf_tree u"
  by (induction ks arbitrary: t) (auto split: option.splits dest: wf_tree_child)

lemma wf_tree_empty [simp]: "wf_tree empty_tree"
  by (simp add: wf_tree.simps [of empty_tree] children_or_empty_def kids_def kids_of_def)

lemma wf_tree_set [simp]: "wf_tree (set_value v t) = wf_tree t" "wf_tree (set_deadline d t) = wf_tree t"
  by (simp_all add: wf_tree.simps [of "set_value v t"] wf_tree.simps [of "set_deadline d t"]
      wf_tree.simps [of t] children_or_empty_def kids_def)

lemma wf_tree_put [simp]:
  assumes "wf_tree t" "wf_tree u"
  shows "wf_tree (put_child k u t)"
proof -
  let ?ps = "children_or_empty t"
  have js: "js_object ?ps" and w: "\<And>j v. (j, Some v) \<in> set ?ps \<Longrightarrow> wf_tree v"
    using assms(1) by (auto simp: wf_tree.simps [of t] list_all_iff in_kids_iff children_or_empty_def
        split: option.splits)
  note d = js_object_distinct [OF js]
  have "wf_tree v" if "(j, v) \<in> set (kids (put_child k u t))" for j v
    using that set_obj_put [OF d] w assms(2) by (force simp: in_kids_iff put_child_def)
  moreover have "children_or_empty (put_child k u t) = obj_put k (Some u) ?ps"
    by (simp add: put_child_def children_or_empty_def [of "set_children _ _"])
  ultimately show ?thesis
    using js by (auto simp: wf_tree.simps [of "put_child k u t"] list_all_iff)
qed

lemma tree_child_strip: "wf_tree t \<Longrightarrow> tree_child (strip t) k = map_option strip (tree_child t k)"
proof -
  assume wf: "wf_tree t"
  have "map_of (map (\<lambda>(k, u). (k, Some (strip u))) (kids t)) k
        = map_option (\<lambda>u. Some (strip u)) (map_of (kids t) k)"
    by (simp add: map_of_map)
  with tree_child_kids [OF wf] show ?thesis
    by (cases "map_of (kids t) k")
      (auto simp: strip.simps [of t] tree_child_def [of "Tree _ _ _"] kids_def kids_of_def
        split: option.splits)
qed

lemma tree_lookup_strip: "wf_tree t \<Longrightarrow> tree_lookup (strip t) q = map_option strip (tree_lookup t q)"
  by (induction q arbitrary: t) (auto simp: tree_child_strip wf_tree_child split: option.splits)

lemma tree_at_strip: "wf_tree t \<Longrightarrow> tree_at now (strip t) ks = tree_at now t ks"
  by (induction ks arbitrary: t) (auto simp: tree_child_strip wf_tree_child split: option.splits)

lemma kids_strip: "kids (strip t) = map (\<lambda>(k, u). (k, strip u)) (kids t)"
  by (cases "tchildren t")
    (simp_all add: strip.simps [of t] kids_def kids_of_def filter_map comp_def case_prod_unfold)

lemma wf_tree_strip [simp]: "wf_tree t \<Longrightarrow> wf_tree (strip t)"
proof (induction t rule: tree_kids_induct)
  case (Tree t)
  let ?ps = "children_or_empty t"
  have "children_or_empty (strip t) = map (\<lambda>(k, u). (k, Some (strip (the u)))) (filter (\<lambda>(k, u). u \<noteq> None) ?ps)"
    by (cases "tchildren t")
      (simp_all add: strip.simps [of t] children_or_empty_def kids_def kids_of_def comp_def case_prod_unfold)
  moreover have "js_object ?ps" using Tree.prems by (simp add: wf_tree.simps [of t])
  ultimately have "js_object (children_or_empty (strip t))"
    using js_object_map_filter [of ?ps "\<lambda>k u. Some (strip (the u))"] by simp
  moreover have "wf_tree (strip u)" if "(k, u) \<in> set (kids t)" for k u
    using Tree that wf_kid by blast
  ultimately show ?case
    by (auto simp: wf_tree.simps [of "strip t"] kids_strip list_all_iff)
qed

end
