(* ===== verification/Cache_Storage.thy ===== *)
theory Cache_Storage
  imports Cache_Trees
begin

text \<open>
  The interfaces a cache is built from and the state its operations change.

  The storage, the serializers, the memoizer and the semaphore are supplied by the user of the
  library (\<open>src/types/key-tree-cache-storage.ts\<close>, \<open>key-tree-cache-options.ts\<close>): they are records
  of functions, over an arbitrary storage state \<open>'s\<close> and memo state \<open>'m\<close>. What the library relies
  on is stated in the locales \<open>storage_laws\<close> and \<open>serializer_laws\<close>. \<open>map_storage\<close> is the
  in-memory storage of the repository's own tests (\<open>test/helpers.ts\<close>).
\<close>

section \<open>Steps and ttls\<close>

record 'v step =
  step_key :: key
  step_value :: "'v option"
  step_level :: nat
  step_nodeRef :: chained

record 'v fullSetItem = "'v step" +
  fs_oldValue :: "'v option"
  fs_currentSerialized :: "rvalue option"

datatype 'v stepTtl = TtlFunction "'v step \<Rightarrow> int option" | TtlNumber int

definition getTtl :: "'v stepTtl option \<Rightarrow> 'v step \<Rightarrow> int option \<Rightarrow> int option \<times> int option" where
  "getTtl ttl step maxTtl =
     (let currentTtl = (case ttl of None \<Rightarrow> None | Some (TtlFunction f) \<Rightarrow> f step | Some (TtlNumber n) \<Rightarrow> Some n)
      in (currentTtl,
          if num_truthy currentTtl \<and> (\<not> num_truthy maxTtl \<or> the currentTtl > the maxTtl)
          then currentTtl else maxTtl))"

lemma getTtl_maximum:
  "getTtl ttl step maxTtl = (currentTtl, maxTtl') \<Longrightarrow>
   (num_truthy currentTtl \<longrightarrow> num_truthy maxTtl' \<and> the currentTtl \<le> the maxTtl')
   \<and> (num_truthy maxTtl \<longrightarrow> num_truthy maxTtl' \<and> the maxTtl \<le> the maxTtl')
   \<and> (maxTtl' = currentTtl \<or> maxTtl' = maxTtl)"
  by (auto simp: getTtl_def Let_def split: if_splits)

section \<open>Interfaces\<close>

record 's storage =
  st_get :: "'s \<Rightarrow> key \<Rightarrow> rvalue option"
  st_set :: "key \<Rightarrow> rvalue \<Rightarrow> int option \<Rightarrow> 's \<Rightarrow> 's"
  st_getCurrentTtl :: "'s \<Rightarrow> key \<Rightarrow> int option"
  st_getHistory :: "('s \<Rightarrow> key \<Rightarrow> rvalue option list) option"
  st_getChildren :: "('s \<Rightarrow> key option \<Rightarrow> key list) option"
  st_randomIterate :: "('s \<Rightarrow> string option \<Rightarrow> key list) option"
  st_registerChild :: "(key option \<Rightarrow> key \<Rightarrow> 's \<Rightarrow> 's) option"
  st_clearAllChildrenRegistry :: "('s \<Rightarrow> 's) option"

text \<open>
  A deserializer may throw, \<open>Inl\<close> is the error thrown; the value deserializer may also answer
  with \<open>null\<close> or \<open>undefined\<close>, as \<open>JSON.parse\<close> does on the text \<open>null\<close>.
\<close>

record 'v valueSerializer =
  vs_serialize :: "'v \<Rightarrow> rvalue"
  vs_deserialize :: "rvalue \<Rightarrow> error + 'v option"
  vs_deserializeList :: "(rvalue list \<Rightarrow> error + 'v option) option"
  vs_deserializeAsyncList :: "(rvalue option list \<Rightarrow> error + 'v option) option"

record treeSerializer =
  ts_serialize :: "rvalue tree \<Rightarrow> rvalue"
  ts_deserialize :: "rvalue \<Rightarrow> error + rvalue tree"

text \<open>What the memoizer keeps are the promises of steps and of trees.\<close>

datatype 'v memo = MemoStep "error + 'v step option" | MemoTree "error + rvalue sync_tree option"

record ('v, 'm) memoizer =
  mm_get :: "'m \<Rightarrow> key \<Rightarrow> 'v memo option"
  mm_set :: "key \<Rightarrow> 'v memo \<Rightarrow> 'm \<Rightarrow> 'm"

record ('v, 'm) options =
  o_keyLevelNodes :: nat
  o_valueSerializer :: "'v valueSerializer"
  o_treeSerializer :: treeSerializer
  o_memoizer :: "('v, 'm) memoizer option"
  o_multiTreeSelector :: "rvalue option list \<Rightarrow> rvalue list"

text \<open>
  The fields of \<open>TreeKeyCache\<close>. \<open>c_distinct\<close> stands for the \<open>distinct\<close> operator of the package
  \<open>@codibre/fluent-iterable\<close> as \<open>MultiTreeRef\<close> calls it: it merges the entries of equal key.
\<close>

record ('v, 's, 'm) cache =
  c_storage :: "'s storage"
  c_options :: "('v, 'm) options"
  c_distinct :: "(key \<times> rvalue tree list) list \<Rightarrow> (key \<times> rvalue tree list) list"

abbreviation keyLevelNodes :: "('v, 's, 'm) cache \<Rightarrow> nat" where
  "keyLevelNodes c \<equiv> o_keyLevelNodes (c_options c)"

abbreviation vser :: "('v, 's, 'm) cache \<Rightarrow> 'v valueSerializer" where
  "vser c \<equiv> o_valueSerializer (c_options c)"

abbreviation tser :: "('v, 's, 'm) cache \<Rightarrow> treeSerializer" where
  "tser c \<equiv> o_treeSerializer (c_options c)"

section \<open>The state of the world\<close>

text \<open>
  The events an operation causes besides storage updates: calls of the semaphore's \<open>acquire\<close>,
  releases scheduled through \<open>dontWait\<close>, emitted \<open>deserializeError\<close> events, and the calls of
  \<open>registerChild\<close>, whose effect on the storage state is up to the storage.
\<close>

datatype errorKind = ValueKind | TreeKind

datatype event =
    Acquire key
  | ScheduleRelease key
  | DeserializeError error errorKind
  | RegisterChild "key option" key

record ('s, 'm) world =
  w_store :: 's
  w_memo :: 'm
  w_events :: "event list"

definition emit :: "event \<Rightarrow> ('s, 'm) world \<Rightarrow> ('s, 'm) world" where
  "emit e w = w\<lparr>w_events := w_events w @ [e]\<rparr>"

text \<open>
  \<open>dontWait(callback)\<close> (\<open>src/utils/dont-wait.ts\<close>): the callback, given as the event of its scheduling, is
  left to the next tick of the event loop, which ignores its errors; nothing happens without one.
\<close>

definition dontWait :: "event option \<Rightarrow> ('s, 'm) world \<Rightarrow> ('s, 'm) world" where
  "dontWait callback w = (case callback of None \<Rightarrow> w | Some scheduled \<Rightarrow> emit scheduled w)"

lemma dontWait_simps [simp]: "dontWait None w = w" "dontWait (Some e) w = emit e w"
  by (simp_all add: dontWait_def)

definition store_set :: "('v, 's, 'm) cache \<Rightarrow> key \<Rightarrow> rvalue \<Rightarrow> int option \<Rightarrow> ('s, 'm) world \<Rightarrow> ('s, 'm) world" where
  "store_set c k v ttl w = w\<lparr>w_store := st_set (c_storage c) k v ttl (w_store w)\<rparr>"

abbreviation store_get :: "('v, 's, 'm) cache \<Rightarrow> ('s, 'm) world \<Rightarrow> key \<Rightarrow> rvalue option" where
  "store_get c w k \<equiv> st_get (c_storage c) (w_store w) k"

text \<open>\<open>this.storage.registerChild?.(parentKey, partialKey)\<close>.\<close>

definition registerChild ::
  "('v, 's, 'm) cache \<Rightarrow> key option \<Rightarrow> key \<Rightarrow> ('s, 'm) world \<Rightarrow> ('s, 'm) world" where
  "registerChild c parentKey partialKey w =
     (case st_registerChild (c_storage c) of
        None \<Rightarrow> w
      | Some reg \<Rightarrow> emit (RegisterChild parentKey partialKey) (w\<lparr>w_store := reg parentKey partialKey (w_store w)\<rparr>))"

lemma emit_simps [simp]:
  "w_store (emit e w) = w_store w" "w_memo (emit e w) = w_memo w"
  "w_events (emit e w) = w_events w @ [e]"
  by (simp_all add: emit_def)

lemma store_set_simps [simp]:
  "w_memo (store_set c k v ttl w) = w_memo w" "w_events (store_set c k v ttl w) = w_events w"
  by (simp_all add: store_set_def)

lemma registerChild_simps [simp]:
  "w_memo (registerChild c p k w) = w_memo w"
  "w_events (registerChild c p k w) = w_events w
     @ (if st_registerChild (c_storage c) = None then [] else [RegisterChild p k])"
  by (simp_all add: registerChild_def split: option.splits)

section \<open>Laws\<close>

text \<open>What the documentation of \<open>KeyTreeCacheStorage\<close> promises of \<open>get\<close>, \<open>set\<close> and \<open>registerChild\<close>.\<close>

locale storage_laws =
  fixes S :: "'s storage"
  assumes get_set_same: "st_get S (st_set S k v ttl s) k = Some v"
    and get_set_other: "k' \<noteq> k \<Longrightarrow> st_get S (st_set S k v ttl s) k' = st_get S s k'"
    and get_register: "st_registerChild S = Some reg \<Longrightarrow> st_get S (reg p k s) k' = st_get S s k'"

text \<open>
  A serializer pair: what has been serialized can be read back; a tree is read back without its
  undefined children; no serialized form is the empty string, which is not read as a value either;
  what is read as a tree is a tree of objects.
\<close>

locale serializer_laws =
  fixes V :: "'v valueSerializer" and T :: treeSerializer
  assumes value_roundtrip: "vs_deserialize V (vs_serialize V v) = Inr (Some v)"
    and value_nonempty: "vs_serialize V v \<noteq> []"
    and value_empty: "vs_deserialize V [] \<noteq> Inr (Some v)"
    and tree_roundtrip: "wf_tree t \<Longrightarrow> ts_deserialize T (ts_serialize T t) = Inr (strip t)"
    and tree_nonempty: "ts_serialize T t \<noteq> []"
    and tree_wf: "ts_deserialize T r = Inr t \<Longrightarrow> wf_tree t"

section \<open>The in-memory storage of the tests\<close>

record mapState =
  ms_map :: "(key \<times> rvalue) list"
  ms_ttlMap :: "(key \<times> int) list"

definition map_set :: "key \<Rightarrow> rvalue \<Rightarrow> int option \<Rightarrow> mapState \<Rightarrow> mapState" where
  "map_set k v ttl s =
     (let s' = s\<lparr>ms_map := AList.update k v (ms_map s)\<rparr> in
      if num_truthy ttl then s'\<lparr>ms_ttlMap := AList.update k (the ttl) (ms_ttlMap s')\<rparr> else s')"

definition map_storage :: "mapState storage" where
  "map_storage =
     \<lparr>st_get = (\<lambda>s k. map_of (ms_map s) k), st_set = map_set,
      st_getCurrentTtl = (\<lambda>s k. map_of (ms_ttlMap s) k),
      st_getHistory = None, st_getChildren = None, st_randomIterate = None,
      st_registerChild = None, st_clearAllChildrenRegistry = None\<rparr>"

interpretation map_laws: storage_laws map_storage
  by unfold_locales (auto simp: map_storage_def map_set_def Let_def update_conv')

end
