(* ===== verification/Cache_Lists.thy ===== *)
theory Cache_Lists
  imports Cache_Prelude "HOL-Library.Multiset"
begin

text \<open>
  The list structures behind the synchronous traversals: the linked \<open>Queue\<close>
  (\<open>src/utils/graphs/queue.ts\<close>) and a JavaScript array used as a stack. Linked nodes are cells of
  an explicit heap, so that the
  aliasing of \<open>last\<close> with the end of the \<open>next\<close> chain is part of the model.
  The interface \<open>SimpleList\<close> of \<open>graph-types.ts\<close> is the locale \<open>simple_list\<close>; \<open>fifo_list\<close> and
  \<open>lifo_list\<close> extend it with the order of removal and are interpreted on the queue and on the
  array.
\<close>

section \<open>The SimpleList interface\<close>

record ('l, 'x) SimpleList =
  sl_push :: "'x \<Rightarrow> 'l \<Rightarrow> 'l"
  sl_pop :: "'l \<Rightarrow> 'x option \<times> 'l"
  sl_length :: "'l \<Rightarrow> nat"

locale push_list =
  fixes ops :: "('l, 'x) SimpleList" and new :: 'l
    and contents :: "'l \<Rightarrow> 'x list" and invar :: "'l \<Rightarrow> bool"
  assumes invar_new: "invar new"
    and contents_new: "contents new = []"
    and invar_push: "invar l \<Longrightarrow> invar (sl_push ops x l)"
    and contents_push: "invar l \<Longrightarrow> contents (sl_push ops x l) = contents l @ [x]"
    and length_contents: "invar l \<Longrightarrow> sl_length ops l = length (contents l)"

locale simple_list = push_list +
  assumes pop_some: "invar l \<Longrightarrow> contents l \<noteq> [] \<Longrightarrow>
    \<exists>x l'. sl_pop ops l = (Some x, l') \<and> invar l' \<and> mset (contents l) = add_mset x (mset (contents l'))"

locale fifo_list = push_list +
  assumes pop_first: "invar l \<Longrightarrow> contents l = x # xs \<Longrightarrow>
    \<exists>l'. sl_pop ops l = (Some x, l') \<and> invar l' \<and> contents l' = xs"

locale lifo_list = push_list +
  assumes pop_last: "invar l \<Longrightarrow> contents l = xs @ [x] \<Longrightarrow>
    \<exists>l'. sl_pop ops l = (Some x, l') \<and> invar l' \<and> contents l' = xs"

sublocale fifo_list \<subseteq> simple_list
proof
  fix l assume "invar l" "contents l \<noteq> []"
  then obtain x xs where "contents l = x # xs" by (meson neq_Nil_conv)
  with pop_first [OF \<open>invar l\<close> this]
  show "\<exists>x l'. sl_pop ops l = (Some x, l') \<and> invar l'
          \<and> mset (contents l) = add_mset x (mset (contents l'))"
    by auto
qed

sublocale lifo_list \<subseteq> simple_list
proof
  fix l assume "invar l" "contents l \<noteq> []"
  then obtain x xs where "contents l = xs @ [x]" by (meson rev_exhaust)
  with pop_last [OF \<open>invar l\<close> this]
  show "\<exists>x l'. sl_pop ops l = (Some x, l') \<and> invar l'
          \<and> mset (contents l) = add_mset x (mset (contents l'))"
    by auto
qed

section \<open>A JavaScript array as a stack\<close>

definition array_push :: "'x \<Rightarrow> 'x list \<Rightarrow> 'x list" where
  "array_push x xs = xs @ [x]"

definition array_pop :: "'x list \<Rightarrow> 'x option \<times> 'x list" where
  "array_pop xs = (if xs = [] then (None, []) else (Some (last xs), butlast xs))"

definition array_ops :: "('x list, 'x) SimpleList" where
  "array_ops = \<lparr>sl_push = array_push, sl_pop = array_pop, sl_length = length\<rparr>"

interpretation array_stack: lifo_list array_ops "[]" "\<lambda>xs. xs" "\<lambda>_. True"
  by unfold_locales (auto simp: array_ops_def array_push_def array_pop_def)

section \<open>Linked nodes\<close>

record 'a qnode =
  nd_value :: 'a
  nd_next :: "nat option"

type_synonym 'a qheap = "nat \<Rightarrow> 'a qnode option"

record 'a queue =
  q_next :: "nat option"
  q_last :: "nat option"
  q_size :: nat
  q_heap :: "'a qheap"
  q_fresh :: nat        \<comment> \<open>the next unused cell: nodes are only ever allocated\<close>

definition queue_new :: "'a queue" where
  "queue_new = \<lparr>q_next = None, q_last = None, q_size = 0, q_heap = Map.empty, q_fresh = 0\<rparr>"

text \<open>
  The pointer updates of \<open>push\<close> and of node removal, shared by both queue classes:
  \<open>this.last = this.last.next = node\<close> and \<open>this.next = this.next.next\<close>.
\<close>

definition set_next :: "'a qheap \<Rightarrow> nat \<Rightarrow> nat \<Rightarrow> 'a qheap" where
  "set_next h l a = (case h l of None \<Rightarrow> h | Some nd \<Rightarrow> h(l \<mapsto> nd\<lparr>nd_next := Some a\<rparr>))"

definition link_node :: "'a \<Rightarrow> 'a queue \<Rightarrow> 'a queue" where
  "link_node v q =
     (let a = q_fresh q; h = (q_heap q)(a \<mapsto> \<lparr>nd_value = v, nd_next = None\<rparr>) in
      case q_last q of
        Some l \<Rightarrow> q\<lparr>q_last := Some a, q_heap := set_next h l a, q_fresh := Suc a\<rparr>
      | None \<Rightarrow> q\<lparr>q_last := Some a, q_next := Some a, q_heap := h, q_fresh := Suc a\<rparr>)"

definition removeNode :: "'a queue \<Rightarrow> 'a queue" where
  "removeNode q =
     (case q_next q of
        None \<Rightarrow> q
      | Some a \<Rightarrow>
          (let nxt = Option.bind (q_heap q a) nd_next in
           if nxt = None then q\<lparr>q_next := None, q_last := None\<rparr> else q\<lparr>q_next := nxt\<rparr>))"

section \<open>The queue\<close>

definition queue_push :: "'a \<Rightarrow> 'a queue \<Rightarrow> 'a queue" where
  "queue_push v q = (let q' = link_node v q in q'\<lparr>q_size := Suc (q_size q')\<rparr>)"

definition queue_peek :: "'a queue \<Rightarrow> 'a option" where
  "queue_peek q = Option.bind (q_next q) (\<lambda>a. map_option nd_value (q_heap q a))"

definition queue_pop :: "'a queue \<Rightarrow> 'a option \<times> 'a queue" where
  "queue_pop q =
     (case q_next q of
        None \<Rightarrow> (None, q)
      | Some a \<Rightarrow>
          (let q' = removeNode q in
           (map_option nd_value (q_heap q a), q'\<lparr>q_size := q_size q' - 1\<rparr>)))"

definition queue_ops :: "('a queue, 'a) SimpleList" where
  "queue_ops = \<lparr>sl_push = queue_push, sl_pop = queue_pop, sl_length = q_size\<rparr>"

section \<open>Chains of nodes\<close>

fun lchain :: "'a qheap \<Rightarrow> nat option \<Rightarrow> nat list \<Rightarrow> bool" where
  "lchain h p [] \<longleftrightarrow> p = None"
| "lchain h p (a # as) \<longleftrightarrow> p = Some a \<and> (\<exists>nd. h a = Some nd \<and> lchain h (nd_next nd) as)"

text \<open>The values along a chain, reading at most \<open>n\<close> nodes.\<close>

fun follow :: "'a qheap \<Rightarrow> nat \<Rightarrow> nat option \<Rightarrow> 'a list" where
  "follow h 0 p = []"
| "follow h (Suc n) p =
     (case Option.bind p h of None \<Rightarrow> [] | Some nd \<Rightarrow> nd_value nd # follow h n (nd_next nd))"

abbreviation node_vals :: "'a qheap \<Rightarrow> nat list \<Rightarrow> 'a list" where
  "node_vals h as \<equiv> map (\<lambda>a. nd_value (the (h a))) as"

definition chain_inv :: "'a queue \<Rightarrow> nat list \<Rightarrow> bool" where
  "chain_inv q as \<longleftrightarrow> lchain (q_heap q) (q_next q) as \<and> distinct as
     \<and> q_last q = (if as = [] then None else Some (last as)) \<and> (\<forall>a \<in> set as. a < q_fresh q)"

lemma follow_lchain: "lchain h p as \<Longrightarrow> length as \<le> n \<Longrightarrow> follow h n p = node_vals h as"
proof (induction as arbitrary: p n)
  case Nil
  then show ?case by (cases n) auto
next
  case (Cons a as)
  then obtain m where "n = Suc m" by (cases n) auto
  with Cons show ?case by auto
qed

lemma lchain_in_heap: "lchain h p as \<Longrightarrow> a \<in> set as \<Longrightarrow> \<exists>nd. h a = Some nd"
  by (induction as arbitrary: p) auto

lemma lchain_frame: "lchain h p as \<Longrightarrow> (\<And>a. a \<in> set as \<Longrightarrow> h' a = h a) \<Longrightarrow> lchain h' p as"
proof (induction as arbitrary: p)
  case (Cons a as)
  then have "h' a = h a" by simp
  with Cons show ?case by auto
qed simp

lemma lchain_snoc:
  assumes "lchain h p as" "as \<noteq> []" "distinct as" "b \<notin> set as"
    and "h b = Some nd" "nd_next nd = None"
  shows "lchain (set_next h (last as) b) p (as @ [b])"
  using assms
proof (induction as arbitrary: p)
  case (Cons a as)
  from Cons.prems obtain n where n: "h a = Some n" and ch: "lchain h (nd_next n) as" by auto
  show ?case
  proof (cases "as = []")
    case True
    with Cons.prems n ch show ?thesis by (auto simp: set_next_def)
  next
    case False
    then have "last as \<noteq> a" using Cons.prems by auto
    then have "set_next h (last as) b a = Some n"
      by (auto simp: set_next_def n split: option.splits)
    with Cons.IH [OF ch False] Cons.prems False show ?thesis by auto
  qed
qed simp

lemma node_vals_set_next:
  "node_vals (set_next h l b) as = node_vals h as"
  by (auto simp: set_next_def split: option.splits)

text \<open>The two pointer updates, on the chain.\<close>

lemma chain_link_node:
  assumes inv: "chain_inv q as"
  shows "chain_inv (link_node v q) (as @ [q_fresh q])
         \<and> node_vals (q_heap (link_node v q)) (as @ [q_fresh q]) = node_vals (q_heap q) as @ [v]
         \<and> q_size (link_node v q) = q_size q"
proof -
  let ?b = "q_fresh q"
  let ?h = "(q_heap q)(?b \<mapsto> \<lparr>nd_value = v, nd_next = None\<rparr>)"
  have ch: "lchain (q_heap q) (q_next q) as" and d: "distinct as" and lt: "\<forall>a \<in> set as. a < ?b"
    and last: "q_last q = (if as = [] then None else Some (last as))"
    using inv by (auto simp: chain_inv_def)
  have fresh: "?b \<notin> set as" using lt by auto
  have ch': "lchain ?h (q_next q) as"
    by (rule lchain_frame [OF ch]) (use fresh in auto)
  have vals: "node_vals ?h as = node_vals (q_heap q) as"
    using fresh by auto
  show ?thesis
  proof (cases "as = []")
    case True
    with last ch show ?thesis by (auto simp: link_node_def chain_inv_def Let_def)
  next
    case False
    then have "lchain (set_next ?h (last as) ?b) (q_next q) (as @ [?b])"
      using ch' d fresh by (intro lchain_snoc) auto
    moreover have "node_vals (set_next ?h (last as) ?b) (as @ [?b]) = node_vals (q_heap q) as @ [v]"
      using vals by (subst node_vals_set_next) simp
    ultimately show ?thesis
      using False last d lt fresh by (auto simp: link_node_def chain_inv_def Let_def less_Suc_eq)
  qed
qed

lemma chain_removeNode:
  assumes inv: "chain_inv q (a # as)"
  shows "chain_inv (removeNode q) as \<and> q_heap (removeNode q) = q_heap q
         \<and> q_size (removeNode q) = q_size q"
  using assms by (cases as) (auto simp: removeNode_def chain_inv_def Let_def)

section \<open>The queue is a first-in first-out list\<close>

definition queue_invar :: "'a queue \<Rightarrow> bool" where
  "queue_invar q \<longleftrightarrow> (\<exists>as. chain_inv q as \<and> q_size q = length as)"

definition queue_contents :: "'a queue \<Rightarrow> 'a list" where
  "queue_contents q = follow (q_heap q) (q_size q) (q_next q)"

lemma queue_contents_chain:
  "chain_inv q as \<Longrightarrow> q_size q = length as \<Longrightarrow> queue_contents q = node_vals (q_heap q) as"
  by (simp add: queue_contents_def chain_inv_def follow_lchain)

lemma queue_push_refines:
  assumes "queue_invar q"
  shows "queue_invar (queue_push v q) \<and> queue_contents (queue_push v q) = queue_contents q @ [v]"
proof -
  obtain as where as: "chain_inv q as" "q_size q = length as"
    using assms by (auto simp: queue_invar_def)
  let ?p = "queue_push v q"
  have c: "chain_inv ?p (as @ [q_fresh q])" and s: "q_size ?p = length (as @ [q_fresh q])"
    and v: "node_vals (q_heap ?p) (as @ [q_fresh q]) = node_vals (q_heap q) as @ [v]"
    using chain_link_node [OF as(1), of v] as(2) by (auto simp: queue_push_def Let_def chain_inv_def)
  show ?thesis
    using queue_contents_chain [OF c s] queue_contents_chain [OF as] v c s
    unfolding queue_invar_def by metis
qed

lemma queue_pop_refines:
  assumes "queue_invar q" "queue_contents q = x # xs"
  shows "\<exists>q'. queue_pop q = (Some x, q') \<and> queue_invar q' \<and> queue_contents q' = xs"
proof -
  obtain as where as: "chain_inv q as" "q_size q = length as"
    using assms by (auto simp: queue_invar_def)
  from queue_contents_chain [OF this] assms(2) obtain a bs where ab: "as = a # bs"
    by (cases as) auto
  let ?q = "snd (queue_pop q)"
  have c: "chain_inv ?q bs" and s: "q_size ?q = length bs" and h: "q_heap ?q = q_heap q"
    and f: "fst (queue_pop q) = map_option nd_value (q_heap q a)"
    using chain_removeNode [of q a bs] as ab
    by (auto simp: queue_pop_def Let_def chain_inv_def)
  have "fst (queue_pop q) = Some x" "queue_contents ?q = xs"
    using queue_contents_chain [OF as] queue_contents_chain [OF c s] assms(2) ab as f h
    by (auto simp: chain_inv_def)
  then show ?thesis
    using c s unfolding queue_invar_def by (metis prod.collapse)
qed

lemma queue_pop_empty: "queue_invar q \<Longrightarrow> queue_contents q = [] \<Longrightarrow> queue_pop q = (None, q)"
proof -
  assume "queue_invar q" and c: "queue_contents q = []"
  then obtain as where as: "chain_inv q as" "q_size q = length as" by (auto simp: queue_invar_def)
  with queue_contents_chain [OF as] c show ?thesis by (simp add: queue_pop_def chain_inv_def)
qed

lemma queue_peek_contents:
  "queue_invar q \<Longrightarrow> queue_peek q = (case queue_contents q of [] \<Rightarrow> None | x # _ \<Rightarrow> Some x)"
proof -
  assume "queue_invar q"
  then obtain as where as: "chain_inv q as" "q_size q = length as" by (auto simp: queue_invar_def)
  with queue_contents_chain [OF as] show ?thesis
    by (cases as) (auto simp: queue_peek_def chain_inv_def)
qed

interpretation queue_list: fifo_list queue_ops queue_new queue_contents queue_invar
proof
  show "queue_invar queue_new"
    unfolding queue_invar_def by (rule exI [of _ "[]"]) (simp add: queue_new_def chain_inv_def)
  show "queue_contents queue_new = []"
    by (simp add: queue_contents_def queue_new_def)
next
  fix l :: "'a queue" and x
  assume "queue_invar l"
  then show "queue_invar (sl_push queue_ops x l)"
    and "queue_contents (sl_push queue_ops x l) = queue_contents l @ [x]"
    using queue_push_refines [of l x] by (auto simp: queue_ops_def)
next
  fix l :: "'a queue"
  assume "queue_invar l"
  then show "sl_length queue_ops l = length (queue_contents l)"
    using queue_contents_chain by (fastforce simp: queue_ops_def queue_invar_def)
next
  fix l :: "'a queue" and x xs
  assume "queue_invar l" "queue_contents l = x # xs"
  then show "\<exists>l'. sl_pop queue_ops l = (Some x, l') \<and> queue_invar l' \<and> queue_contents l' = xs"
    using queue_pop_refines [of l x xs] by (auto simp: queue_ops_def)
qed

end
