(* ===== verification/Cache_Traversals.thy ===== *)
theory Cache_Traversals
  imports Cache_Trees Cache_Lists
begin

text \<open>
  The synchronous traversals of \<open>src/utils/graphs\<close>. \<open>treePreOrderTraversal\<close> is the loop of the
  source over any list structure that offers the \<open>SimpleList\<close> operations; the breadth-first and
  depth-first searches pass it a queue and an array. Its loop bound is the number of nodes of the
  tree, which the lemmas show to be enough for every lawful list structure.
  \<open>treePostOrderTraversal\<close> is the recursive generator of the source; it threads the list it is
  given without ever reading it.

  The lemmas relate each traversal to a recursive description of its order, and all of them to the
  enumeration \<open>nodes\<close> of the nodes of a tree with their paths.
\<close>

section \<open>Pre-order traversal\<close>

type_synonym 'a entry = "'a tree \<times> nat \<times> key option \<times> chained option"

definition pre_visit :: "int \<Rightarrow> 'a entry \<Rightarrow> 'a item list \<times> chained option" where
  "pre_visit now = (\<lambda>(treeRef, level, key, parentRef).
     case key of
       None \<Rightarrow> ([], parentRef)
     | Some k \<Rightarrow> (let node = createTraversalItem k level parentRef treeRef now
                  in ([node], Some (item_ref node))))"

definition next_entries :: "int \<Rightarrow> 'a entry \<Rightarrow> 'a entry list" where
  "next_entries now e = (case e of (treeRef, level, key, parentRef) \<Rightarrow>
     map (\<lambda>(nextKey, nextValue). (nextValue, level + 1, Some nextKey, snd (pre_visit now e)))
       (kids treeRef))"

fun preOrderLoop ::
  "('l, 'a entry) SimpleList \<Rightarrow> int \<Rightarrow> nat \<Rightarrow> 'l \<Rightarrow> 'a item list \<Rightarrow> 'a item list \<times> error option" where
  "preOrderLoop ops now 0 list out = (out, Some OutOfFuel)"
| "preOrderLoop ops now (Suc fuel) list out =
     (if sl_length ops list > 0 then
        (case sl_pop ops list of
           (None, _) \<Rightarrow> (out, Some ListStructure)
         | (Some e, list') \<Rightarrow>
             preOrderLoop ops now fuel (fold (sl_push ops) (next_entries now e) list')
               (out @ fst (pre_visit now e)))
      else (out, None))"

fun node_count :: "'a tree \<Rightarrow> nat" where
  "node_count t = Suc (sum_list (map (\<lambda>(k, u). node_count u) (kids t)))"

declare node_count.simps [simp del]

definition treePreOrderTraversal ::
  "('l, 'a entry) SimpleList \<Rightarrow> 'l \<Rightarrow> 'a tree \<Rightarrow> chained option \<Rightarrow> int
   \<Rightarrow> 'a item list \<times> error option" where
  "treePreOrderTraversal ops list root startParentRef now =
     preOrderLoop ops now (Suc (node_count root))
       (sl_push ops (root, (case startParentRef of None \<Rightarrow> 0 | Some p \<Rightarrow> ch_level p), None, startParentRef) list)
       (case startParentRef of
          None \<Rightarrow> []
        | Some p \<Rightarrow> [createTraversalItem (ch_key p) (ch_level p) (ch_parentRef p) root now])"

definition treePreOrderBreadthFirstSearch ::
  "'a tree \<Rightarrow> chained option \<Rightarrow> int \<Rightarrow> 'a item list \<times> error option" where
  "treePreOrderBreadthFirstSearch tree parentRef now =
     treePreOrderTraversal queue_ops queue_new tree parentRef now"

definition treePreOrderDepthFirstSearch ::
  "'a tree \<Rightarrow> chained option \<Rightarrow> int \<Rightarrow> 'a item list \<times> error option" where
  "treePreOrderDepthFirstSearch tree parentRef now =
     treePreOrderTraversal array_ops [] tree parentRef now"

section \<open>Post-order traversal\<close>

type_synonym 'a post_entry = "'a tree \<times> key option \<times> chained option"

function (sequential) treePostOrderTraversalRecursive ::
  "('a post_entry \<Rightarrow> 'l \<Rightarrow> 'l) \<Rightarrow> int \<Rightarrow> 'a tree \<Rightarrow> 'l \<Rightarrow> chained option \<Rightarrow> key option
   \<Rightarrow> 'a item list \<times> 'l"
and post_children ::
  "('a post_entry \<Rightarrow> 'l \<Rightarrow> 'l) \<Rightarrow> int \<Rightarrow> (key \<times> 'a tree) list \<Rightarrow> 'l \<Rightarrow> chained option
   \<Rightarrow> chained option \<Rightarrow> 'a item list \<times> 'l" where
  "treePostOrderTraversalRecursive push now treeRef list parentRef key =
     (let level = (case parentRef of None \<Rightarrow> 0 | Some p \<Rightarrow> ch_level p);
          node = map_option (\<lambda>k. createTraversalItem k (level + 1) parentRef treeRef now) key;
          (below, list') = post_children push now (kids treeRef) list (map_option item_ref node)
             (case node of None \<Rightarrow> parentRef | Some n \<Rightarrow> Some (item_ref n))
      in (below @ (case node of None \<Rightarrow> [] | Some n \<Rightarrow> [n]), list'))"
| "post_children push now [] list node ref = ([], list)"
| "post_children push now ((nextKey, nextTree) # siblings) list node ref =
     (let list1 = push (nextTree, Some nextKey, node) list;
          (items1, list2) = treePostOrderTraversalRecursive push now nextTree list1 ref (Some nextKey);
          (items2, list3) = post_children push now siblings list2 node ref
      in (items1 @ items2, list3))"
  by pat_completeness auto
termination
  by (relation "measure (case_sum (\<lambda>(_, _, t, _). size t)
       (\<lambda>(_, _, ks, _). sum_list (map (\<lambda>(k, t). Suc (size t)) ks)))") (auto simp: kids_size)

definition treePostOrderTraversal ::
  "('a post_entry \<Rightarrow> 'l \<Rightarrow> 'l) \<Rightarrow> 'a tree \<Rightarrow> 'l \<Rightarrow> chained option \<Rightarrow> int \<Rightarrow> 'a item list" where
  "treePostOrderTraversal push treeRef list root now =
     fst (treePostOrderTraversalRecursive push now treeRef list root None) @
     (case root of
        None \<Rightarrow> []
      | Some r \<Rightarrow> [createTraversalItem (ch_key r) (ch_level r) (ch_parentRef r) treeRef now])"

definition treePostOrderBreadthFirstSearch :: "'a tree \<Rightarrow> chained option \<Rightarrow> int \<Rightarrow> 'a item list" where
  "treePostOrderBreadthFirstSearch tree parentRef now =
     treePostOrderTraversal queue_push tree queue_new parentRef now"

definition treePostOrderDepthFirstSearch :: "'a tree \<Rightarrow> chained option \<Rightarrow> int \<Rightarrow> 'a item list" where
  "treePostOrderDepthFirstSearch tree parentRef now =
     treePostOrderTraversal array_push tree [] parentRef now"

section \<open>Orders, described recursively\<close>

lemma entry_kid_size [termination_simp]:
  "e' \<in> set (next_entries now e) \<Longrightarrow> size (fst e') < size (fst e)"
  by (auto simp: next_entries_def kid_size split: prod.splits)

text \<open>Depth first: an entry, then its children, last child first.\<close>

function dfs_items :: "int \<Rightarrow> 'a entry \<Rightarrow> 'a item list" where
  "dfs_items now e = fst (pre_visit now e) @ concat (map (dfs_items now) (rev (next_entries now e)))"
  by pat_completeness auto
termination
  by (relation "measure (\<lambda>(_, e). size (fst e))") (auto simp: entry_kid_size)

declare dfs_items.simps [simp del]

lemma entries_size: "sum_list (map (\<lambda>e. Suc (size (fst e))) (next_entries now e)) < size (fst e)"
  using kids_size [of "fst e"]
  by (auto simp: next_entries_def comp_def case_prod_unfold split: prod.splits)

text \<open>A queue of entries: visit the first, append its children.\<close>

function queue_items :: "int \<Rightarrow> 'a entry list \<Rightarrow> 'a item list" where
  "queue_items now [] = []"
| "queue_items now (e # es) = fst (pre_visit now e) @ queue_items now (es @ next_entries now e)"
  by pat_completeness auto
termination
proof (relation "measure (\<lambda>(_, es). sum_list (map (\<lambda>e. Suc (size (fst e))) es))")
  fix now and e :: "'a entry" and es
  show "((now, es @ next_entries now e), (now, e # es))
        \<in> measure (\<lambda>(_, es). sum_list (map (\<lambda>e. Suc (size (fst e))) es))"
    using entries_size [of now e] by simp
qed simp

text \<open>Breadth first: level by level.\<close>

function level_items :: "int \<Rightarrow> 'a entry list \<Rightarrow> 'a item list" where
  "level_items now es =
     (if es = [] then []
      else concat (map (fst \<circ> pre_visit now) es) @ level_items now (concat (map (next_entries now) es)))"
  by pat_completeness auto
termination
proof (relation "measure (\<lambda>(_, es). sum_list (map (\<lambda>e. Suc (size (fst e))) es))")
  fix now and es :: "'a entry list"
  assume "es \<noteq> []"
  then have "sum_list (map (\<lambda>e. Suc (size (fst e))) (concat (map (next_entries now) es)))
        < sum_list (map (\<lambda>e. Suc (size (fst e))) es)"
  proof (induction es)
    case (Cons e es)
    then show ?case using entries_size [of now e] by (cases "es = []") auto
  qed simp
  then show "((now, concat (map (next_entries now) es)), (now, es))
        \<in> measure (\<lambda>(_, es). sum_list (map (\<lambda>e. Suc (size (fst e))) es))"
    by simp
qed simp

declare level_items.simps [simp del]

lemma queue_items_level_step:
  "queue_items now (es @ fs)
   = concat (map (fst \<circ> pre_visit now) es) @ queue_items now (fs @ concat (map (next_entries now) es))"
  by (induction es arbitrary: fs) auto

lemma queue_items_level: "queue_items now es = level_items now es"
proof (induction now es rule: level_items.induct)
  case (1 now es)
  show ?case
  proof (cases "es = []")
    case False
    with 1 queue_items_level_step [of now es "[]"] show ?thesis
      by (simp add: level_items.simps [of now es])
  qed (simp add: level_items.simps)
qed

section \<open>The loop is correct for every lawful list structure\<close>

abbreviation entries_count :: "'a entry list \<Rightarrow> nat" where
  "entries_count es \<equiv> sum_list (map (\<lambda>e. node_count (fst e)) es)"

lemma entries_count_next: "node_count (fst e) = Suc (entries_count (next_entries now e))"
  by (cases e) (subst node_count.simps, simp add: next_entries_def comp_def case_prod_unfold)

context push_list
begin

lemma fold_push:
  "invar l \<Longrightarrow> invar (fold (sl_push ops) xs l) \<and> contents (fold (sl_push ops) xs l) = contents l @ xs"
  by (induction xs arbitrary: l) (auto simp: invar_push contents_push)

end

text \<open>
  A list structure used by the pre-order loop. For every lawful one the loop ends without error,
  having visited every entry exactly once; the order depends on the removal order.
\<close>

locale traversal_list = simple_list ops new contents invar
  for ops :: "('l, 'a entry) SimpleList" and new :: 'l
    and contents :: "'l \<Rightarrow> 'a entry list" and invar :: "'l \<Rightarrow> bool"
begin

lemma loop_visits_all:
  "invar l \<Longrightarrow> entries_count (contents l) < fuel \<Longrightarrow>
   \<exists>vs. preOrderLoop ops now fuel l out = (out @ vs, None)
      \<and> mset vs = mset (concat (map (dfs_items now) (contents l)))"
proof (induction fuel arbitrary: l out)
  case (Suc fuel)
  show ?case
  proof (cases "contents l = []")
    case True
    with Suc.prems show ?thesis by (simp add: length_contents)
  next
    case False
    from pop_some [OF Suc.prems(1) False] obtain e l'
      where pop: "sl_pop ops l = (Some e, l')" and inv: "invar l'"
        and ms: "mset (contents l) = add_mset e (mset (contents l'))" by blast
    let ?l = "fold (sl_push ops) (next_entries now e) l'"
    have l: "invar ?l" "contents ?l = contents l' @ next_entries now e"
      using fold_push [OF inv] by auto
    have "entries_count (contents l) = entries_count (contents l') + node_count (fst e)"
      using arg_cong [OF ms, of "\<lambda>m. sum_mset (image_mset (\<lambda>e. node_count (fst e)) m)"]
      by (simp add: sum_mset_sum_list [symmetric] del: sum_mset_sum_list)
    then have "entries_count (contents ?l) < fuel"
      using Suc.prems(2) entries_count_next [of e now] l by simp
    from Suc.IH [OF l(1) this, of "out @ fst (pre_visit now e)"] obtain vs
      where vs: "preOrderLoop ops now fuel ?l (out @ fst (pre_visit now e))
                   = (out @ fst (pre_visit now e) @ vs, None)"
        and m: "mset vs = mset (concat (map (dfs_items now) (contents ?l)))" by auto
    have "mset (concat (map (dfs_items now) (contents l)))
          = mset (dfs_items now e) + mset (concat (map (dfs_items now) (contents l')))"
      using arg_cong [OF ms, of "\<lambda>m. sum_mset (image_mset (\<lambda>e. mset (dfs_items now e)) m)"]
      by (simp add: mset_concat comp_def flip: sum_mset_sum_list)
    with vs m l pop False Suc.prems(1) show ?thesis
      by (auto simp: length_contents dfs_items.simps [of now e] mset_concat rev_map [symmetric]
          simp flip: sum_mset_sum_list)
  qed
qed simp

end

locale breadth_list = fifo_list ops new contents invar
  for ops :: "('l, 'a entry) SimpleList" and new :: 'l
    and contents :: "'l \<Rightarrow> 'a entry list" and invar :: "'l \<Rightarrow> bool"
begin

lemma loop_level_order:
  "invar l \<Longrightarrow> entries_count (contents l) < fuel \<Longrightarrow>
   preOrderLoop ops now fuel l out = (out @ level_items now (contents l), None)"
proof (induction fuel arbitrary: l out)
  case (Suc fuel)
  show ?case
  proof (cases "contents l")
    case Nil
    with Suc.prems show ?thesis by (simp add: length_contents level_items.simps)
  next
    case (Cons e es)
    from pop_first [OF Suc.prems(1) Cons] obtain l'
      where pop: "sl_pop ops l = (Some e, l')" and inv: "invar l'" and es: "contents l' = es" by blast
    let ?l = "fold (sl_push ops) (next_entries now e) l'"
    have l: "invar ?l" "contents ?l = es @ next_entries now e"
      using fold_push [OF inv] es by auto
    then have "entries_count (contents ?l) < fuel"
      using Suc.prems(2) entries_count_next [of e now] Cons by simp
    from Suc.IH [OF l(1) this] l pop Cons Suc.prems(1) show ?thesis
      by (simp add: length_contents flip: queue_items_level)
  qed
qed simp

end

locale depth_list = lifo_list ops new contents invar
  for ops :: "('l, 'a entry) SimpleList" and new :: 'l
    and contents :: "'l \<Rightarrow> 'a entry list" and invar :: "'l \<Rightarrow> bool"
begin

lemma loop_depth_order:
  "invar l \<Longrightarrow> entries_count (contents l) < fuel \<Longrightarrow>
   preOrderLoop ops now fuel l out = (out @ concat (map (dfs_items now) (rev (contents l))), None)"
proof (induction fuel arbitrary: l out)
  case (Suc fuel)
  show ?case
  proof (cases "contents l" rule: rev_cases)
    case Nil
    with Suc.prems show ?thesis by (simp add: length_contents)
  next
    case (snoc es e)
    from pop_last [OF Suc.prems(1) snoc] obtain l'
      where pop: "sl_pop ops l = (Some e, l')" and inv: "invar l'" and es: "contents l' = es" by blast
    let ?l = "fold (sl_push ops) (next_entries now e) l'"
    have l: "invar ?l" "contents ?l = es @ next_entries now e"
      using fold_push [OF inv] es by auto
    then have "entries_count (contents ?l) < fuel"
      using Suc.prems(2) entries_count_next [of e now] snoc by simp
    from Suc.IH [OF l(1) this] l pop snoc Suc.prems(1) show ?thesis
      by (simp add: length_contents dfs_items.simps [of now e])
  qed
qed simp

end

interpretation bfs_queue: breadth_list queue_ops queue_new queue_contents queue_invar ..

interpretation bfs_queue_visits: traversal_list queue_ops queue_new queue_contents queue_invar ..

interpretation dfs_array: depth_list array_ops "[]" "\<lambda>xs. xs" "\<lambda>_. True" ..

interpretation dfs_array_visits: traversal_list array_ops "[]" "\<lambda>xs. xs" "\<lambda>_. True" ..

section \<open>The nodes of a tree\<close>

text \<open>The proper descendants of a tree, each with its path below the given prefix.\<close>

fun nodes :: "path \<Rightarrow> 'a tree \<Rightarrow> (path \<times> 'a tree) list" where
  "nodes pfx t = concat (map (\<lambda>(k, u). (pfx @ [k], u) # nodes (pfx @ [k]) u) (kids t))"

declare nodes.simps [simp del]

lemma tree_lookup_Cons_kids:
  "wf_tree t \<Longrightarrow> tree_lookup t (k # ks) = Some v \<longleftrightarrow> (\<exists>u. (k, u) \<in> set (kids t) \<and> tree_lookup u ks = Some v)"
  by (auto simp flip: tree_child_Some_iff split: option.splits)

lemma prefix_cases:
  "(x = (pfx @ [k], u) \<or> (\<exists>q v. x = (pfx @ k # q, v) \<and> q \<noteq> [] \<and> tree_lookup u q = Some v))
   = (\<exists>q v. x = (pfx @ k # q, v) \<and> tree_lookup u q = Some v)"
  by (metis option.inject tree_lookup.simps(1))

lemma set_nodes:
  "wf_tree t \<Longrightarrow> set (nodes pfx t) = {(pfx @ q, u) | q u. q \<noteq> [] \<and> tree_lookup t q = Some u}"
proof (induction t arbitrary: pfx rule: tree_kids_induct)
  case (Tree t)
  have "x \<in> set (nodes pfx t) \<longleftrightarrow> x \<in> {(pfx @ q, u) | q u. q \<noteq> [] \<and> tree_lookup t q = Some u}" for x
  proof -
    have "x \<in> set (nodes pfx t) \<longleftrightarrow>
        (\<exists>(k, u) \<in> set (kids t). x = (pfx @ [k], u) \<or> x \<in> set (nodes (pfx @ [k]) u))"
      by (subst nodes.simps) auto
    also have "\<dots> \<longleftrightarrow> (\<exists>(k, u) \<in> set (kids t). \<exists>q v. x = (pfx @ k # q, v) \<and> tree_lookup u q = Some v)"
    proof (intro bex_cong refl, clarify)
      fix k u assume ku: "(k, u) \<in> set (kids t)"
      have "x \<in> set (nodes (pfx @ [k]) u)
          \<longleftrightarrow> (\<exists>q v. x = (pfx @ k # q, v) \<and> q \<noteq> [] \<and> tree_lookup u q = Some v)"
        using Tree.IH [OF ku wf_kid [OF Tree.prems ku], of "pfx @ [k]"] by auto
      then show "(x = (pfx @ [k], u) \<or> x \<in> set (nodes (pfx @ [k]) u))
          = (\<exists>q v. x = (pfx @ k # q, v) \<and> tree_lookup u q = Some v)"
        by (simp only: prefix_cases)
    qed
    also have "\<dots> \<longleftrightarrow> x \<in> {(pfx @ q, u) | q u. q \<noteq> [] \<and> tree_lookup t q = Some u}"
      using tree_lookup_Cons_kids [OF Tree.prems] by (fastforce simp: neq_Nil_conv)
    finally show ?thesis .
  qed
  then show ?case by blast
qed

lemma distinct_nodes: "wf_tree t \<Longrightarrow> distinct (map fst (nodes pfx t))"
proof (induction t arbitrary: pfx rule: tree_kids_induct)
  case (Tree t)
  let ?f = "\<lambda>(k, u). (pfx @ [k], u) # nodes (pfx @ [k]) u"
  have below: "\<exists>q. p = pfx @ k # q" if "(k, u) \<in> set (kids t)" "p \<in> fst ` set (?f (k, u))" for p k u
    using that set_nodes [OF wf_kid [OF Tree.prems that(1)], of "pfx @ [k]"] by auto
  have single: "distinct (map fst (?f (k, u)))" if ku: "(k, u) \<in> set (kids t)" for k u
  proof -
    have "(pfx @ [k], v) \<notin> set (nodes (pfx @ [k]) u)" for v
      using set_nodes [OF wf_kid [OF Tree.prems ku], of "pfx @ [k]"] by auto
    then show ?thesis
      using Tree.IH [OF ku wf_kid [OF Tree.prems ku]] by force
  qed
  have "distinct (map fst (concat (map ?f ks)))"
    if "set ks \<subseteq> set (kids t)" "distinct (map fst ks)" for ks
    using that
  proof (induction ks)
    case (Cons c ks)
    obtain k u where c: "c = (k, u)" by force
    have "fst ` set (?f c) \<inter> fst ` set (concat (map ?f ks)) = {}"
    proof (rule equals0I)
      fix p assume p: "p \<in> fst ` set (?f c) \<inter> fst ` set (concat (map ?f ks))"
      then obtain k' u' where k': "(k', u') \<in> set ks" "p \<in> fst ` set (?f (k', u'))" by auto
      from p Cons.prems(1) c have "\<exists>q. p = pfx @ k # q" using below [of k u p] by auto
      moreover from k' Cons.prems(1) have "\<exists>q. p = pfx @ k' # q" using below [of k' u' p] by auto
      ultimately have "k = k'" by auto
      with Cons.prems(2) c k'(1) show False by force
    qed
    with Cons c single [of k u] show ?case by (simp add: image_Un)
  qed simp
  from this [OF subset_refl distinct_kids [OF Tree.prems]] show ?case
    by (simp add: nodes.simps [of pfx t])
qed

section \<open>What the traversals yield\<close>

definition item_node :: "'a item \<Rightarrow> path \<times> 'a tree" where
  "item_node i = (chain_path (item_ref i), it_tree i)"

lemma item_node_create [simp]:
  "item_node (createTraversalItem k l p t now) = (opt_path p @ [k], t)"
  by (simp add: item_node_def)

lemma dfs_items_nodes:
  "mset (map item_node (dfs_items now (t, l, key, p))) =
     (case key of None \<Rightarrow> mset (nodes (opt_path p) t)
      | Some k \<Rightarrow> add_mset (opt_path p @ [k], t) (mset (nodes (opt_path p @ [k]) t)))"
proof (induction t arbitrary: l key p rule: tree_kids_induct)
  case (Tree t)
  let ?e = "(t, l, key, p)"
  let ?q = "snd (pre_visit now ?e)"
  have path: "opt_path ?q = opt_path p @ (case key of None \<Rightarrow> [] | Some k \<Rightarrow> [k])"
    by (auto simp: pre_visit_def Let_def split: option.splits)
  have "map (\<lambda>(k, u). mset (map item_node (dfs_items now (u, Suc l, Some k, ?q)))) (kids t)
        = map (\<lambda>(k, u). mset ((opt_path ?q @ [k], u) # nodes (opt_path ?q @ [k]) u)) (kids t)"
  proof (rule map_cong [OF refl], clarify)
    fix k u assume "(k, u) \<in> set (kids t)"
    from Tree.IH [OF this, of "Suc l" "Some k" ?q]
    show "mset (map item_node (dfs_items now (u, Suc l, Some k, ?q)))
        = mset ((opt_path ?q @ [k], u) # nodes (opt_path ?q @ [k]) u)" by simp
  qed
  then have "mset (map item_node (concat (map (dfs_items now) (next_entries now ?e))))
        = mset (nodes (opt_path ?q) t)"
    by (simp add: next_entries_def nodes.simps [of _ t] mset_concat map_concat comp_def
        case_prod_unfold cong: map_cong)
  moreover have "map item_node (fst (pre_visit now ?e))
        = (case key of None \<Rightarrow> [] | Some k \<Rightarrow> [(opt_path p @ [k], t)])"
    by (auto simp: pre_visit_def Let_def split: option.splits)
  ultimately show ?case
    by (auto simp: dfs_items.simps [of now ?e] mset_concat map_concat path rev_map [symmetric]
        split: option.splits)
qed

text \<open>The start item that is yielded for the node a traversal starts from.\<close>

abbreviation start_items :: "chained option \<Rightarrow> 'a tree \<Rightarrow> int \<Rightarrow> 'a item list" where
  "start_items p t now \<equiv> (case p of None \<Rightarrow> []
     | Some r \<Rightarrow> [createTraversalItem (ch_key r) (ch_level r) (ch_parentRef r) t now])"

abbreviation start_entry :: "chained option \<Rightarrow> 'a tree \<Rightarrow> 'a entry" where
  "start_entry p t \<equiv> (t, (case p of None \<Rightarrow> 0 | Some r \<Rightarrow> ch_level r), None, p)"

lemma bfs_order:
  "treePreOrderBreadthFirstSearch t p now = (start_items p t now @ level_items now [start_entry p t], None)"
  unfolding treePreOrderBreadthFirstSearch_def treePreOrderTraversal_def
  by (subst bfs_queue.loop_level_order)
    (simp_all add: queue_list.invar_push queue_list.invar_new queue_list.contents_push
      queue_list.contents_new)

lemma dfs_order:
  "treePreOrderDepthFirstSearch t p now = (start_items p t now @ dfs_items now (start_entry p t), None)"
  unfolding treePreOrderDepthFirstSearch_def treePreOrderTraversal_def
  by (subst dfs_array.loop_depth_order) (simp_all add: array_stack.contents_push)

lemma bfs_same_visits:
  "mset (level_items now [start_entry p t]) = mset (dfs_items now (start_entry p t))"
proof -
  let ?l = "sl_push queue_ops (start_entry p t) queue_new"
  have l: "queue_invar ?l" "queue_contents ?l = [start_entry p t]"
    by (simp_all add: queue_list.invar_push queue_list.invar_new queue_list.contents_push
        queue_list.contents_new)
  have f: "entries_count (queue_contents ?l) < Suc (node_count t)" using l by simp
  from bfs_queue_visits.loop_visits_all [OF l(1) f, of now "[]"]
    bfs_queue.loop_level_order [OF l(1) f, of now "[]"] l(2)
  show ?thesis by auto
qed

text \<open>All traversals visit the nodes of \<^const>\<open>nodes\<close>, and the start node where there is one.\<close>

abbreviation visited :: "chained option \<Rightarrow> 'a tree \<Rightarrow> (path \<times> 'a tree) multiset" where
  "visited p t \<equiv> mset (case p of None \<Rightarrow> [] | Some r \<Rightarrow> [(chain_path r, t)]) + mset (nodes (opt_path p) t)"

lemma start_items_node: "map item_node (start_items p t now) = (case p of None \<Rightarrow> [] | Some r \<Rightarrow> [(chain_path r, t)])"
  by (auto simp: chain_path_eq [symmetric] split: option.splits)

lemma mset_start_items:
  "image_mset item_node (mset (start_items p t now)) = mset (case p of None \<Rightarrow> [] | Some r \<Rightarrow> [(chain_path r, t)])"
  by (cases p) (simp_all add: chain_path_eq [symmetric])

lemma dfs_start_nodes: "image_mset item_node (mset (dfs_items now (start_entry p t))) = mset (nodes (opt_path p) t)"
  using dfs_items_nodes [of now t _ None p] by simp

lemma bfs_visits: "mset (map item_node (fst (treePreOrderBreadthFirstSearch t p now))) = visited p t"
  by (simp add: bfs_order mset_start_items bfs_same_visits dfs_start_nodes)

lemma dfs_visits: "mset (map item_node (fst (treePreOrderDepthFirstSearch t p now))) = visited p t"
  by (simp add: dfs_order mset_start_items dfs_start_nodes)

text \<open>What \<^const>\<open>visited\<close> means: every path that leads to a node, once.\<close>

lemma visited_paths:
  assumes "wf_tree t" "mset (map item_node items) = visited p t"
  shows "set (map item_node items)
           = {(opt_path p @ q, u) | q u. (q \<noteq> [] \<or> p \<noteq> None) \<and> tree_lookup t q = Some u}"
    and "distinct (map (chain_path \<circ> item_ref) items)"
proof -
  have "set (map item_node items) = set_mset (visited p t)"
    using assms(2) by (metis set_mset_mset)
  also have "\<dots> = {(opt_path p @ q, u) | q u. (q \<noteq> [] \<or> p \<noteq> None) \<and> tree_lookup t q = Some u}"
    using set_nodes [OF assms(1), of "opt_path p"] by (auto split: option.splits)
  finally show "set (map item_node items)
      = {(opt_path p @ q, u) | q u. (q \<noteq> [] \<or> p \<noteq> None) \<and> tree_lookup t q = Some u}" .
  have "mset (map (chain_path \<circ> item_ref) items) = image_mset fst (visited p t)"
    using arg_cong [OF assms(2), of "image_mset fst"]
    by (simp add: item_node_def comp_def image_mset.compositionality)
  also have "\<dots> = mset (map fst ((case p of None \<Rightarrow> [] | Some r \<Rightarrow> [(chain_path r, t)]) @ nodes (opt_path p) t))"
    by simp
  finally have "distinct (map (chain_path \<circ> item_ref) items)
      = distinct (map fst ((case p of None \<Rightarrow> [] | Some r \<Rightarrow> [(chain_path r, t)]) @ nodes (opt_path p) t))"
    by (rule mset_eq_imp_distinct_iff)
  also have "\<dots>"
    using distinct_nodes [OF assms(1), of "opt_path p"] set_nodes [OF assms(1), of "opt_path p"]
    by (auto split: option.splits)
  finally show "distinct (map (chain_path \<circ> item_ref) items)" .
qed

section \<open>Breadth first means level by level\<close>

lemma level_items_sorted:
  "(\<And>e. e \<in> set es \<Longrightarrow> fst (snd e) = l) \<Longrightarrow>
   sorted (map it_level (level_items now es)) \<and> (\<forall>i \<in> set (level_items now es). l \<le> it_level i)"
proof (induction now es arbitrary: l rule: level_items.induct)
  case (1 now es)
  let ?v = "concat (map (fst \<circ> pre_visit now) es)"
  show ?case
  proof (cases "es = []")
    case False
    have "fst (snd e) = Suc l" if "e \<in> set (concat (map (next_entries now) es))" for e
      using that 1(2) by (fastforce simp: next_entries_def split: prod.splits)
    then have rest: "sorted (map it_level (level_items now (concat (map (next_entries now) es))))
        \<and> (\<forall>i \<in> set (level_items now (concat (map (next_entries now) es))). Suc l \<le> it_level i)"
      using 1(1) [OF False] by blast
    have here: "it_level i = l" if "i \<in> set ?v" for i
      using that 1(2) by (fastforce simp: pre_visit_def Let_def split: option.splits)
    then have "map it_level ?v = replicate (length ?v) l"
      by (simp add: map_replicate_const [symmetric] cong: map_cong)
    then have "sorted (map it_level ?v)" by simp
    with rest here show ?thesis
      by (subst (1 2) level_items.simps) (auto simp: sorted_append False)
  qed (simp add: level_items.simps)
qed

section \<open>Post-order\<close>

text \<open>The children of a node before the node itself.\<close>

function post_items :: "int \<Rightarrow> chained option \<Rightarrow> key \<Rightarrow> 'a tree \<Rightarrow> 'a item list" where
  "post_items now p k t =
     (let i = createTraversalItem k ((case p of None \<Rightarrow> 0 | Some r \<Rightarrow> ch_level r) + 1) p t now
      in concat (map (\<lambda>(k', u). post_items now (Some (item_ref i)) k' u) (kids t)) @ [i])"
  by pat_completeness auto
termination
  by (relation "measure (\<lambda>(_, _, _, t). size t)") (auto simp: kid_size)

declare post_items.simps [simp del]

lemma post_traversal_items:
  shows "fst (treePostOrderTraversalRecursive push now t list p key) =
     (case key of None \<Rightarrow> concat (map (\<lambda>(k, u). post_items now p k u) (kids t))
      | Some k \<Rightarrow> post_items now p k t)"
    and "fst (post_children push now ks list nd ref) = concat (map (\<lambda>(k, u). post_items now ref k u) ks)"
proof (induction push now t list p key and push now ks list nd ref
    rule: treePostOrderTraversalRecursive_post_children.induct)
  case (1 push now treeRef list parentRef key)
  then show ?case
    by (cases key) (simp_all add: Let_def case_prod_unfold post_items.simps [of _ _ _ treeRef])
next
  case (3 push now nextKey nextTree siblings list nd ref)
  then show ?case by (simp add: Let_def case_prod_unfold)
qed simp

lemma post_order:
  "treePostOrderTraversal push t list p now
   = concat (map (\<lambda>(k, u). post_items now p k u) (kids t)) @ start_items p t now"
  by (simp add: treePostOrderTraversal_def post_traversal_items)

lemma post_items_nodes:
  "mset (map item_node (post_items now p k t))
   = add_mset (opt_path p @ [k], t) (mset (nodes (opt_path p @ [k]) t))"
proof (induction t arbitrary: p k rule: tree_kids_induct)
  case (Tree t)
  let ?i = "createTraversalItem k ((case p of None \<Rightarrow> 0 | Some r \<Rightarrow> ch_level r) + 1) p t now"
  have "map (\<lambda>(k', u). mset (map item_node (post_items now (Some (item_ref ?i)) k' u))) (kids t)
        = map (\<lambda>(k', u). mset ((opt_path p @ [k] @ [k'], u) # nodes (opt_path p @ [k] @ [k']) u)) (kids t)"
  proof (rule map_cong [OF refl], clarify)
    fix k' u assume "(k', u) \<in> set (kids t)"
    from Tree.IH [OF this, of "Some (item_ref ?i)" k']
    show "mset (map item_node (post_items now (Some (item_ref ?i)) k' u))
        = mset ((opt_path p @ [k] @ [k'], u) # nodes (opt_path p @ [k] @ [k']) u)" by simp
  qed
  then show ?case
    by (simp add: post_items.simps [of now p k t] nodes.simps [of _ t] Let_def mset_concat map_concat
        comp_def case_prod_unfold cong: map_cong)
qed

lemma post_visits: "mset (map item_node (treePostOrderTraversal push t list p now)) = visited p t"
proof -
  have "mset (map item_node (concat (map (\<lambda>(k, u). post_items now p k u) (kids t))))
        = mset (nodes (opt_path p) t)"
    by (simp add: post_items_nodes [unfolded mset_map] nodes.simps [of _ t] mset_concat map_concat
        comp_def case_prod_unfold)
  then show ?thesis
    by (simp add: post_order mset_start_items)
qed

section \<open>Ancestors and descendants\<close>

abbreviation item_path :: "'a item \<Rightarrow> path" where
  "item_path i \<equiv> chain_path (item_ref i)"

text \<open>The second item is a proper descendant of the first.\<close>

definition below :: "'a item \<Rightarrow> 'a item \<Rightarrow> bool" where
  "below i j \<longleftrightarrow> (\<exists>r. r \<noteq> [] \<and> item_path j = item_path i @ r)"

lemma below_diverging:
  "item_path i = p @ k # r \<Longrightarrow> item_path j = p @ l # s \<Longrightarrow> k \<noteq> l \<Longrightarrow> \<not> below i j \<and> \<not> below j i"
  by (auto simp: below_def)

lemma below_shorter: "length (item_path j) \<le> length (item_path i) \<Longrightarrow> \<not> below i j"
  by (auto simp: below_def)

lemma sorted_wrt_concat:
  "(\<And>x. x \<in> set ks \<Longrightarrow> sorted_wrt R (f x)) \<Longrightarrow>
   sorted_wrt (\<lambda>x y. \<forall>i \<in> set (f x). \<forall>j \<in> set (f y). R i j) ks \<Longrightarrow> sorted_wrt R (concat (map f ks))"
  by (induction ks) (auto simp: sorted_wrt_append)

lemma distinct_sorted: "distinct (map fst ks) \<Longrightarrow> sorted_wrt (\<lambda>x y. fst x \<noteq> fst y) ks"
  by (induction ks) auto

text \<open>Blocks of items for different children can stand in any order.\<close>

lemma sorted_wrt_blocks:
  assumes "distinct (map fst ks)" "\<And>k u. (k, u) \<in> set ks \<Longrightarrow> sorted_wrt R (f (k, u))"
    "\<And>k u i. (k, u) \<in> set ks \<Longrightarrow> i \<in> set (f (k, u)) \<Longrightarrow> \<exists>r. item_path i = p @ k # r"
    "\<And>i j. \<not> below i j \<Longrightarrow> \<not> below j i \<Longrightarrow> R i j"
  shows "sorted_wrt R (concat (map f ks))"
proof (rule sorted_wrt_concat)
  show "sorted_wrt R (f x)" if "x \<in> set ks" for x
    using that assms(2) [of "fst x" "snd x"] by simp
  show "sorted_wrt (\<lambda>x y. \<forall>i \<in> set (f x). \<forall>j \<in> set (f y). R i j) ks"
  proof (rule sorted_wrt_mono_rel [OF _ distinct_sorted [OF assms(1)]])
    fix x y assume xy: "x \<in> set ks" "y \<in> set ks" "fst x \<noteq> fst y"
    obtain k u l v where kl: "x = (k, u)" "y = (l, v)" by (cases x; cases y)
    show "\<forall>i \<in> set (f x). \<forall>j \<in> set (f y). R i j"
    proof (intro ballI)
      fix i j assume "i \<in> set (f x)" "j \<in> set (f y)"
      with assms(3) xy kl obtain r s where "item_path i = p @ k # r" "item_path j = p @ l # s" by metis
      with below_diverging [of i p k r j l s] assms(4) xy kl show "R i j" by auto
    qed
  qed
qed

lemma post_items_path: "i \<in> set (post_items now p k t) \<Longrightarrow> \<exists>r. item_path i = opt_path p @ k # r"
proof (induction t arbitrary: p k rule: tree_kids_induct)
  case (Tree t)
  then show ?case
    by (subst (asm) post_items.simps) (fastforce simp: Let_def)
qed

lemma post_items_order: "wf_tree t \<Longrightarrow> sorted_wrt (\<lambda>i j. \<not> below i j) (post_items now p k t)"
proof (induction t arbitrary: p k rule: tree_kids_induct)
  case (Tree t)
  let ?i = "createTraversalItem k ((case p of None \<Rightarrow> 0 | Some r \<Rightarrow> ch_level r) + 1) p t now"
  let ?kids = "concat (map (\<lambda>(k', u). post_items now (Some (item_ref ?i)) k' u) (kids t))"
  have "sorted_wrt (\<lambda>i j. \<not> below i j) ?kids"
  proof (rule sorted_wrt_blocks [where p = "item_path ?i"])
    show "distinct (map fst (kids t))" using distinct_kids Tree.prems .
    fix k' u assume ku: "(k', u) \<in> set (kids t)"
    show "sorted_wrt (\<lambda>i j. \<not> below i j) (case (k', u) of (k', u) \<Rightarrow> post_items now (Some (item_ref ?i)) k' u)"
      using Tree.IH [OF ku wf_kid [OF Tree.prems ku]] by simp
    show "\<exists>r. item_path j = item_path ?i @ k' # r"
      if "j \<in> set (case (k', u) of (k', u) \<Rightarrow> post_items now (Some (item_ref ?i)) k' u)" for j
      using post_items_path [of j now "Some (item_ref ?i)"] that by simp
  qed
  moreover have "\<not> below j ?i" if "j \<in> set ?kids" for j
    using that post_items_path [of j now "Some (item_ref ?i)"]
    by (intro below_shorter) (fastforce split: prod.splits)
  ultimately show ?case
    by (subst post_items.simps) (auto simp: Let_def sorted_wrt_append)
qed

lemma post_order_sorted:
  assumes "wf_tree t"
  shows "sorted_wrt (\<lambda>i j. \<not> below i j) (treePostOrderTraversal push t list p now)"
proof -
  let ?kids = "concat (map (\<lambda>(k, u). post_items now p k u) (kids t))"
  have "sorted_wrt (\<lambda>i j. \<not> below i j) ?kids"
    using assms post_items_path [of _ now p]
    by (intro sorted_wrt_blocks [where p = "opt_path p"] distinct_kids) (auto intro: wf_kid post_items_order)
  moreover have "\<not> below j i" if j: "j \<in> set ?kids" and i: "i \<in> set (start_items p t now)" for i j
  proof -
    obtain r where r: "p = Some r" "i = createTraversalItem (ch_key r) (ch_level r) (ch_parentRef r) t now"
      using i by (cases p) auto
    from j obtain k u where "j \<in> set (post_items now p k u)" by auto
    with post_items_path obtain s where "item_path j = chain_path r @ k # s" using r by fastforce
    with r show ?thesis by (intro below_shorter) (simp add: chain_path_eq [of r])
  qed
  ultimately show ?thesis
    by (auto simp: post_order sorted_wrt_append split: option.splits)
qed

lemma dfs_items_path:
  "i \<in> set (dfs_items now (t, l, Some k, p)) \<Longrightarrow> \<exists>r. item_path i = opt_path p @ k # r"
proof (induction t arbitrary: l k p rule: tree_kids_induct)
  case (Tree t)
  then show ?case
    by (subst (asm) dfs_items.simps) (fastforce simp: pre_visit_def next_entries_def Let_def)
qed

lemma dfs_kids_order:
  assumes "wf_tree t" "\<And>k u l p. (k, u) \<in> set (kids t) \<Longrightarrow> sorted_wrt (\<lambda>i j. \<not> below j i) (dfs_items now (u, l, Some k, p))"
  shows "sorted_wrt (\<lambda>i j. \<not> below j i) (concat (map (\<lambda>(k, u). dfs_items now (u, l, Some k, p)) (rev (kids t))))"
  using assms dfs_items_path [of _ now _ l _ p]
  by (intro sorted_wrt_blocks [where p = "opt_path p"])
    (auto simp: rev_map [symmetric] intro: distinct_kids)

lemma dfs_items_order: "wf_tree t \<Longrightarrow> sorted_wrt (\<lambda>i j. \<not> below j i) (dfs_items now (t, l, Some k, p))"
proof (induction t arbitrary: l k p rule: tree_kids_induct)
  case (Tree t)
  let ?i = "createTraversalItem k l p t now"
  let ?kids = "concat (map (\<lambda>(k', u). dfs_items now (u, Suc l, Some k', Some (item_ref ?i))) (rev (kids t)))"
  have e: "dfs_items now (t, l, Some k, p) = ?i # ?kids"
    by (subst dfs_items.simps) (simp add: pre_visit_def next_entries_def Let_def rev_map comp_def case_prod_unfold)
  have "sorted_wrt (\<lambda>i j. \<not> below j i) ?kids"
    using Tree.IH wf_kid [OF Tree.prems] by (intro dfs_kids_order [OF Tree.prems]) blast
  moreover have "\<not> below j ?i" if "j \<in> set ?kids" for j
    using that dfs_items_path [of j now _ "Suc l" _ "Some (item_ref ?i)"]
    by (intro below_shorter) (fastforce split: prod.splits)
  ultimately show ?case unfolding e by simp
qed

lemma dfs_order_sorted:
  assumes "wf_tree t"
  shows "sorted_wrt (\<lambda>i j. \<not> below j i) (fst (treePreOrderDepthFirstSearch t p now))"
proof -
  let ?l = "case p of None \<Rightarrow> 0 | Some r \<Rightarrow> ch_level r"
  let ?kids = "concat (map (\<lambda>(k, u). dfs_items now (u, Suc ?l, Some k, p)) (rev (kids t)))"
  have e: "dfs_items now (start_entry p t) = ?kids"
    by (subst dfs_items.simps) (simp add: pre_visit_def next_entries_def Let_def rev_map comp_def case_prod_unfold)
  have "sorted_wrt (\<lambda>i j. \<not> below j i) ?kids"
    using assms by (intro dfs_kids_order) (auto intro: wf_kid dfs_items_order)
  moreover have "\<not> below j i" if j: "j \<in> set ?kids" and i: "i \<in> set (start_items p t now)" for i j
  proof -
    obtain r where r: "p = Some r" "i = createTraversalItem (ch_key r) (ch_level r) (ch_parentRef r) t now"
      using i by (cases p) auto
    from j obtain k u where "j \<in> set (dfs_items now (u, Suc ?l, Some k, p))" by auto
    with dfs_items_path obtain s where "item_path j = chain_path r @ k # s" using r by fastforce
    with r show ?thesis by (intro below_shorter) (simp add: chain_path_eq [of r])
  qed
  ultimately show ?thesis
    unfolding dfs_order e fst_conv by (auto simp: sorted_wrt_append split: option.splits)
qed

lemma bfs_order_sorted: "sorted (map it_level (fst (treePreOrderBreadthFirstSearch t p now)))"
  using level_items_sorted [of "[start_entry p t]" "case p of None \<Rightarrow> 0 | Some r \<Rightarrow> ch_level r" now]
  by (auto simp: bfs_order split: option.splits)

end
