(* ===== verification/Cache_Internal.thy ===== *)
theory Cache_Internal
  imports Cache_Storage Cache_Traversals
begin

text \<open>
  The class \<open>TreeInternalControl\<close> (\<open>src/internal/tree-internal-control.ts\<close>) with its helpers
  \<open>getReadStorageFunction\<close>, \<open>getMemoized\<close> and \<open>MultiTreeRef\<close>: deserialization with its error
  events, memoized reads, the node lookup \<open>getNodeRef\<close> and the persistence primitives.
  Every method takes the cache and the world and returns its result, an error where the source
  throws, together with the new world. Promises are awaited where they are created.
\<close>

section \<open>Results of methods\<close>

type_synonym ('x, 'w) result = "(error + 'x) \<times> 'w"

definition and_then :: "('e + 'x) \<times> 'w \<Rightarrow> ('x \<Rightarrow> 'w \<Rightarrow> ('e + 'y) \<times> 'w) \<Rightarrow> ('e + 'y) \<times> 'w" where
  "and_then r f = (case r of (Inl e, w) \<Rightarrow> (Inl e, w) | (Inr x, w) \<Rightarrow> f x w)"

lemma and_then_simps [simp]:
  "and_then (Inr x, w) f = f x w" "and_then (Inl e, w) f = (Inl e, w)"
  by (simp_all add: and_then_def)

lemma and_then_cong [fundef_cong]:
  "r = r' \<Longrightarrow> (\<And>x w. r' = (Inr x, w) \<Longrightarrow> f x w = f' x w) \<Longrightarrow> and_then r f = and_then r' f'"
  by (auto simp: and_then_def split: prod.splits sum.splits)

section \<open>Values read from the storage\<close>

text \<open>What \<open>readStorage\<close> returns: the value of \<open>get\<close>, or the history where there is one.\<close>

datatype buffer = Buffer "rvalue option" | History "rvalue option list"

datatype serializedValue = AsyncList "rvalue option list" | TreeValue "rvalue tree_value"

definition getReadStorageFunction :: "'s storage \<Rightarrow> 's \<Rightarrow> key \<Rightarrow> buffer" where
  "getReadStorageFunction storage s k =
     (case st_getHistory storage of
        Some getHistory \<Rightarrow> History (getHistory s k)
      | None \<Rightarrow> Buffer (st_get storage s k))"

definition readStorage :: "('v, 's, 'm) cache \<Rightarrow> key \<Rightarrow> ('s, 'm) world \<Rightarrow> buffer" where
  "readStorage c k w = getReadStorageFunction (c_storage c) (w_store w) k"

section \<open>Deserialization\<close>

definition deserializeAsyncList ::
  "('v, 's, 'm) cache \<Rightarrow> rvalue option list \<Rightarrow> ('s, 'm) world \<Rightarrow> ('v option, ('s, 'm) world) result" where
  "deserializeAsyncList c serializedList w =
     (case vs_deserializeAsyncList (vser c) of
        None \<Rightarrow> (Inl NoDeserializeAsyncList, w)
      | Some f \<Rightarrow>
          (case f serializedList of
             Inl e \<Rightarrow> (Inr None, emit (DeserializeError e ValueKind) w)
           | Inr v \<Rightarrow> (Inr v, w)))"

definition deserializeList ::
  "('v, 's, 'm) cache \<Rightarrow> rvalue list \<Rightarrow> ('s, 'm) world \<Rightarrow> ('v option, ('s, 'm) world) result" where
  "deserializeList c serialized w =
     (case vs_deserializeList (vser c) of
        None \<Rightarrow> (Inl NoDeserializeList, w)
      | Some f \<Rightarrow>
          (case f serialized of
             Inl e \<Rightarrow> (Inr None, emit (DeserializeError e ValueKind) w)
           | Inr v \<Rightarrow> (Inr v, w)))"

fun deserializeValue ::
  "('v, 's, 'm) cache \<Rightarrow> serializedValue \<Rightarrow> ('s, 'm) world \<Rightarrow> ('v option, ('s, 'm) world) result" where
  "deserializeValue c (AsyncList l) w = deserializeAsyncList c l w"
| "deserializeValue c (TreeValue (MultiTreeValue l)) w = deserializeList c l w"
| "deserializeValue c (TreeValue (Single r)) w =
     (case vs_deserialize (vser c) r of
        Inl e \<Rightarrow> (Inr None, emit (DeserializeError e ValueKind) w)
      | Inr v \<Rightarrow> (Inr v, w))"

definition mountStep :: "chained \<Rightarrow> 'v option \<Rightarrow> 'v step" where
  "mountStep nodeRef v =
     \<lparr>step_key = ch_key nodeRef, step_value = v, step_level = ch_level nodeRef, step_nodeRef = nodeRef\<rparr>"

definition getStep ::
  "('v, 's, 'm) cache \<Rightarrow> serializedValue option \<Rightarrow> chained \<Rightarrow> (chained \<Rightarrow> 'v option) option
   \<Rightarrow> ('s, 'm) world \<Rightarrow> ('v step, ('s, 'm) world) result" where
  "getStep c serialized nodeRef createValue w =
     (case serialized of
        None \<Rightarrow> (Inr (mountStep nodeRef (Option.bind createValue (\<lambda>f. f nodeRef))), w)
      | Some sv \<Rightarrow> and_then (deserializeValue c sv w) (\<lambda>v w. (Inr (mountStep nodeRef v), w)))"

definition deserializeTree ::
  "('v, 's, 'm) cache \<Rightarrow> rvalue \<Rightarrow> ('s, 'm) world \<Rightarrow> rvalue tree option \<times> ('s, 'm) world" where
  "deserializeTree c serializedTree w =
     (case ts_deserialize (tser c) serializedTree of
        Inl e \<Rightarrow> (None, emit (DeserializeError e TreeKind) w)
      | Inr t \<Rightarrow> (Some t, w))"

section \<open>Trees with history\<close>

definition getMultiTreeValueFromTrees :: "rvalue tree list \<Rightarrow> int \<Rightarrow> rvalue list" where
  "getMultiTreeValueFromTrees trees now =
     filter_truthy (map (\<lambda>t. getTreeCurrentSerializedValue t now) trees)"

text \<open>
  \<open>MultiTreeRef\<close>: the value of the node from all trees, and per key the node of all children of
  that key. The children are computed on demand in the source; here the whole tree is built, to
  the given depth.
\<close>

fun multiTreeRef ::
  "((key \<times> rvalue tree list) list \<Rightarrow> (key \<times> rvalue tree list) list) \<Rightarrow> nat \<Rightarrow> rvalue tree list
   \<Rightarrow> int \<Rightarrow> rvalue list tree" where
  "multiTreeRef dist 0 trees now = Tree (Some (getMultiTreeValueFromTrees trees now)) None None"
| "multiTreeRef dist (Suc depth) trees now =
     Tree (Some (getMultiTreeValueFromTrees trees now)) None
       (Some (fold (\<lambda>(k, ts). obj_put k (Some (multiTreeRef dist depth ts now)))
               (dist (concat (map (\<lambda>t. map (\<lambda>(k, u). (k, [u])) (kids t)) trees))) []))"

definition newMultiTreeRef :: "('v, 's, 'm) cache \<Rightarrow> rvalue tree list \<Rightarrow> int \<Rightarrow> rvalue list tree" where
  "newMultiTreeRef c trees now = multiTreeRef (c_distinct c) (sum_list (map size trees)) trees now"

fun deserializeAll :: "treeSerializer \<Rightarrow> rvalue list \<Rightarrow> error + rvalue tree list" where
  "deserializeAll T [] = Inr []"
| "deserializeAll T (r # rs) =
     (case ts_deserialize T r of Inl e \<Rightarrow> Inl e
      | Inr t \<Rightarrow> (case deserializeAll T rs of Inl e \<Rightarrow> Inl e | Inr ts \<Rightarrow> Inr (t # ts)))"

definition deserializeTreeFromList ::
  "('v, 's, 'm) cache \<Rightarrow> rvalue option list \<Rightarrow> int \<Rightarrow> ('s, 'm) world
   \<Rightarrow> rvalue sync_tree option \<times> ('s, 'm) world" where
  "deserializeTreeFromList c list now w =
     (case deserializeAll (tser c) (filter_truthy list) of
        Inl e \<Rightarrow> (None, emit (DeserializeError e TreeKind) w)
      | Inr trees \<Rightarrow> (Some (MultiTree (newMultiTreeRef c trees now)), w))"

section \<open>Memoized reads\<close>

text \<open>
  \<open>getMemoized\<close>: without a memoizer the callback itself; with one, the entry of the key, or the
  result of the callback, which is memoized. Steps and trees share the memoizer.
\<close>

definition getMemoized ::
  "('v, 's, 'm) cache \<Rightarrow> ('x \<Rightarrow> 'v memo) \<Rightarrow> ('v memo \<Rightarrow> 'x option)
   \<Rightarrow> (key \<Rightarrow> ('s, 'm) world \<Rightarrow> 'x \<times> ('s, 'm) world)
   \<Rightarrow> 'x \<Rightarrow> key \<Rightarrow> ('s, 'm) world \<Rightarrow> 'x \<times> ('s, 'm) world" where
  "getMemoized c wrap unwrap callback mismatch k w =
     (case o_memoizer (c_options c) of
        None \<Rightarrow> callback k w
      | Some memoizer \<Rightarrow>
          (case mm_get memoizer (w_memo w) k of
             None \<Rightarrow>
               (case callback k w of (result, w') \<Rightarrow>
                  (result, w'\<lparr>w_memo := mm_set memoizer k (wrap result) (w_memo w')\<rparr>))
           | Some entry \<Rightarrow>
               (case unwrap entry of None \<Rightarrow> (mismatch, w) | Some result \<Rightarrow> (result, w))))"

definition readStep ::
  "('v, 's, 'm) cache \<Rightarrow> chained \<Rightarrow> key \<Rightarrow> ('s, 'm) world \<Rightarrow> ('v step option, ('s, 'm) world) result" where
  "readStep c nodeRef k w =
     (case readStorage c k w of
        History l \<Rightarrow> and_then (getStep c (Some (AsyncList l)) nodeRef None w) (\<lambda>s w. (Inr (Some s), w))
      | Buffer b \<Rightarrow>
          if str_truthy b
          then and_then (getStep c (Some (TreeValue (Single (the b)))) nodeRef None w) (\<lambda>s w. (Inr (Some s), w))
          else (Inr None, w))"

definition getMemoizedStep ::
  "('v, 's, 'm) cache \<Rightarrow> key \<Rightarrow> chained \<Rightarrow> ('s, 'm) world \<Rightarrow> ('v step option, ('s, 'm) world) result" where
  "getMemoizedStep c k nodeRef w =
     getMemoized c MemoStep (\<lambda>e. case e of MemoStep r \<Rightarrow> Some r | MemoTree _ \<Rightarrow> None)
       (readStep c nodeRef) (Inl MemoMismatch) k w"

definition readTree ::
  "('v, 's, 'm) cache \<Rightarrow> int \<Rightarrow> key \<Rightarrow> ('s, 'm) world \<Rightarrow> (rvalue sync_tree option, ('s, 'm) world) result" where
  "readTree c now k w =
     (case readStorage c k w of
        History l \<Rightarrow> (case deserializeTreeFromList c l now w of (t, w') \<Rightarrow> (Inr t, w'))
      | Buffer b \<Rightarrow>
          if str_truthy b
          then (case deserializeTree c (the b) w of (t, w') \<Rightarrow> (Inr (map_option PlainTree t), w'))
          else (Inr None, w))"

definition getMemoizedTree ::
  "('v, 's, 'm) cache \<Rightarrow> key \<Rightarrow> int \<Rightarrow> ('s, 'm) world \<Rightarrow> (rvalue sync_tree option, ('s, 'm) world) result" where
  "getMemoizedTree c k now w =
     getMemoized c MemoTree (\<lambda>e. case e of MemoTree r \<Rightarrow> Some r | MemoStep _ \<Rightarrow> None)
       (readTree c now) (Inl MemoMismatch) k w"

section \<open>Looking a node up\<close>

text \<open>The reference \<open>treeRef = {}\<close> of the key level nodes.\<close>

abbreviation no_tree :: "rvalue sync_tree" where
  "no_tree \<equiv> PlainTree empty_tree"

text \<open>The \<open>do .. while\<close> loop that walks down the key level nodes.\<close>

function storageNode ::
  "path \<Rightarrow> nat \<Rightarrow> int \<Rightarrow> nat \<Rightarrow> chained option \<Rightarrow> error + rvalue sync_item" where
  "storageNode path upTo now level nodeRef =
     (case getNextStorageNode path level nodeRef no_tree now of
        Inl e \<Rightarrow> Inl e
      | Inr item \<Rightarrow>
          if ch_level (si_ref item) < upTo then storageNode path upTo now (Suc level) (Some (si_ref item))
          else Inr item)"
  by pat_completeness auto
termination
  by (relation "measure (\<lambda>(_, upTo, _, level, _). upTo - level)")
    (auto simp: getNextStorageNode_def split: sum.splits)

declare storageNode.simps [simp del]

text \<open>The loop that walks down a tree: \<open>while (nodeRef && nodeRef.level < length && tree)\<close>.\<close>

function treeNode ::
  "path \<Rightarrow> int \<Rightarrow> rvalue sync_item \<Rightarrow> rvalue sync_tree
   \<Rightarrow> error + (rvalue sync_item \<times> rvalue sync_tree) option" where
  "treeNode path now nodeRef tree =
     (if ch_level (si_ref nodeRef) < length path then
        (case getNextTreeNode path (ch_level (si_ref nodeRef)) tree (Some (si_ref nodeRef)) no_tree now of
           Inl e \<Rightarrow> Inl e
         | Inr None \<Rightarrow> Inr None
         | Inr (Some (nodeRef', tree')) \<Rightarrow> treeNode path now nodeRef' tree')
      else Inr (Some (nodeRef, tree)))"
  by pat_completeness auto
termination
  by (relation "measure (\<lambda>(path, _, nodeRef, _). length path - ch_level (si_ref nodeRef))")
    (auto simp: getNextTreeNode_def split: sum.splits option.splits)

declare treeNode.simps [simp del]

definition bufferValue :: "buffer \<Rightarrow> rvalue tree_value option" where
  "bufferValue b = (case b of Buffer r \<Rightarrow> map_option Single r | History l \<Rightarrow> Some (MultiTreeValue (filter_truthy l)))"

definition getNodeRef ::
  "('v, 's, 'm) cache \<Rightarrow> path \<Rightarrow> bool \<Rightarrow> int \<Rightarrow> ('s, 'm) world
   \<Rightarrow> (rvalue sync_item option, ('s, 'm) world) result" where
  "getNodeRef c path lastValue now w =
     (let upTo = min (keyLevelNodes c) (length path) in
      if upTo > 0 then
        (case storageNode path upTo now 0 None of
           Inl e \<Rightarrow> (Inl e, w)
         | Inr nodeRef \<Rightarrow>
             (if length path \<ge> ch_level (si_ref nodeRef) then
                (let chainedKey = buildKey (si_ref nodeRef) in
                 if ch_level (si_ref nodeRef) < keyLevelNodes c then
                   (let buffer = (if lastValue then Buffer (store_get c w chainedKey) else readStorage c chainedKey w)
                    in (Inr (Some (nodeRef\<lparr>si_value := bufferValue buffer\<rparr>)), w))
                 else if lastValue \<and> \<not> str_truthy (store_get c w chainedKey) then (Inr None, w)
                 else
                   and_then
                     (if lastValue then
                        (case ts_deserialize (tser c) (the (store_get c w chainedKey)) of
                           Inl e \<Rightarrow> (Inl e, w) | Inr t \<Rightarrow> (Inr (Some (PlainTree t)), w))
                      else getMemoizedTree c chainedKey now w)
                     (\<lambda>tree w.
                        case tree of
                          None \<Rightarrow> (Inr (Some nodeRef), w)
                        | Some t \<Rightarrow>
                            (case treeNode path now nodeRef t of
                               Inl e \<Rightarrow> (Inl e, w)
                             | Inr None \<Rightarrow> (Inr None, w)
                             | Inr (Some (nodeRef, t)) \<Rightarrow>
                                 (Inr (Some (createSyncItem (ch_key (si_ref nodeRef)) (ch_level (si_ref nodeRef))
                                     (ch_parentRef (si_ref nodeRef)) t now)), w))))
              else (Inr (Some nodeRef), w)))
      else (Inr None, w))"

section \<open>Persistence\<close>

definition persistStep ::
  "('v, 's, 'm) cache \<Rightarrow> 'v step \<Rightarrow> rvalue option \<Rightarrow> key \<Rightarrow> 'v stepTtl option \<Rightarrow> ('s, 'm) world
   \<Rightarrow> ('s, 'm) world" where
  "persistStep c step currentSerialized chainedKey ttl w =
     (case step_value step of
        None \<Rightarrow> w
      | Some v \<Rightarrow>
          (let serialized = vs_serialize (vser c) v in
           if currentSerialized \<noteq> Some serialized
           then store_set c chainedKey serialized (fst (getTtl ttl step None)) w
           else w))"

definition persistTree ::
  "('v, 's, 'm) cache \<Rightarrow> key \<Rightarrow> int option \<Rightarrow> rvalue tree \<Rightarrow> ('s, 'm) world \<Rightarrow> ('s, 'm) world" where
  "persistTree c chainedKey ttl tree w =
     (let maxTtl = (if num_truthy ttl
            then (case st_getCurrentTtl (c_storage c) (w_store w) chainedKey of
                    None \<Rightarrow> ttl | Some currentTtl \<Rightarrow> Some (max currentTtl (the ttl)))
            else None)
      in store_set c chainedKey (ts_serialize (tser c) tree) maxTtl w)"

definition MILLISECOND_SCALE :: int where
  "MILLISECOND_SCALE = 1000"

text \<open>The updated tree is returned with the source's result \<open>changed\<close> and \<open>maxTtl\<close>.\<close>

definition enrichTree ::
  "('v, 's, 'm) cache \<Rightarrow> 'v step \<Rightarrow> rvalue option \<Rightarrow> rvalue tree \<Rightarrow> 'v stepTtl option \<Rightarrow> int
   \<Rightarrow> int option \<Rightarrow> rvalue tree \<times> bool \<times> int option" where
  "enrichTree c step currentSerialized currentTree ttl now maxTtl =
     (case step_value step of
        None \<Rightarrow> (currentTree, False, maxTtl)
      | Some v \<Rightarrow>
          (let serialized = vs_serialize (vser c) v in
           if currentSerialized \<noteq> Some serialized
           then
             (let (currentTtl, maxTtl) = getTtl ttl step maxTtl;
                  tree = set_value (Some serialized) currentTree;
                  tree = (if num_truthy currentTtl
                          then set_deadline (Some (now + the currentTtl * MILLISECOND_SCALE)) tree
                          else if num_truthy (tdeadline tree) then set_deadline None tree else tree)
              in (tree, True, maxTtl))
           else (currentTree, False, maxTtl)))"

end
