(* ===== verification/Cache_Async_Lists.thy ===== *)
theory Cache_Async_Lists
  imports Cache_Lists
begin

text \<open>
  The list structures of the asynchronous traversals (\<open>src/utils/graphs/async\<close>):
  \<open>AsyncQueue\<close>, whose nodes hold an item or an iterator that is pulled when it reaches the front,
  and \<open>AsyncStack\<close>, which drains an iterable when it is pushed.

  An asynchronous computation takes the world and returns its result or the error it throws,
  together with the new world; \<^term>\<open>None\<close> stands for a computation that does not end. An iterator
  is a state with a function \<open>next\<close>. The locale \<open>async_iterator\<close> describes an iterator by the
  sequence of outcomes it still has to deliver; \<open>async_list\<close> with its two extensions
  \<open>async_fifo\<close> and \<open>async_lifo\<close> is the interface \<open>AsyncSimpleList\<close>, described by the sequence of
  outcomes a list structure holds. Both structures are shown to implement it, over any iterator.
\<close>

section \<open>Asynchronous computations\<close>

type_synonym ('a, 'w) promise = "((error + 'a) \<times> 'w) option"

definition await :: "('a, 'w) promise \<Rightarrow> ('a \<Rightarrow> 'w \<Rightarrow> ('b, 'w) promise) \<Rightarrow> ('b, 'w) promise" where
  "await p f = (case p of None \<Rightarrow> None | Some (Inl e, w) \<Rightarrow> Some (Inl e, w) | Some (Inr x, w) \<Rightarrow> f x w)"

lemma await_simps [simp]:
  "await None f = None" "await (Some (Inl e, w)) f = Some (Inl e, w)" "await (Some (Inr x, w)) f = f x w"
  by (simp_all add: await_def)

section \<open>Iterators and lists\<close>

text \<open>
  \<open>it_next\<close> is the method \<open>next\<close>: an item, \<open>None\<close> for \<open>done\<close>, or an error. \<open>it_bound\<close> bounds
  the number of items an iterator still yields; loops that drain an iterator use it as their fuel.
\<close>

record ('x, 'i, 'w) iterator =
  it_next :: "'i \<Rightarrow> 'w \<Rightarrow> (error + 'x option) \<times> 'i \<times> 'w"
  it_bound :: "'i \<Rightarrow> 'w \<Rightarrow> nat"

text \<open>What is pushed is an item or an iterable, which is here the iterator it gives.\<close>

record ('l, 'x, 'i, 'w) AsyncSimpleList =
  al_push :: "'x + 'i \<Rightarrow> 'l \<Rightarrow> 'w \<Rightarrow> ('l, 'w) promise"
  al_pop :: "'l \<Rightarrow> 'w \<Rightarrow> ('x option \<times> 'l, 'w) promise"
  al_length :: "'l \<Rightarrow> nat"

section \<open>The asynchronous queue\<close>

type_synonym ('x, 'i) async_queue = "('x + 'i) queue"

definition asyncQueue_push :: "'x + 'i \<Rightarrow> ('x, 'i) async_queue \<Rightarrow> ('x, 'i) async_queue" where
  "asyncQueue_push v q = (let q' = link_node v q in q'\<lparr>q_size := Suc (q_size q')\<rparr>)"

text \<open>The state of the iterator in a node changes when it is pulled.\<close>

definition set_iterator :: "nat \<Rightarrow> 'i \<Rightarrow> ('x, 'i) async_queue \<Rightarrow> ('x, 'i) async_queue" where
  "set_iterator a it q =
     q\<lparr>q_heap := (q_heap q)(a := map_option (\<lambda>nd. nd\<lparr>nd_value := Inr it\<rparr>) (q_heap q a))\<rparr>"

text \<open>
  \<open>pop\<close> and \<open>asyncNext\<close> call each other: an exhausted iterator is removed and \<open>pop\<close> is called
  again. Every round removes a node, so that the number of nodes ever allocated is a bound.
\<close>

fun asyncQueue_loop ::
  "('x, 'i, 'w) iterator \<Rightarrow> nat \<Rightarrow> ('x, 'i) async_queue \<Rightarrow> 'w
   \<Rightarrow> ('x option \<times> ('x, 'i) async_queue, 'w) promise" where
  "asyncQueue_loop I 0 q w = None"
| "asyncQueue_loop I (Suc fuel) q w =
     (case Option.bind (q_next q) (q_heap q) of
        None \<Rightarrow> Some (Inr (None, q), w)
      | Some node \<Rightarrow>
          (case nd_value node of
             Inl x \<Rightarrow> (let q' = removeNode q in Some (Inr (Some x, q'\<lparr>q_size := q_size q' - 1\<rparr>), w))
           | Inr it \<Rightarrow>
               (case it_next I it w of
                  (Inl e, it', w') \<Rightarrow> Some (Inl e, w')
                | (Inr None, it', w') \<Rightarrow> asyncQueue_loop I fuel (removeNode q) w'
                | (Inr (Some x), it', w') \<Rightarrow> Some (Inr (Some x, set_iterator (the (q_next q)) it' q), w'))))"

definition asyncQueue_pop ::
  "('x, 'i, 'w) iterator \<Rightarrow> ('x, 'i) async_queue \<Rightarrow> 'w \<Rightarrow> ('x option \<times> ('x, 'i) async_queue, 'w) promise" where
  "asyncQueue_pop I q w = asyncQueue_loop I (Suc (q_fresh q)) q w"

definition asyncQueue_ops :: "('x, 'i, 'w) iterator \<Rightarrow> (('x, 'i) async_queue, 'x, 'i, 'w) AsyncSimpleList" where
  "asyncQueue_ops I =
     \<lparr>al_push = (\<lambda>v q w. Some (Inr (asyncQueue_push v q), w)), al_pop = asyncQueue_pop I, al_length = q_size\<rparr>"

section \<open>The asynchronous stack\<close>

text \<open>\<open>for await (const item of value) this.stack.push(item)\<close>.\<close>

fun addIterable ::
  "('x, 'i, 'w) iterator \<Rightarrow> nat \<Rightarrow> 'i \<Rightarrow> 'x list \<Rightarrow> 'w \<Rightarrow> ('x list, 'w) promise" where
  "addIterable I 0 it stack w = None"
| "addIterable I (Suc fuel) it stack w =
     (case it_next I it w of
        (Inl e, it', w') \<Rightarrow> Some (Inl e, w')
      | (Inr None, it', w') \<Rightarrow> Some (Inr stack, w')
      | (Inr (Some x), it', w') \<Rightarrow> addIterable I fuel it' (array_push x stack) w')"

definition asyncStack_push ::
  "('x, 'i, 'w) iterator \<Rightarrow> 'x + 'i \<Rightarrow> 'x list \<Rightarrow> 'w \<Rightarrow> ('x list, 'w) promise" where
  "asyncStack_push I v stack w =
     (case v of Inr it \<Rightarrow> addIterable I (Suc (it_bound I it w)) it stack w
      | Inl x \<Rightarrow> Some (Inr (array_push x stack), w))"

definition asyncStack_pop :: "'x list \<Rightarrow> 'w \<Rightarrow> ('x option \<times> 'x list, 'w) promise" where
  "asyncStack_pop stack w = Some (Inr (array_pop stack), w)"

definition asyncStack_ops :: "('x, 'i, 'w) iterator \<Rightarrow> ('x list, 'x, 'i, 'w) AsyncSimpleList" where
  "asyncStack_ops I = \<lparr>al_push = asyncStack_push I, al_pop = asyncStack_pop, al_length = length\<rparr>"

section \<open>Outcomes\<close>

text \<open>
  An outcome is an item or an error. The items of a sequence of outcomes that come before its first
  error, and that error.
\<close>

type_synonym 'x outcome = "error + 'x"

fun oks :: "'x outcome list \<Rightarrow> 'x list" where
  "oks [] = []"
| "oks (Inr x # os) = x # oks os"
| "oks (Inl e # os) = []"

fun first_fail :: "'x outcome list \<Rightarrow> error option" where
  "first_fail [] = None"
| "first_fail (Inr x # os) = first_fail os"
| "first_fail (Inl e # os) = Some e"

lemma oks_map_Inr [simp]: "oks (map Inr xs) = xs" "first_fail (map Inr xs) = None"
  by (induction xs) auto

lemma no_fail_eq: "first_fail os = None \<Longrightarrow> os = map Inr (oks os)"
  by (induction os rule: oks.induct) auto

section \<open>Interfaces\<close>

text \<open>
  The world may change while an iterator runs, but it stays within the states in which the
  iterator's outcomes are fixed.
\<close>

locale async_iterator =
  fixes I :: "('x, 'i, 'w) iterator" and rest :: "'i \<Rightarrow> 'x outcome list" and good :: "'w \<Rightarrow> bool"
  assumes next_done: "good w \<Longrightarrow> rest i = [] \<Longrightarrow> \<exists>i' w'. it_next I i w = (Inr None, i', w') \<and> good w'"
    and next_item: "good w \<Longrightarrow> rest i = Inr x # os \<Longrightarrow>
      \<exists>i' w'. it_next I i w = (Inr (Some x), i', w') \<and> rest i' = os \<and> good w'"
    and next_fail: "good w \<Longrightarrow> rest i = Inl e # os \<Longrightarrow> \<exists>i' w'. it_next I i w = (Inl e, i', w') \<and> good w'"
    and rest_bound: "good w \<Longrightarrow> length (rest i) \<le> it_bound I i w"

locale async_list =
  fixes ops :: "('l, 'x, 'i, 'w) AsyncSimpleList" and new :: 'l
    and contents :: "'l \<Rightarrow> 'x outcome list" and invar :: "'l \<Rightarrow> bool"
    and rest :: "'i \<Rightarrow> 'x outcome list" and good :: "'w \<Rightarrow> bool"
  assumes invar_new: "invar new"
    and contents_new: "contents new = []"
    and push_item: "invar l \<Longrightarrow> good w \<Longrightarrow>
      \<exists>l' w'. al_push ops (Inl x) l w = Some (Inr l', w') \<and> invar l' \<and> good w'
        \<and> contents l' = contents l @ [Inr x]"
    and push_iterator: "invar l \<Longrightarrow> good w \<Longrightarrow> first_fail (rest i) = None \<Longrightarrow>
      \<exists>l' w'. al_push ops (Inr i) l w = Some (Inr l', w') \<and> invar l' \<and> good w'
        \<and> contents l' = contents l @ rest i"
    and pop_empty: "invar l \<Longrightarrow> good w \<Longrightarrow> contents l = [] \<Longrightarrow>
      \<exists>l' w'. al_pop ops l w = Some (Inr (None, l'), w') \<and> good w'"
    and length_positive: "invar l \<Longrightarrow> contents l \<noteq> [] \<Longrightarrow> al_length ops l > 0"

text \<open>A queue takes iterators as they are and fails when it reaches their error.\<close>

locale async_fifo = async_list +
  assumes push_lazily: "invar l \<Longrightarrow> good w \<Longrightarrow>
      \<exists>l' w'. al_push ops (Inr i) l w = Some (Inr l', w') \<and> invar l' \<and> good w'
        \<and> contents l' = contents l @ rest i"
    and pop_first: "invar l \<Longrightarrow> good w \<Longrightarrow> contents l = Inr x # os \<Longrightarrow>
      \<exists>l' w'. al_pop ops l w = Some (Inr (Some x, l'), w') \<and> invar l' \<and> good w' \<and> contents l' = os"
    and pop_fail: "invar l \<Longrightarrow> good w \<Longrightarrow> contents l = Inl e # os \<Longrightarrow>
      \<exists>w'. al_pop ops l w = Some (Inl e, w') \<and> good w'"

text \<open>A stack fails when it is given an iterator that fails, and holds items only.\<close>

locale async_lifo = async_list +
  assumes push_fail: "invar l \<Longrightarrow> good w \<Longrightarrow> first_fail (rest i) = Some e \<Longrightarrow>
      \<exists>w'. al_push ops (Inr i) l w = Some (Inl e, w') \<and> good w'"
    and contents_ok: "invar l \<Longrightarrow> first_fail (contents l) = None"
    and pop_last: "invar l \<Longrightarrow> good w \<Longrightarrow> contents l = os @ [Inr x] \<Longrightarrow>
      \<exists>l' w'. al_pop ops l w = Some (Inr (Some x, l'), w') \<and> invar l' \<and> good w' \<and> contents l' = os"

section \<open>The queue implements the interface\<close>

definition aq_invar :: "('x, 'i) async_queue \<Rightarrow> bool" where
  "aq_invar q \<longleftrightarrow> (\<exists>as. chain_inv q as \<and> length as \<le> q_size q)"

definition aq_contents :: "('i \<Rightarrow> 'x outcome list) \<Rightarrow> ('x, 'i) async_queue \<Rightarrow> 'x outcome list" where
  "aq_contents rest q =
     concat (map (case_sum (\<lambda>x. [Inr x]) rest) (follow (q_heap q) (q_fresh q) (q_next q)))"

lemma chain_length: "chain_inv q as \<Longrightarrow> length as \<le> q_fresh q"
  using card_mono [of "{..<q_fresh q}" "set as"]
  by (auto simp: chain_inv_def distinct_card subset_iff)

lemma aq_contents_chain:
  "chain_inv q as \<Longrightarrow> aq_contents rest q = concat (map (case_sum (\<lambda>x. [Inr x]) rest) (node_vals (q_heap q) as))"
  using chain_length [of q as] follow_lchain [of "q_heap q" "q_next q" as "q_fresh q"]
  by (simp add: aq_contents_def chain_inv_def)

lemma lchain_set_value:
  "lchain h p as \<Longrightarrow> lchain (h(a := map_option (\<lambda>nd. nd\<lparr>nd_value := v\<rparr>) (h a))) p as"
  by (induction as arbitrary: p) auto

lemma chain_set_iterator:
  assumes "chain_inv q (a # as)"
  shows "chain_inv (set_iterator a it q) (a # as)
    \<and> node_vals (q_heap (set_iterator a it q)) (a # as) = Inr it # node_vals (q_heap q) as"
proof -
  obtain nd where "q_heap q a = Some nd" "a \<notin> set as" using assms by (auto simp: chain_inv_def)
  then show ?thesis
    using assms lchain_set_value [of "q_heap q" "q_next q" "a # as" a "Inr it"]
    by (auto simp: chain_inv_def set_iterator_def)
qed

lemma aq_push_refines:
  assumes "aq_invar q"
  shows "aq_invar (asyncQueue_push v q)
    \<and> aq_contents rest (asyncQueue_push v q) = aq_contents rest q @ case_sum (\<lambda>x. [Inr x]) rest v"
proof -
  obtain as where as: "chain_inv q as" "length as \<le> q_size q" using assms by (auto simp: aq_invar_def)
  let ?p = "asyncQueue_push v q"
  have c: "chain_inv ?p (as @ [q_fresh q])" and s: "length (as @ [q_fresh q]) \<le> q_size ?p"
    and v: "node_vals (q_heap ?p) (as @ [q_fresh q]) = node_vals (q_heap q) as @ [v]"
    using chain_link_node [OF as(1), of v] as(2) by (auto simp: asyncQueue_push_def Let_def chain_inv_def)
  have "aq_contents rest ?p = aq_contents rest q @ case_sum (\<lambda>x. [Inr x]) rest v"
    unfolding aq_contents_chain [OF c] aq_contents_chain [OF as(1)] v by simp
  with c s show ?thesis unfolding aq_invar_def by blast
qed

context async_iterator
begin

lemma aq_loop_outcome:
  "chain_inv q as \<Longrightarrow> length as \<le> q_size q \<Longrightarrow> length as < fuel \<Longrightarrow> good w \<Longrightarrow>
   \<exists>r w'. asyncQueue_loop I fuel q w = Some (r, w') \<and> good w' \<and>
     (case aq_contents rest q of
        [] \<Rightarrow> \<exists>q'. r = Inr (None, q')
      | Inl e # os \<Rightarrow> r = Inl e
      | Inr x # os \<Rightarrow> \<exists>q'. r = Inr (Some x, q') \<and> aq_invar q' \<and> aq_contents rest q' = os)"
proof (induction fuel arbitrary: q as w)
  case (Suc fuel)
  show ?case
  proof (cases as)
    case Nil
    with Suc.prems(1) aq_contents_chain [OF Suc.prems(1), of rest] Suc.prems(4) show ?thesis
      by (simp add: chain_inv_def)
  next
    case (Cons a bs)
    note ch = Suc.prems(1) [unfolded Cons]
    obtain nd where nd: "q_next q = Some a" "q_heap q a = Some nd" using ch by (auto simp: chain_inv_def)
    have rem: "chain_inv (removeNode q) bs" "q_heap (removeNode q) = q_heap q" "q_size (removeNode q) = q_size q"
      using chain_removeNode [OF ch] by auto
    have tail: "aq_contents rest (removeNode q)
        = concat (map (case_sum (\<lambda>x. [Inr x]) rest) (node_vals (q_heap q) bs))"
      using aq_contents_chain [OF rem(1)] rem(2) by simp
    have all: "aq_contents rest q = case_sum (\<lambda>x. [Inr x]) rest (nd_value nd) @ aq_contents rest (removeNode q)"
      using aq_contents_chain [OF ch, of rest] nd tail by simp
    show ?thesis
    proof (cases "nd_value nd")
      case (Inl x)
      let ?q = "(removeNode q)\<lparr>q_size := q_size q - Suc 0\<rparr>"
      have c: "chain_inv ?q bs" using rem(1) by (simp add: chain_inv_def)
      then have "aq_invar ?q" unfolding aq_invar_def using Suc.prems(2) Cons by (intro exI [of _ bs]) auto
      moreover have "aq_contents rest ?q = aq_contents rest (removeNode q)" by (simp add: aq_contents_def)
      ultimately show ?thesis using nd Inl all rem(3) Suc.prems(4) by (simp add: Let_def)
    next
      case (Inr it)
      show ?thesis
      proof (cases "rest it")
        case Nil
        with next_done [OF Suc.prems(4) this] obtain i' w' where n: "it_next I it w = (Inr None, i', w')" "good w'"
          by blast
        have "aq_contents rest q = aq_contents rest (removeNode q)" using all Inr Nil by simp
        with Suc.IH [OF rem(1) _ _ n(2)] Suc.prems(2,3) Cons rem(3) n(1) nd Inr show ?thesis by simp
      next
        case (Cons out os)
        have here: "aq_contents rest q = out # os @ aq_contents rest (removeNode q)"
          using all Inr Cons by simp
        show ?thesis
        proof (cases out)
          case (Inl e)
          with next_fail [OF Suc.prems(4), of it e os] Cons obtain i' w'
            where n: "it_next I it w = (Inl e, i', w')" "good w'" by blast
          with here Inl nd Inr show ?thesis by simp
        next
          case x: (Inr x)
          with next_item [OF Suc.prems(4), of it x os] Cons obtain i' w'
            where n: "it_next I it w = (Inr (Some x), i', w')" "good w'" "rest i' = os" by blast
          let ?q = "set_iterator a i' q"
          have c: "chain_inv ?q (a # bs)" "node_vals (q_heap ?q) (a # bs) = Inr i' # node_vals (q_heap q) bs"
            using chain_set_iterator [OF ch] by auto
          have "aq_contents rest ?q = os @ aq_contents rest (removeNode q)"
            unfolding aq_contents_chain [OF c(1)] c(2) using n(3) tail by simp
          moreover have "aq_invar ?q"
            unfolding aq_invar_def using c(1) Suc.prems(2) \<open>as = a # bs\<close>
            by (intro exI [of _ "a # bs"]) (auto simp: set_iterator_def)
          ultimately show ?thesis using here x n nd Inr by simp
        qed
      qed
    qed
  qed
qed simp

lemma aq_pop_outcome:
  assumes "aq_invar q" "good w"
  shows "\<exists>r w'. asyncQueue_pop I q w = Some (r, w') \<and> good w' \<and>
     (case aq_contents rest q of
        [] \<Rightarrow> \<exists>q'. r = Inr (None, q')
      | Inl e # os \<Rightarrow> r = Inl e
      | Inr x # os \<Rightarrow> \<exists>q'. r = Inr (Some x, q') \<and> aq_invar q' \<and> aq_contents rest q' = os)"
proof -
  obtain as where "chain_inv q as" "length as \<le> q_size q" using assms(1) by (auto simp: aq_invar_def)
  with aq_loop_outcome [OF this _ assms(2), of "Suc (q_fresh q)"] chain_length show ?thesis
    by (auto simp: asyncQueue_pop_def less_Suc_eq_le)
qed

lemma async_queue_fifo: "async_fifo (asyncQueue_ops I) queue_new (aq_contents rest) aq_invar rest good"
proof
  show "aq_invar (queue_new :: ('x, 'i) async_queue)"
    unfolding aq_invar_def by (rule exI [of _ "[]"]) (simp add: queue_new_def chain_inv_def)
  show "aq_contents rest (queue_new :: ('x, 'i) async_queue) = []"
    by (simp add: aq_contents_def queue_new_def)
next
  fix q :: "('x, 'i) async_queue" and w :: 'w
  assume q: "aq_invar q" and w: "good w"
  have push: "\<exists>l' w'. al_push (asyncQueue_ops I) v q w = Some (Inr l', w') \<and> aq_invar l' \<and> good w'
      \<and> aq_contents rest l' = aq_contents rest q @ case_sum (\<lambda>x. [Inr x]) rest v" for v
    using aq_push_refines [OF q] w by (simp add: asyncQueue_ops_def)
  show "\<exists>l' w'. al_push (asyncQueue_ops I) (Inl x) q w = Some (Inr l', w') \<and> aq_invar l' \<and> good w'
      \<and> aq_contents rest l' = aq_contents rest q @ [Inr x]" for x
    using push [of "Inl x"] by simp
  show lazy: "\<exists>l' w'. al_push (asyncQueue_ops I) (Inr i) q w = Some (Inr l', w') \<and> aq_invar l' \<and> good w'
      \<and> aq_contents rest l' = aq_contents rest q @ rest i" for i
    using push [of "Inr i"] by simp
  then show "\<exists>l' w'. al_push (asyncQueue_ops I) (Inr i) q w = Some (Inr l', w') \<and> aq_invar l' \<and> good w'
      \<and> aq_contents rest l' = aq_contents rest q @ rest i" for i .
  note pop = aq_pop_outcome [OF q w]
  show "\<exists>l' w'. al_pop (asyncQueue_ops I) q w = Some (Inr (None, l'), w') \<and> good w'" if "aq_contents rest q = []"
    using pop that by (auto simp: asyncQueue_ops_def)
  show "\<exists>l' w'. al_pop (asyncQueue_ops I) q w = Some (Inr (Some x, l'), w') \<and> aq_invar l' \<and> good w' \<and> aq_contents rest l' = os"
    if "aq_contents rest q = Inr x # os" for x os
    using pop that by (auto simp: asyncQueue_ops_def)
  show "\<exists>w'. al_pop (asyncQueue_ops I) q w = Some (Inl e, w') \<and> good w'" if "aq_contents rest q = Inl e # os" for e os
    using pop that by (auto simp: asyncQueue_ops_def)
next
  fix q :: "('x, 'i) async_queue"
  assume "aq_invar q" and ne: "aq_contents rest q \<noteq> []"
  then obtain as where "chain_inv q as" "length as \<le> q_size q" by (auto simp: aq_invar_def)
  moreover have "as \<noteq> []" using ne aq_contents_chain [OF \<open>chain_inv q as\<close>, of rest] by auto
  ultimately show "al_length (asyncQueue_ops I) q > 0" by (cases as) (auto simp: asyncQueue_ops_def)
qed

lemma addIterable_outcome:
  "good w \<Longrightarrow> length (rest i) < fuel \<Longrightarrow>
   \<exists>w'. addIterable I fuel i stack w
       = Some (case first_fail (rest i) of None \<Rightarrow> Inr (stack @ oks (rest i)) | Some e \<Rightarrow> Inl e, w') \<and> good w'"
proof (induction fuel arbitrary: i stack w)
  case (Suc fuel)
  show ?case
  proof (cases "rest i" rule: oks.cases)
    case 1
    with next_done [OF Suc.prems(1) 1] show ?thesis by auto
  next
    case (2 x os)
    with next_item [OF Suc.prems(1) 2] obtain i' w'
      where n: "it_next I i w = (Inr (Some x), i', w')" "rest i' = os" "good w'" by blast
    with Suc.IH [OF n(3), of i' "stack @ [x]"] Suc.prems(2) 2 show ?thesis
      by (auto simp: array_push_def split: option.splits)
  next
    case (3 e os)
    with next_fail [OF Suc.prems(1) 3] show ?thesis by auto
  qed
qed simp

lemma async_stack_lifo: "async_lifo (asyncStack_ops I) [] (map Inr) (\<lambda>_. True) rest good"
proof
  fix stack :: "'x list" and w :: 'w and i
  assume w: "good w"
  note push = addIterable_outcome [OF w, of i "Suc (it_bound I i w)" stack]
  show "\<exists>l' w'. al_push (asyncStack_ops I) (Inr i) stack w = Some (Inr l', w') \<and> True \<and> good w'
      \<and> map Inr l' = map Inr stack @ rest i" if "first_fail (rest i) = None"
    using push rest_bound [OF w, of i] that no_fail_eq [OF that]
    by (auto simp: asyncStack_ops_def asyncStack_push_def less_Suc_eq_le)
  show "\<exists>w'. al_push (asyncStack_ops I) (Inr i) stack w = Some (Inl e, w') \<and> good w'"
    if "first_fail (rest i) = Some e" for e
    using push rest_bound [OF w, of i] that
    by (auto simp: asyncStack_ops_def asyncStack_push_def less_Suc_eq_le)
next
  fix stack :: "'x list" and w :: 'w and os x
  assume w: "good w" and last: "map Inr stack = os @ [Inr x]"
  then have "stack \<noteq> []" "map Inr (butlast stack) = os" "last stack = x"
    by (auto simp: map_eq_append_conv)
  with w show "\<exists>l' w'. al_pop (asyncStack_ops I) stack w = Some (Inr (Some x, l'), w') \<and> True \<and> good w' \<and> map Inr l' = os"
    by (simp add: asyncStack_ops_def asyncStack_pop_def array_pop_def)
qed (auto simp: asyncStack_ops_def asyncStack_push_def asyncStack_pop_def array_push_def array_pop_def)

end

sublocale async_iterator \<subseteq> as_queue: async_fifo "asyncQueue_ops I" queue_new "aq_contents rest" aq_invar rest good
  by (rule async_queue_fifo)

sublocale async_iterator \<subseteq> as_stack: async_lifo "asyncStack_ops I" "[]" "map Inr" "\<lambda>_. True" rest good
  by (rule async_stack_lifo)

end
