(* ===== verification/Cache_Async.thy ===== *)
theory Cache_Async
  imports Cache_Internal Cache_Async_Lists "HOL-Library.Sublist"
begin

text \<open>
  The asynchronous traversals: \<open>AsyncTreeRef\<close> (\<open>src/internal/async-tree-ref.ts\<close>), the tree whose
  children are read from the storage, and \<open>asyncTreePreOrderTraversal\<close> and
  \<open>asyncTreePostOrderTraversal\<close> with the four searches built from them
  (\<open>src/utils/graphs/async\<close>).

  A traversal is a generator; its consumer is a function \<open>f\<close> from items to outputs that may throw
  and that runs at every \<open>yield\<close>, so that the effects of both interleave as they do in the source.
  The result is the list of outputs with the error that ended the traversal, if any.

  \<open>storedTree\<close> is the specification: the finite tree that a state of the storage represents below a
  node. The lemmas show that every asynchronous search ends, yields a prefix of what the synchronous
  search of the same order yields on \<open>storedTree\<close>, and all of it when no read fails.
\<close>

section \<open>Any kind of tree\<close>

text \<open>
  \<open>AnyTree\<close>: a tree in memory, or an \<open>AsyncTreeRef\<close> with its node reference, of which the chained
  object and the value are used.
\<close>

datatype any_tree =
    SyncRef "rvalue sync_tree"
  | AsyncTreeRef "(chained \<times> rvalue tree_value option) option"

record any_item =
  ai_ref :: chained
  ai_value :: "rvalue tree_value option"
  ai_tree :: any_tree

fun any_value :: "any_tree \<Rightarrow> int \<Rightarrow> rvalue tree_value option" where
  "any_value (SyncRef t) now = sync_value t now"
| "any_value (AsyncTreeRef nodeRef) now = Option.bind nodeRef snd"

definition createAnyItem :: "key \<Rightarrow> nat \<Rightarrow> chained option \<Rightarrow> any_tree \<Rightarrow> int \<Rightarrow> any_item" where
  "createAnyItem key level parentRef treeRef now =
     \<lparr>ai_ref = ChainedObject key level parentRef, ai_value = any_value treeRef now, ai_tree = treeRef\<rparr>"

lemma createAnyItem_simps [simp, item_simps]:
  "ai_ref (createAnyItem k l p t now) = ChainedObject k l p"
  "ai_value (createAnyItem k l p t now) = any_value t now"
  "ai_tree (createAnyItem k l p t now) = t"
  by (simp_all add: createAnyItem_def)

fun sync_kids :: "'r sync_tree \<Rightarrow> (key \<times> 'r sync_tree) list" where
  "sync_kids (PlainTree t) = map (\<lambda>(k, u). (k, PlainTree u)) (kids t)"
| "sync_kids (MultiTree t) = map (\<lambda>(k, u). (k, MultiTree u)) (kids t)"

section \<open>AsyncTreeRef\<close>

fun getTreeListFromAsyncIterable ::
  "('v, 's, 'm) cache \<Rightarrow> rvalue option list \<Rightarrow> ('s, 'm) world \<Rightarrow> rvalue tree list \<times> ('s, 'm) world" where
  "getTreeListFromAsyncIterable c [] w = ([], w)"
| "getTreeListFromAsyncIterable c (b # bs) w =
     (if str_truthy b then
        (case deserializeTree c (the b) w of (t, w1) \<Rightarrow>
           (case getTreeListFromAsyncIterable c bs w1 of (ts, w2) \<Rightarrow>
              (case t of None \<Rightarrow> ts | Some t \<Rightarrow> t # ts, w2)))
      else getTreeListFromAsyncIterable c bs w)"

definition getMultiTreeValueFromAsyncIterable ::
  "rvalue option list \<Rightarrow> (rvalue option list \<Rightarrow> rvalue list) \<Rightarrow> rvalue tree_value" where
  "getMultiTreeValueFromAsyncIterable value getMultiValue = MultiTreeValue (getMultiValue value)"

abbreviation node_level :: "(chained \<times> 'x) option \<Rightarrow> nat" where
  "node_level nodeRef \<equiv> (case nodeRef of None \<Rightarrow> 0 | Some n \<Rightarrow> ch_level (fst n))"

text \<open>The keys of the children: what the generator does before its loop.\<close>

definition asyncKeys ::
  "('v, 's, 'm) cache \<Rightarrow> (chained \<times> 'x) option \<Rightarrow> ('s, 'm) world \<Rightarrow> error + key list" where
  "asyncKeys c nodeRef w =
     (case st_getChildren (c_storage c) of
        None \<Rightarrow> Inl NoGetChildren
      | Some getChildren \<Rightarrow> Inr (getChildren (w_store w) (map_option (buildKey \<circ> fst) nodeRef)))"

text \<open>The body of the loop for one key: the child that is yielded, if any.\<close>

definition asyncChild ::
  "('v, 's, 'm) cache \<Rightarrow> int \<Rightarrow> (chained \<times> rvalue tree_value option) option \<Rightarrow> key \<Rightarrow> ('s, 'm) world
   \<Rightarrow> (any_tree option, ('s, 'm) world) result" where
  "asyncChild c now nodeRef item w =
     (let level = node_level nodeRef + 1;
          ref = ChainedObject item level (map_option fst nodeRef);
          value = getReadStorageFunction (c_storage c) (w_store w) (buildKey ref)
      in
      if level < keyLevelNodes c then
        (Inr (Some (AsyncTreeRef (Some (ref,
           (case value of
              History l \<Rightarrow> Some (getMultiTreeValueFromAsyncIterable l (o_multiTreeSelector (c_options c)))
            | Buffer b \<Rightarrow> map_option Single b))))), w)
      else if value = Buffer None then (Inr None, w)
      else if level > keyLevelNodes c then (Inl SomethingWentWrong, w)
      else
        (case value of
           Buffer b \<Rightarrow>
             (case ts_deserialize (tser c) (the b) of
                Inl e \<Rightarrow> (Inl e, w)
              | Inr t \<Rightarrow> (Inr (Some (SyncRef (PlainTree t))), w))
         | History l \<Rightarrow>
             (case getTreeListFromAsyncIterable c l w of (trees, w') \<Rightarrow>
                (Inr (Some (SyncRef (MultiTree (newMultiTreeRef c trees now)))), w'))))"

section \<open>Pulling children one by one\<close>

type_synonym async_entry = "any_tree \<times> nat \<times> key option \<times> chained option"

text \<open>
  The generator \<open>pushIterable\<close> around the generator of the children: before the first \<open>next\<close>
  nothing has been read; afterwards the keys that are left.
\<close>

record child_iter =
  ci_nodeRef :: "(chained \<times> rvalue tree_value option) option"
  ci_keys :: "key list option"
  ci_level :: nat
  ci_node :: "chained option"

definition pushIterable ::
  "(chained \<times> rvalue tree_value option) option \<Rightarrow> nat \<Rightarrow> chained option \<Rightarrow> child_iter" where
  "pushIterable nodeRef level node =
     \<lparr>ci_nodeRef = nodeRef, ci_keys = None, ci_level = level, ci_node = node\<rparr>"

fun pullChild ::
  "('v, 's, 'm) cache \<Rightarrow> int \<Rightarrow> (chained \<times> rvalue tree_value option) option \<Rightarrow> key list \<Rightarrow> ('s, 'm) world
   \<Rightarrow> (error + (key \<times> any_tree) option) \<times> key list \<times> ('s, 'm) world" where
  "pullChild c now nodeRef [] w = (Inr None, [], w)"
| "pullChild c now nodeRef (k # ks) w =
     (case asyncChild c now nodeRef k w of
        (Inl e, w) \<Rightarrow> (Inl e, [], w)
      | (Inr None, w) \<Rightarrow> pullChild c now nodeRef ks w
      | (Inr (Some t), w) \<Rightarrow> (Inr (Some (k, t)), ks, w))"

definition child_entry :: "nat \<Rightarrow> chained option \<Rightarrow> key \<times> any_tree \<Rightarrow> async_entry" where
  "child_entry level node = (\<lambda>(nextKey, nextValue). (nextValue, level + 1, Some nextKey, node))"

definition pushIterable_next ::
  "('v, 's, 'm) cache \<Rightarrow> int \<Rightarrow> child_iter \<Rightarrow> ('s, 'm) world
   \<Rightarrow> (error + async_entry option) \<times> child_iter \<times> ('s, 'm) world" where
  "pushIterable_next c now it w =
     (case (case ci_keys it of None \<Rightarrow> asyncKeys c (ci_nodeRef it) w | Some ks \<Rightarrow> Inr ks) of
        Inl e \<Rightarrow> (Inl e, it\<lparr>ci_keys := Some []\<rparr>, w)
      | Inr ks \<Rightarrow>
          (case pullChild c now (ci_nodeRef it) ks w of
             (r, ks', w') \<Rightarrow>
               (map_sum id (map_option (child_entry (ci_level it) (ci_node it))) r,
                it\<lparr>ci_keys := Some ks'\<rparr>, w')))"

definition childIterator :: "('v, 's, 'm) cache \<Rightarrow> int \<Rightarrow> (async_entry, child_iter, ('s, 'm) world) iterator" where
  "childIterator c now =
     \<lparr>it_next = pushIterable_next c now,
      it_bound = (\<lambda>it w. case ci_keys it of
          Some ks \<Rightarrow> length ks
        | None \<Rightarrow> (case asyncKeys c (ci_nodeRef it) w of Inl _ \<Rightarrow> 1 | Inr ks \<Rightarrow> length ks))\<rparr>"

section \<open>The tree a storage represents\<close>

text \<open>What reading one child, and all children, of a node gives in a fixed state of the storage.\<close>

definition decoded_trees :: "treeSerializer \<Rightarrow> rvalue option list \<Rightarrow> rvalue tree list" where
  "decoded_trees T l = map projr (filter (\<lambda>r. \<not> isl r) (map (ts_deserialize T) (filter_truthy l)))"

definition childOutcome ::
  "('v, 's, 'm) cache \<Rightarrow> 's \<Rightarrow> int \<Rightarrow> (chained \<times> rvalue tree_value option) option \<Rightarrow> key
   \<Rightarrow> any_tree option outcome" where
  "childOutcome c s now nodeRef item =
     (let level = node_level nodeRef + 1;
          ref = ChainedObject item level (map_option fst nodeRef)
      in
      case getReadStorageFunction (c_storage c) s (buildKey ref) of
        Buffer b \<Rightarrow>
          if level < keyLevelNodes c then Inr (Some (AsyncTreeRef (Some (ref, map_option Single b))))
          else if b = None then Inr None
          else if level > keyLevelNodes c then Inl SomethingWentWrong
          else map_sum id (\<lambda>t. Some (SyncRef (PlainTree t))) (ts_deserialize (tser c) (the b))
      | History l \<Rightarrow>
          if level < keyLevelNodes c
          then Inr (Some (AsyncTreeRef (Some (ref, Some (MultiTreeValue (o_multiTreeSelector (c_options c) l))))))
          else if level > keyLevelNodes c then Inl SomethingWentWrong
          else Inr (Some (SyncRef (MultiTree (newMultiTreeRef c (decoded_trees (tser c) l) now)))))"

fun childOutcomes ::
  "('v, 's, 'm) cache \<Rightarrow> 's \<Rightarrow> int \<Rightarrow> (chained \<times> rvalue tree_value option) option \<Rightarrow> key list
   \<Rightarrow> (key \<times> any_tree) outcome list" where
  "childOutcomes c s now nodeRef [] = []"
| "childOutcomes c s now nodeRef (k # ks) =
     (case childOutcome c s now nodeRef k of
        Inl e \<Rightarrow> [Inl e]
      | Inr None \<Rightarrow> childOutcomes c s now nodeRef ks
      | Inr (Some t) \<Rightarrow> Inr (k, t) # childOutcomes c s now nodeRef ks)"

fun any_children :: "('v, 's, 'm) cache \<Rightarrow> 's \<Rightarrow> int \<Rightarrow> any_tree \<Rightarrow> (key \<times> any_tree) outcome list" where
  "any_children c s now (SyncRef t) = map (\<lambda>(k, u). Inr (k, SyncRef u)) (sync_kids t)"
| "any_children c s now (AsyncTreeRef nodeRef) =
     (case st_getChildren (c_storage c) of
        None \<Rightarrow> [Inl NoGetChildren]
      | Some getChildren \<Rightarrow> childOutcomes c s now nodeRef (getChildren s (map_option (buildKey \<circ> fst) nodeRef)))"

text \<open>Children of the storage are nearer to the trees, children of a tree are smaller.\<close>

fun sync_size :: "'r sync_tree \<Rightarrow> nat" where
  "sync_size (PlainTree t) = size t"
| "sync_size (MultiTree t) = size t"

fun async_depth :: "('v, 's, 'm) cache \<Rightarrow> any_tree \<Rightarrow> nat" where
  "async_depth c (SyncRef t) = 0"
| "async_depth c (AsyncTreeRef nodeRef) = Suc (keyLevelNodes c - node_level nodeRef)"

fun any_size :: "any_tree \<Rightarrow> nat" where
  "any_size (SyncRef t) = sync_size t"
| "any_size (AsyncTreeRef nodeRef) = 0"

lemma sync_kids_size: "sum_list (map (\<lambda>(k, t). Suc (sync_size t)) (sync_kids t)) < sync_size t"
  by (cases t) (simp_all add: comp_def case_prod_unfold kids_size [unfolded case_prod_unfold])

lemma sync_kid_size: "(k, u) \<in> set (sync_kids t) \<Longrightarrow> sync_size u < sync_size t"
  by (cases t) (auto simp: kid_size)

lemma childOutcome_depth:
  "childOutcome c s now nodeRef k = Inr (Some t) \<Longrightarrow> async_depth c t < async_depth c (AsyncTreeRef nodeRef)"
  by (auto simp: childOutcome_def Let_def map_sum_def split: buffer.splits if_splits sum.splits)

lemma childOutcomes_depth:
  "Inr (k, t) \<in> set (childOutcomes c s now nodeRef ks) \<Longrightarrow> async_depth c t < async_depth c (AsyncTreeRef nodeRef)"
proof (induction ks)
  case (Cons j ks)
  then show ?case
    by (auto simp del: async_depth.simps split: sum.splits option.splits intro: childOutcome_depth)
qed simp

lemma oks_in: "x \<in> set (oks os) \<Longrightarrow> Inr x \<in> set os"
  by (induction os rule: oks.induct) auto

definition any_kids :: "('v, 's, 'm) cache \<Rightarrow> 's \<Rightarrow> int \<Rightarrow> any_tree \<Rightarrow> (key \<times> any_tree) list" where
  "any_kids c s now t = oks (any_children c s now t)"

definition any_less :: "('v, 's, 'm) cache \<Rightarrow> (any_tree \<times> any_tree) set" where
  "any_less c = measures [async_depth c, any_size]"

lemma any_kid_less: "(k, u) \<in> set (any_kids c s now t) \<Longrightarrow> (u, t) \<in> any_less c"
  by (cases t) (auto simp: any_kids_def any_less_def sync_kid_size split: option.splits
      dest!: oks_in childOutcomes_depth)

lemma wf_any_less: "wf (any_less c)"
  by (simp add: any_less_def)

text \<open>The represented tree, with the values that are current at the given time.\<close>

function storedTree :: "('v, 's, 'm) cache \<Rightarrow> 's \<Rightarrow> int \<Rightarrow> any_tree \<Rightarrow> rvalue tree_value tree" where
  "storedTree c s now t =
     Tree (any_value t now) None
       (Some (map (\<lambda>(k, u). (k, Some (storedTree c s now u))) (any_kids c s now t)))"
  by pat_completeness auto
termination
  by (relation "inv_image (lex_prod less_than less_than) (\<lambda>(c, s, now, t). (async_depth c t, any_size t))")
    (auto dest: any_kid_less simp: any_less_def)

declare storedTree.simps [simp del]

text \<open>No read fails in or below a node.\<close>

function any_readable :: "('v, 's, 'm) cache \<Rightarrow> 's \<Rightarrow> int \<Rightarrow> any_tree \<Rightarrow> bool" where
  "any_readable c s now t \<longleftrightarrow>
     first_fail (any_children c s now t) = None \<and> list_all (\<lambda>(k, u). any_readable c s now u) (any_kids c s now t)"
  by pat_completeness auto
termination
  by (relation "inv_image (lex_prod less_than less_than) (\<lambda>(c, s, now, t). (async_depth c t, any_size t))")
    (auto dest: any_kid_less simp: any_less_def)

declare any_readable.simps [simp del]

lemma kids_storedTree: "kids (storedTree c s now t) = map (\<lambda>(k, u). (k, storedTree c s now u)) (any_kids c s now t)"
  by (simp add: storedTree.simps [of c s now t] kids_def kids_of_def comp_def case_prod_unfold filter_map)

lemma value_storedTree [simp]: "getTreeCurrentSerializedValue (storedTree c s now t) now' = any_value t now"
  by (simp add: storedTree.simps [of c s now t] getTreeCurrentSerializedValue_def)

section \<open>Yielding\<close>

text \<open>The consumer sees the items as they are yielded; an error it throws ends the traversal.\<close>

fun yieldAll ::
  "(any_item \<Rightarrow> 'w \<Rightarrow> ('y, 'w) result) \<Rightarrow> any_item list \<Rightarrow> 'y list \<Rightarrow> 'w \<Rightarrow> ('y list \<times> error option) \<times> 'w" where
  "yieldAll f [] out w = ((out, None), w)"
| "yieldAll f (i # is) out w =
     (case f i w of
        (Inl e, w) \<Rightarrow> ((out, Some e), w)
      | (Inr y, w) \<Rightarrow> yieldAll f is (out @ [y]) w)"

section \<open>Pre-order traversal\<close>

definition any_visit :: "int \<Rightarrow> async_entry \<Rightarrow> any_item list \<times> chained option" where
  "any_visit now = (\<lambda>(treeRef, level, key, parentRef).
     case key of
       None \<Rightarrow> ([], parentRef)
     | Some k \<Rightarrow> (let node = createAnyItem k level parentRef treeRef now in ([node], Some (ai_ref node))))"

fun pushEntries ::
  "('l, 'x, 'i, 'w) AsyncSimpleList \<Rightarrow> 'x list \<Rightarrow> 'l \<Rightarrow> 'w \<Rightarrow> ('l, 'w) promise" where
  "pushEntries ops [] list w = Some (Inr list, w)"
| "pushEntries ops (e # es) list w = await (al_push ops (Inl e) list w) (pushEntries ops es)"

definition pushChildren ::
  "('l, async_entry, child_iter, 'w) AsyncSimpleList \<Rightarrow> int \<Rightarrow> async_entry \<Rightarrow> 'l \<Rightarrow> 'w \<Rightarrow> ('l, 'w) promise" where
  "pushChildren ops now e list w =
     (case e of (treeRef, level, key, parentRef) \<Rightarrow>
        (case treeRef of
           AsyncTreeRef nodeRef \<Rightarrow> al_push ops (Inr (pushIterable nodeRef level (snd (any_visit now e)))) list w
         | SyncRef t \<Rightarrow>
             pushEntries ops
               (map (\<lambda>(nextKey, nextValue). (SyncRef nextValue, level + 1, Some nextKey, snd (any_visit now e)))
                  (sync_kids t))
               list w))"

fun asyncPreOrderLoop ::
  "('l, async_entry, child_iter, 'w) AsyncSimpleList \<Rightarrow> (any_item \<Rightarrow> 'w \<Rightarrow> ('y, 'w) result) \<Rightarrow> int \<Rightarrow> nat
   \<Rightarrow> 'l \<Rightarrow> 'y list \<Rightarrow> 'w \<Rightarrow> (('y list \<times> error option) \<times> 'w) option" where
  "asyncPreOrderLoop ops f now 0 list out w = None"
| "asyncPreOrderLoop ops f now (Suc fuel) list out w =
     (if al_length ops list > 0 then
        (case al_pop ops list w of
           None \<Rightarrow> None
         | Some (Inl e, w) \<Rightarrow> Some ((out, Some e), w)
         | Some (Inr (None, _), w) \<Rightarrow> Some ((out, None), w)
         | Some (Inr (Some entry, list), w) \<Rightarrow>
             (case yieldAll f (fst (any_visit now entry)) out w of
                ((out, Some e), w) \<Rightarrow> Some ((out, Some e), w)
              | ((out, None), w) \<Rightarrow>
                  (case pushChildren ops now entry list w of
                     None \<Rightarrow> None
                   | Some (Inl e, w) \<Rightarrow> Some ((out, Some e), w)
                   | Some (Inr list, w) \<Rightarrow> asyncPreOrderLoop ops f now fuel list out w)))
      else Some ((out, None), w))"

abbreviation any_start_items :: "chained option \<Rightarrow> any_tree \<Rightarrow> int \<Rightarrow> any_item list" where
  "any_start_items p t now \<equiv> (case p of None \<Rightarrow> []
     | Some r \<Rightarrow> [createAnyItem (ch_key r) (ch_level r) (ch_parentRef r) t now])"

text \<open>The number of nodes of the represented tree bounds the rounds of the loop.\<close>

definition asyncTreePreOrderTraversal ::
  "('v, 's, 'm) cache \<Rightarrow> ('l, async_entry, child_iter, ('s, 'm) world) AsyncSimpleList \<Rightarrow> 'l
   \<Rightarrow> any_tree \<Rightarrow> chained option \<Rightarrow> int \<Rightarrow> (any_item \<Rightarrow> ('s, 'm) world \<Rightarrow> ('y, ('s, 'm) world) result)
   \<Rightarrow> ('s, 'm) world \<Rightarrow> (('y list \<times> error option) \<times> ('s, 'm) world) option" where
  "asyncTreePreOrderTraversal c ops list root startParentRef now f w =
     (let fuel = Suc (node_count (storedTree c (w_store w) now root)) in
      case yieldAll f (any_start_items startParentRef root now) [] w of
        ((out, Some e), w) \<Rightarrow> Some ((out, Some e), w)
      | ((out, None), w) \<Rightarrow>
          (case al_push ops (Inl (root, (case startParentRef of None \<Rightarrow> 0 | Some p \<Rightarrow> ch_level p), None, startParentRef))
                  list w of
             None \<Rightarrow> None
           | Some (Inl e, w) \<Rightarrow> Some ((out, Some e), w)
           | Some (Inr list, w) \<Rightarrow> asyncPreOrderLoop ops f now fuel list out w))"

definition asyncTreePreOrderBreadthFirstSearch ::
  "('v, 's, 'm) cache \<Rightarrow> any_tree \<Rightarrow> chained option \<Rightarrow> int
   \<Rightarrow> (any_item \<Rightarrow> ('s, 'm) world \<Rightarrow> ('y, ('s, 'm) world) result)
   \<Rightarrow> ('s, 'm) world \<Rightarrow> (('y list \<times> error option) \<times> ('s, 'm) world) option" where
  "asyncTreePreOrderBreadthFirstSearch c tree parentRef now =
     asyncTreePreOrderTraversal c (asyncQueue_ops (childIterator c now)) queue_new tree parentRef now"

definition asyncTreePreOrderDepthFirstSearch ::
  "('v, 's, 'm) cache \<Rightarrow> any_tree \<Rightarrow> chained option \<Rightarrow> int
   \<Rightarrow> (any_item \<Rightarrow> ('s, 'm) world \<Rightarrow> ('y, ('s, 'm) world) result)
   \<Rightarrow> ('s, 'm) world \<Rightarrow> (('y list \<times> error option) \<times> ('s, 'm) world) option" where
  "asyncTreePreOrderDepthFirstSearch c tree parentRef now =
     asyncTreePreOrderTraversal c (asyncStack_ops (childIterator c now)) [] tree parentRef now"

section \<open>Post-order traversal\<close>

type_synonym async_post_entry = "any_tree \<times> key option \<times> chained option"

lemma decoded_trees_simps [simp]:
  "decoded_trees T [] = []" "decoded_trees T (None # l) = decoded_trees T l"
  "decoded_trees T (Some r # l) =
     (if r = [] then decoded_trees T l
      else case ts_deserialize T r of Inl _ \<Rightarrow> decoded_trees T l | Inr t \<Rightarrow> t # decoded_trees T l)"
  by (simp_all add: decoded_trees_def split: sum.splits)

lemma getTreeList_world:
  "fst (getTreeListFromAsyncIterable c l w) = decoded_trees (tser c) l
   \<and> w_store (snd (getTreeListFromAsyncIterable c l w)) = w_store w"
proof (induction l arbitrary: w)
  case (Cons b bs)
  show ?case
  proof (cases b)
    case (Some r)
    with Cons show ?thesis
      by (cases "ts_deserialize (tser c) r") (simp_all add: deserializeTree_def case_prod_unfold)
  qed (simp add: Cons)
qed simp

lemma asyncChild_outcome:
  assumes "asyncChild c now nodeRef k w = (r, w')"
  shows "r = childOutcome c (w_store w) now nodeRef k \<and> w_store w' = w_store w"
proof -
  let ?l = "node_level nodeRef + 1"
  let ?ref = "ChainedObject k ?l (map_option fst nodeRef)"
  show ?thesis
  proof (cases "getReadStorageFunction (c_storage c) (w_store w) (buildKey ?ref)")
    case (Buffer b)
    show ?thesis
      using assms unfolding asyncChild_def childOutcome_def Let_def Buffer
      by (cases b; cases "ts_deserialize (tser c) (the b)") (simp_all split: if_splits)
  next
    case (History l)
    show ?thesis
      using assms getTreeList_world [of c l w] unfolding asyncChild_def childOutcome_def Let_def History
      by (simp add: getMultiTreeValueFromAsyncIterable_def case_prod_unfold split: if_splits)
  qed
qed

lemma asyncChild_depth:
  "(Inr (Some t), w') = asyncChild c now nodeRef k w \<Longrightarrow> async_depth c t < async_depth c (AsyncTreeRef nodeRef)"
  by (metis asyncChild_outcome childOutcome_depth)

text \<open>
  The recursive generator and its two loops, over the children of an asynchronous tree and of a
  tree in memory. Only the second one pushes to the list, which is never read.
\<close>

function (sequential) asyncTreePostOrderTraversalRecursive ::
  "('v, 's, 'm) cache \<Rightarrow> (async_post_entry \<Rightarrow> 'l \<Rightarrow> 'l) \<Rightarrow> int
   \<Rightarrow> (any_item \<Rightarrow> ('s, 'm) world \<Rightarrow> ('y, ('s, 'm) world) result)
   \<Rightarrow> any_tree \<Rightarrow> 'l \<Rightarrow> chained option \<Rightarrow> key option \<Rightarrow> 'y list \<Rightarrow> ('s, 'm) world
   \<Rightarrow> ('y list \<times> error option) \<times> 'l \<times> ('s, 'm) world"
and asyncPostKeys ::
  "('v, 's, 'm) cache \<Rightarrow> (async_post_entry \<Rightarrow> 'l \<Rightarrow> 'l) \<Rightarrow> int
   \<Rightarrow> (any_item \<Rightarrow> ('s, 'm) world \<Rightarrow> ('y, ('s, 'm) world) result)
   \<Rightarrow> (chained \<times> rvalue tree_value option) option \<Rightarrow> key list \<Rightarrow> 'l \<Rightarrow> chained option \<Rightarrow> 'y list \<Rightarrow> ('s, 'm) world
   \<Rightarrow> ('y list \<times> error option) \<times> 'l \<times> ('s, 'm) world"
and asyncPostKids ::
  "('v, 's, 'm) cache \<Rightarrow> (async_post_entry \<Rightarrow> 'l \<Rightarrow> 'l) \<Rightarrow> int
   \<Rightarrow> (any_item \<Rightarrow> ('s, 'm) world \<Rightarrow> ('y, ('s, 'm) world) result)
   \<Rightarrow> (key \<times> rvalue sync_tree) list \<Rightarrow> 'l \<Rightarrow> chained option \<Rightarrow> chained option \<Rightarrow> 'y list \<Rightarrow> ('s, 'm) world
   \<Rightarrow> ('y list \<times> error option) \<times> 'l \<times> ('s, 'm) world" where
  "asyncTreePostOrderTraversalRecursive c push now f treeRef list parentRef key out w =
     (let level = (case parentRef of None \<Rightarrow> 0 | Some p \<Rightarrow> ch_level p);
          node = map_option (\<lambda>k. createAnyItem k (level + 1) parentRef treeRef now) key;
          ref = (case node of None \<Rightarrow> parentRef | Some n \<Rightarrow> Some (ai_ref n))
      in
      case (case treeRef of
              AsyncTreeRef nodeRef \<Rightarrow>
                (case asyncKeys c nodeRef w of
                   Inl e \<Rightarrow> ((out, Some e), list, w)
                 | Inr ks \<Rightarrow> asyncPostKeys c push now f nodeRef ks list ref out w)
            | SyncRef t \<Rightarrow> asyncPostKids c push now f (sync_kids t) list (map_option ai_ref node) ref out w)
      of
        ((out, Some e), list, w) \<Rightarrow> ((out, Some e), list, w)
      | ((out, None), list, w) \<Rightarrow>
          (case yieldAll f (case node of None \<Rightarrow> [] | Some n \<Rightarrow> [n]) out w of (r, w) \<Rightarrow> (r, list, w)))"
| "asyncPostKeys c push now f nodeRef [] list ref out w = ((out, None), list, w)"
| "asyncPostKeys c push now f nodeRef (nextKey # ks) list ref out w =
     (case asyncChild c now nodeRef nextKey w of
        (Inl e, w) \<Rightarrow> ((out, Some e), list, w)
      | (Inr None, w) \<Rightarrow> asyncPostKeys c push now f nodeRef ks list ref out w
      | (Inr (Some nextValue), w) \<Rightarrow>
          (case asyncTreePostOrderTraversalRecursive c push now f nextValue list ref (Some nextKey) out w of
             ((out, Some e), list, w) \<Rightarrow> ((out, Some e), list, w)
           | ((out, None), list, w) \<Rightarrow> asyncPostKeys c push now f nodeRef ks list ref out w))"
| "asyncPostKids c push now f [] list node ref out w = ((out, None), list, w)"
| "asyncPostKids c push now f ((nextKey, nextTree) # siblings) list node ref out w =
     (case asyncTreePostOrderTraversalRecursive c push now f (SyncRef nextTree)
             (push (SyncRef nextTree, Some nextKey, node) list) ref (Some nextKey) out w of
        ((out, Some e), list, w) \<Rightarrow> ((out, Some e), list, w)
      | ((out, None), list, w) \<Rightarrow> asyncPostKids c push now f siblings list node ref out w)"
  by pat_completeness auto
termination
  by (relation "inv_image (lex_prod less_than (lex_prod less_than less_than))
      (case_sum (\<lambda>(c, push, now, f, t, list, p, key, out, w). (async_depth c t, Suc (any_size t), 0))
        (case_sum (\<lambda>(c, push, now, f, nodeRef, ks, list, ref, out, w). (async_depth c (AsyncTreeRef nodeRef), 0, length ks))
          (\<lambda>(c, push, now, f, ks, list, nd, ref, out, w).
             (0, Suc (sum_list (map (\<lambda>(k, t). Suc (sync_size t)) ks)), 0))))")
    (auto simp: sync_kids_size dest!: asyncChild_depth)

declare asyncTreePostOrderTraversalRecursive.simps [simp del]

definition asyncTreePostOrderTraversal ::
  "('v, 's, 'm) cache \<Rightarrow> (async_post_entry \<Rightarrow> 'l \<Rightarrow> 'l) \<Rightarrow> any_tree \<Rightarrow> 'l \<Rightarrow> chained option \<Rightarrow> int
   \<Rightarrow> (any_item \<Rightarrow> ('s, 'm) world \<Rightarrow> ('y, ('s, 'm) world) result)
   \<Rightarrow> ('s, 'm) world \<Rightarrow> ('y list \<times> error option) \<times> ('s, 'm) world" where
  "asyncTreePostOrderTraversal c push treeRef list root now f w =
     (case asyncTreePostOrderTraversalRecursive c push now f treeRef list root None [] w of
        ((out, Some e), _, w) \<Rightarrow> ((out, Some e), w)
      | ((out, None), _, w) \<Rightarrow> yieldAll f (any_start_items root treeRef now) out w)"

definition asyncTreePostOrderBreadthFirstSearch ::
  "('v, 's, 'm) cache \<Rightarrow> any_tree \<Rightarrow> chained option \<Rightarrow> int
   \<Rightarrow> (any_item \<Rightarrow> ('s, 'm) world \<Rightarrow> ('y, ('s, 'm) world) result)
   \<Rightarrow> ('s, 'm) world \<Rightarrow> (('y list \<times> error option) \<times> ('s, 'm) world) option" where
  "asyncTreePostOrderBreadthFirstSearch c tree parentRef now f w =
     Some (asyncTreePostOrderTraversal c (asyncQueue_push \<circ> Inl)
       tree (queue_new :: (async_post_entry, child_iter) async_queue) parentRef now f w)"

definition asyncTreePostOrderDepthFirstSearch ::
  "('v, 's, 'm) cache \<Rightarrow> any_tree \<Rightarrow> chained option \<Rightarrow> int
   \<Rightarrow> (any_item \<Rightarrow> ('s, 'm) world \<Rightarrow> ('y, ('s, 'm) world) result)
   \<Rightarrow> ('s, 'm) world \<Rightarrow> (('y list \<times> error option) \<times> ('s, 'm) world) option" where
  "asyncTreePostOrderDepthFirstSearch c tree parentRef now f w =
     Some (asyncTreePostOrderTraversal c array_push tree [] parentRef now f w)"

section \<open>The children as an iterator\<close>

definition child_rest :: "('v, 's, 'm) cache \<Rightarrow> 's \<Rightarrow> int \<Rightarrow> child_iter \<Rightarrow> async_entry outcome list" where
  "child_rest c s now it =
     map (map_sum id (child_entry (ci_level it) (ci_node it)))
       (case ci_keys it of
          None \<Rightarrow> any_children c s now (AsyncTreeRef (ci_nodeRef it))
        | Some ks \<Rightarrow> childOutcomes c s now (ci_nodeRef it) ks)"

lemma pullChild_outcome:
  "w_store w = s \<Longrightarrow>
   \<exists>r ks' w'. pullChild c now nodeRef ks w = (r, ks', w') \<and> w_store w' = s \<and>
     (case childOutcomes c s now nodeRef ks of
        [] \<Rightarrow> r = Inr None
      | Inl e # os \<Rightarrow> r = Inl e
      | Inr x # os \<Rightarrow> r = Inr (Some x) \<and> childOutcomes c s now nodeRef ks' = os)"
proof (induction ks arbitrary: w)
  case (Cons k ks)
  obtain r w1 where child: "asyncChild c now nodeRef k w = (r, w1)" by fastforce
  with asyncChild_outcome [OF child] Cons.prems have r: "childOutcome c s now nodeRef k = r" "w_store w1 = s" by auto
  show ?case
  proof (cases r)
    case (Inr t)
    then show ?thesis
      using child r Cons.IH [OF r(2)] by (cases t) auto
  qed (use child r in simp)
qed simp

lemma childOutcomes_length: "length (childOutcomes c s now nodeRef ks) \<le> length ks"
  by (induction ks) (auto split: sum.splits option.splits)

lemma asyncKeys_children:
  "any_children c (w_store w) now (AsyncTreeRef nodeRef) =
     (case asyncKeys c nodeRef w of Inl e \<Rightarrow> [Inl e] | Inr ks \<Rightarrow> childOutcomes c (w_store w) now nodeRef ks)"
  by (simp add: asyncKeys_def split: option.splits)

lemma pushIterable_next_outcome:
  assumes w: "w_store w = s"
  shows "\<exists>r it' w'. it_next (childIterator c now) it w = (r, it', w') \<and> w_store w' = s \<and>
     (case child_rest c s now it of
        [] \<Rightarrow> r = Inr None
      | Inl e # os \<Rightarrow> r = Inl e
      | Inr x # os \<Rightarrow> r = Inr (Some x) \<and> child_rest c s now it' = os)"
proof -
  let ?h = "map_sum id (child_entry (ci_level it) (ci_node it))"
  let ?keys = "case ci_keys it of None \<Rightarrow> asyncKeys c (ci_nodeRef it) w | Some ks \<Rightarrow> Inr ks"
  have rest: "child_rest c s now it
      = map ?h (case ?keys of Inl e \<Rightarrow> [Inl e] | Inr ks \<Rightarrow> childOutcomes c s now (ci_nodeRef it) ks)"
    using asyncKeys_children [of c w now "ci_nodeRef it"] w by (auto simp: child_rest_def split: option.splits)
  show ?thesis
  proof (cases ?keys)
    case (Inl e)
    with rest w show ?thesis by (simp add: childIterator_def pushIterable_next_def)
  next
    case (Inr ks)
    from pullChild_outcome [OF w, of c now "ci_nodeRef it" ks] obtain r ks' w'
      where pull: "pullChild c now (ci_nodeRef it) ks w = (r, ks', w')" "w_store w' = s"
        and cases: "case childOutcomes c s now (ci_nodeRef it) ks of
            [] \<Rightarrow> r = Inr None | Inl e # os \<Rightarrow> r = Inl e
          | Inr x # os \<Rightarrow> r = Inr (Some x) \<and> childOutcomes c s now (ci_nodeRef it) ks' = os" by blast
    have n: "it_next (childIterator c now) it w
        = (map_sum id (map_option (child_entry (ci_level it) (ci_node it))) r, it\<lparr>ci_keys := Some ks'\<rparr>, w')"
      using Inr pull by (simp add: childIterator_def pushIterable_next_def)
    show ?thesis
      using rest Inr cases n pull(2)
      by (cases "childOutcomes c s now (ci_nodeRef it) ks" rule: oks.cases) (auto simp: child_rest_def)
  qed
qed

lemma child_rest_bound: "w_store w = s \<Longrightarrow> length (child_rest c s now it) \<le> it_bound (childIterator c now) it w"
  using childOutcomes_length [of c s now "ci_nodeRef it"] asyncKeys_children [of c w now "ci_nodeRef it"]
  by (auto simp: child_rest_def childIterator_def split: option.splits sum.splits)

interpretation child_iterator: async_iterator "childIterator c now" "child_rest c s now" "\<lambda>w. w_store w = s" for c now s
proof (unfold_locales, goal_cases)
  case (1 w i)
  with pushIterable_next_outcome [OF 1(1), of c now i] show ?case by auto
next
  case (2 w i x os)
  with pushIterable_next_outcome [OF 2(1), of c now i] show ?case by auto
next
  case (3 w i e os)
  with pushIterable_next_outcome [OF 3(1), of c now i] show ?case by auto
next
  case (4 w i)
  then show ?case by (rule child_rest_bound)
qed

section \<open>Entries and items over the represented tree\<close>

definition abs_entry :: "('v, 's, 'm) cache \<Rightarrow> 's \<Rightarrow> int \<Rightarrow> async_entry \<Rightarrow> rvalue tree_value entry" where
  "abs_entry c s now = (\<lambda>(t, level, key, parentRef). (storedTree c s now t, level, key, parentRef))"

definition abs_item :: "('v, 's, 'm) cache \<Rightarrow> 's \<Rightarrow> int \<Rightarrow> any_item \<Rightarrow> rvalue tree_value item" where
  "abs_item c s now i =
     createTraversalItem (ch_key (ai_ref i)) (ch_level (ai_ref i)) (ch_parentRef (ai_ref i))
       (storedTree c s now (ai_tree i)) now"

definition entry_children :: "('v, 's, 'm) cache \<Rightarrow> 's \<Rightarrow> int \<Rightarrow> async_entry \<Rightarrow> async_entry outcome list" where
  "entry_children c s now e =
     map (map_sum id (child_entry (fst (snd e)) (snd (any_visit now e)))) (any_children c s now (fst e))"

lemma oks_map [simp]:
  "oks (map (map_sum id h) os) = map h (oks os)" "first_fail (map (map_sum id h) os) = first_fail os"
  by (induction os rule: oks.induct) auto

lemma abs_item_create [simp]:
  "abs_item c s now (createAnyItem k l p t now) = createTraversalItem k l p (storedTree c s now t) now"
  by (simp add: abs_item_def)

lemma abs_visit:
  "map (abs_item c s now) (fst (any_visit now e)) = fst (pre_visit now (abs_entry c s now e))"
  "snd (any_visit now e) = snd (pre_visit now (abs_entry c s now e))"
  by (auto simp: any_visit_def pre_visit_def abs_entry_def Let_def split: prod.splits option.splits)

lemma abs_next_entries:
  "next_entries now (abs_entry c s now e) = map (abs_entry c s now) (oks (entry_children c s now e))"
proof -
  obtain t l k p where e: "e = (t, l, k, p)" by (cases e) auto
  have "next_entries now (abs_entry c s now e)
      = map (\<lambda>(k', u). (u, l + 1, Some k', snd (any_visit now e))) (kids (storedTree c s now t))"
    unfolding abs_visit(2) [of now e c s] by (simp add: next_entries_def e abs_entry_def)
  then show ?thesis
    by (simp add: e entry_children_def kids_storedTree any_kids_def abs_entry_def child_entry_def comp_def case_prod_unfold)
qed

lemma abs_start [simp]:
  "map (abs_item c s now) (any_start_items p t now) = start_items p (storedTree c s now t) now"
  by (simp split: option.splits)

section \<open>Sequences cut short by an error\<close>

text \<open>The outcomes are the given sequence, or an initial part of it followed by an error.\<close>

definition approx :: "('x \<Rightarrow> 'y) \<Rightarrow> 'x outcome list \<Rightarrow> 'y list \<Rightarrow> bool" where
  "approx h os ys \<longleftrightarrow> prefix (map h (oks os)) ys \<and> (first_fail os = None \<longrightarrow> map h (oks os) = ys)"

lemma oks_append:
  "oks (os @ os') = (if first_fail os = None then oks os @ oks os' else oks os)"
  "first_fail (os @ os') = (if first_fail os = None then first_fail os' else first_fail os)"
  by (induction os rule: oks.induct) auto

lemma approx_append: "approx h os ys \<Longrightarrow> approx h os' ys' \<Longrightarrow> approx h (os @ os') (ys @ ys')"
  by (auto simp: approx_def oks_append prefix_def)

lemma approx_simps [simp]:
  "approx h [] ys \<longleftrightarrow> ys = []" "approx h (Inl e # os) ys"
  "approx h (Inr x # os) ys \<longleftrightarrow> (\<exists>zs. ys = h x # zs \<and> approx h os zs)"
  by (cases ys; auto simp: approx_def)+

lemma approx_oks [intro]: "approx h os (map h (oks os))"
  by (simp add: approx_def)

lemma approx_map [simp]: "approx h (map Inr xs) ys \<longleftrightarrow> ys = map h xs"
  by (auto simp: approx_def)

text \<open>What a consumer makes of the outcomes.\<close>

fun emit_all :: "('x \<Rightarrow> 'y outcome) \<Rightarrow> 'x outcome list \<Rightarrow> 'y list \<Rightarrow> 'y list \<times> error option" where
  "emit_all g [] out = (out, None)"
| "emit_all g (Inl e # os) out = (out, Some e)"
| "emit_all g (Inr x # os) out = (case g x of Inl e \<Rightarrow> (out, Some e) | Inr y \<Rightarrow> emit_all g os (out @ [y]))"

lemma emit_all_append:
  "emit_all g (os @ os') out =
     (case emit_all g os out of (out', None) \<Rightarrow> emit_all g os' out' | (out', Some e) \<Rightarrow> (out', Some e))"
  by (induction g os out rule: emit_all.induct) (auto split: sum.splits)

lemma emit_all_done: "emit_all g os out = (out', None) \<Longrightarrow> first_fail os = None"
  by (induction g os out rule: emit_all.induct) (auto split: sum.splits)

text \<open>
  The result of a search that goes over the items \<open>xs\<close>: the outputs for all of them, or, when some
  read fails, for an initial part of them. \<open>ok\<close> says that no read fails.
\<close>

definition searched ::
  "('x \<Rightarrow> 'y outcome) \<Rightarrow> 'x list \<Rightarrow> 'y list \<Rightarrow> bool \<Rightarrow> 'y list \<times> error option \<Rightarrow> bool" where
  "searched g xs out ok res \<longleftrightarrow>
     (\<exists>os. res = emit_all g os out \<and> approx (\<lambda>x. x) os xs) \<and> (ok \<longrightarrow> res = emit_all g (map Inr xs) out)"

lemma searched_all: "res = emit_all g (map Inr xs) out \<Longrightarrow> searched g xs out ok res"
  unfolding searched_def by (metis approx_map list.map_ident)

lemma searched_Nil [simp]: "searched g [] out ok (out, None)"
  by (rule searched_all) simp

lemma searched_read_error: "\<not> ok \<Longrightarrow> searched g xs out ok (out, Some e)"
  unfolding searched_def by (intro conjI exI [of _ "[Inl e]"]) simp_all

lemma searched_done:
  assumes "searched g xs out ok (out', None)"
  shows "emit_all g (map Inr xs) out = (out', None)"
proof -
  obtain os where os: "emit_all g os out = (out', None)" "approx (\<lambda>x. x) os xs"
    using assms by (auto simp: searched_def)
  with emit_all_done [OF os(1)] show ?thesis
    by (metis approx_def list.map_ident no_fail_eq)
qed

lemma searched_append:
  "emit_all g (map Inr xs) out = (out', None) \<Longrightarrow> searched g ys out' ok res \<Longrightarrow> searched g (xs @ ys) out ok res"
  unfolding searched_def
proof (elim conjE exE, intro conjI)
  fix os assume e: "emit_all g (map Inr xs) out = (out', None)" "res = emit_all g os out'" "approx (\<lambda>x. x) os ys"
  then have "res = emit_all g (map Inr xs @ os) out" "approx (\<lambda>x. x) (map Inr xs @ os) (xs @ ys)"
    by (auto simp: emit_all_append intro: approx_append)
  then show "\<exists>os. res = emit_all g os out \<and> approx (\<lambda>x. x) os (xs @ ys)" by blast
qed (auto simp: emit_all_append)

lemma searched_stop:
  assumes "searched g xs out ok (out', Some e)"
  shows "searched g (xs @ ys) out (ok \<and> ok') (out', Some e)"
proof -
  obtain os where os: "emit_all g os out = (out', Some e)" "approx (\<lambda>x. x) os xs"
    using assms by (auto simp: searched_def)
  have "emit_all g (os @ [Inl e]) out = (out', Some e)" "approx (\<lambda>x. x) (os @ [Inl e]) (xs @ ys)"
    using os(1) approx_append [OF os(2), of "[Inl e]" ys] by (simp_all add: emit_all_append)
  moreover have "ok \<longrightarrow> emit_all g (map Inr (xs @ ys)) out = (out', Some e)"
  proof
    assume ok
    with assms have "emit_all g (map Inr xs) out = (out', Some e)" by (simp add: searched_def)
    then show "emit_all g (map Inr (xs @ ys)) out = (out', Some e)" by (simp add: emit_all_append)
  qed
  ultimately show ?thesis unfolding searched_def by metis
qed

lemma searched_consumer_error:
  "emit_all g (map Inr xs) out = (out', Some e) \<Longrightarrow> searched g (xs @ ys) out ok (out', Some e)"
  using searched_stop [of g xs out True out' e ys ok] searched_all [of "(out', Some e)" g xs out True] by simp

lemma searched_weaken: "searched g xs out ok res \<Longrightarrow> (ok' \<Longrightarrow> ok) \<Longrightarrow> searched g xs out ok' res"
  by (auto simp: searched_def)

section \<open>Pushing children\<close>

context async_list
begin

lemma pushEntries_contents:
  "invar l \<Longrightarrow> good w \<Longrightarrow>
   \<exists>l' w'. pushEntries ops xs l w = Some (Inr l', w') \<and> invar l' \<and> good w' \<and> contents l' = contents l @ map Inr xs"
proof (induction xs arbitrary: l w)
  case (Cons x xs)
  from push_item [OF Cons.prems] obtain l1 w1
    where p: "al_push ops (Inl x) l w = Some (Inr l1, w1)" "invar l1" "good w1" "contents l1 = contents l @ [Inr x]"
    by blast
  from Cons.IH [OF p(2,3)] p show ?case by auto
qed simp

end

lemma child_rest_pushIterable:
  "child_rest c s now (pushIterable nodeRef level node)
   = map (map_sum id (child_entry level node)) (any_children c s now (AsyncTreeRef nodeRef))"
  by (simp add: child_rest_def pushIterable_def)

lemma entry_children_sync:
  "map Inr (map (\<lambda>(k, u). (SyncRef u, l + 1, Some k, snd (any_visit now (SyncRef t, l, k', p)))) (sync_kids t))
   = entry_children c s now (SyncRef t, l, k', p)"
  by (simp add: entry_children_def child_entry_def comp_def case_prod_unfold)

lemma push_children_queue:
  assumes "aq_invar q" "w_store w = s"
  shows "\<exists>q' w'. pushChildren (asyncQueue_ops (childIterator c now)) now e q w = Some (Inr q', w') \<and> aq_invar q'
    \<and> w_store w' = s \<and> aq_contents (child_rest c s now) q' = aq_contents (child_rest c s now) q @ entry_children c s now e"
proof -
  obtain t l k p where e: "e = (t, l, k, p)" by (cases e) auto
  show ?thesis
  proof (cases t)
    case (SyncRef u)
    show ?thesis
      unfolding pushChildren_def e SyncRef prod.case any_tree.case entry_children_sync [symmetric]
      by (rule child_iterator.as_queue.pushEntries_contents [OF assms])
  next
    case (AsyncTreeRef nr)
    show ?thesis
      using child_iterator.as_queue.push_lazily [OF assms, of c now "pushIterable nr l (snd (any_visit now e))"]
      by (simp add: pushChildren_def e AsyncTreeRef entry_children_def child_rest_pushIterable)
  qed
qed

lemma push_children_stack:
  assumes "w_store w = s"
  shows "\<exists>r w'. pushChildren (asyncStack_ops (childIterator c now)) now e l w = Some (r, w') \<and> w_store w' = s \<and>
     (case first_fail (entry_children c s now e) of
        None \<Rightarrow> r = Inr (l @ oks (entry_children c s now e)) | Some err \<Rightarrow> r = Inl err)"
proof -
  obtain t m k p where e: "e = (t, m, k, p)" by (cases e) auto
  show ?thesis
  proof (cases t)
    case (SyncRef u)
    let ?es = "map (\<lambda>(k', u). (SyncRef u, m + 1, Some k', snd (any_visit now e))) (sync_kids u)"
    have ec: "entry_children c s now e = map Inr ?es"
      unfolding e SyncRef entry_children_sync [symmetric] by simp
    then have "oks (entry_children c s now e) = ?es" "first_fail (entry_children c s now e) = None"
      by (simp_all only: oks_map_Inr)
    moreover from child_iterator.as_stack.pushEntries_contents [OF TrueI assms, of c now ?es l] obtain l' w'
      where p: "pushEntries (asyncStack_ops (childIterator c now)) ?es l w = Some (Inr l', w')" "w_store w' = s"
        and l': "(map Inr l' :: async_entry outcome list) = map Inr (l @ ?es)" by (metis map_append)
    moreover have "l' = l @ ?es" using l' by (metis oks_map_Inr(1))
    moreover have "pushChildren (asyncStack_ops (childIterator c now)) now e l w
        = pushEntries (asyncStack_ops (childIterator c now)) ?es l w"
      by (simp add: pushChildren_def e SyncRef)
    ultimately show ?thesis by simp
  next
    case (AsyncTreeRef nr)
    let ?it = "pushIterable nr m (snd (any_visit now e))"
    have r: "child_rest c s now ?it = entry_children c s now e"
      by (simp add: child_rest_pushIterable entry_children_def e AsyncTreeRef)
    have p: "pushChildren (asyncStack_ops (childIterator c now)) now e l w
        = addIterable (childIterator c now) (Suc (it_bound (childIterator c now) ?it w)) ?it l w"
      by (simp add: pushChildren_def e AsyncTreeRef asyncStack_ops_def asyncStack_push_def)
    have "length (child_rest c s now ?it) < Suc (it_bound (childIterator c now) ?it w)"
      using child_iterator.rest_bound [OF assms, of c now ?it] by simp
    from child_iterator.addIterable_outcome [OF assms this, of l] show ?thesis
      unfolding p r by (auto simp del: addIterable.simps split: option.splits)
  qed
qed

end
