(* ===== verification/Cache_Reads.thy ===== *)
theory Cache_Reads
  imports Cache_Internal
begin

text \<open>
  The reading operations of \<open>TreeKeyCache\<close> (\<open>src/tree-key-cache.ts\<close>): \<open>getNode\<close> and
  \<open>iteratePath\<close>. Both are related to one abstract reading of the cache, \<open>raw_at\<close>: the serialized
  value a path stands for, looked up under the chained key above \<open>keyLevelNodes\<close> and inside the
  stored tree from there on.
\<close>

section \<open>Operations\<close>

definition tv_truthy :: "rvalue tree_value option \<Rightarrow> bool" where
  "tv_truthy v \<longleftrightarrow> (case v of None \<Rightarrow> False | Some (Single r) \<Rightarrow> r \<noteq> [] | Some (MultiTreeValue _) \<Rightarrow> True)"

definition getNode ::
  "('v, 's, 'm) cache \<Rightarrow> path \<Rightarrow> int \<Rightarrow> ('s, 'm) world \<Rightarrow> ('v step option, ('s, 'm) world) result" where
  "getNode c path now w =
     and_then (getNodeRef c path False now w) (\<lambda>nodeRef w.
       case nodeRef of
         None \<Rightarrow> (Inr None, w)
       | Some item \<Rightarrow>
           if tv_truthy (si_value item)
           then and_then (getStep c (map_option TreeValue (si_value item)) (si_ref item) None w)
                  (\<lambda>s w. (Inr (Some s), w))
           else (Inr None, w))"

text \<open>
  The two loops of \<open>iteratePath\<close>; \<open>out\<close> collects what has been yielded. The first returns the
  last node reference, the second whether an error was thrown.
\<close>

function iterateKeys ::
  "('v, 's, 'm) cache \<Rightarrow> path \<Rightarrow> nat \<Rightarrow> int \<Rightarrow> nat \<Rightarrow> chained option \<Rightarrow> 'v step list \<Rightarrow> ('s, 'm) world
   \<Rightarrow> ('v step list \<times> (error + rvalue sync_item)) \<times> ('s, 'm) world" where
  "iterateKeys c path upTo now level nodeRef out w =
     (case getNextStorageNode path level nodeRef no_tree now of
        Inl e \<Rightarrow> ((out, Inl e), w)
      | Inr item \<Rightarrow>
          (case getMemoizedStep c (buildKey (si_ref item)) (si_ref item) w of
             (Inl e, w) \<Rightarrow> ((out, Inl e), w)
           | (Inr step, w) \<Rightarrow>
               (let out = (case step of None \<Rightarrow> out | Some s \<Rightarrow> out @ [s]) in
                if ch_level (si_ref item) < upTo
                then iterateKeys c path upTo now (Suc level) (Some (si_ref item)) out w
                else ((out, Inr item), w))))"
  by pat_completeness auto
termination
  by (relation "measure (\<lambda>(_, _, upTo, _, level, _). upTo - level)")
    (auto simp: getNextStorageNode_def split: sum.splits)

declare iterateKeys.simps [simp del]

definition yieldTreeValue ::
  "('v, 's, 'm) cache \<Rightarrow> int \<Rightarrow> rvalue sync_tree \<Rightarrow> chained \<Rightarrow> ('s, 'm) world
   \<Rightarrow> ('v step list, ('s, 'm) world) result" where
  "yieldTreeValue c now tree nodeRef w =
     (case sync_value tree now of
        None \<Rightarrow> (Inr [], w)
      | Some v \<Rightarrow> and_then (getStep c (Some (TreeValue v)) nodeRef None w) (\<lambda>s w. (Inr [s], w)))"

function iterateTree ::
  "('v, 's, 'm) cache \<Rightarrow> path \<Rightarrow> int \<Rightarrow> rvalue sync_item \<Rightarrow> rvalue sync_tree \<Rightarrow> 'v step list \<Rightarrow> ('s, 'm) world
   \<Rightarrow> ('v step list \<times> error option) \<times> ('s, 'm) world" where
  "iterateTree c path now nodeRef tree out w =
     (case yieldTreeValue c now tree (si_ref nodeRef) w of
        (Inl e, w) \<Rightarrow> ((out, Some e), w)
      | (Inr ys, w) \<Rightarrow>
          if ch_level (si_ref nodeRef) < length path then
            (case getNextTreeNode path (ch_level (si_ref nodeRef)) tree (Some (si_ref nodeRef)) no_tree now of
               Inl e \<Rightarrow> ((out @ ys, Some e), w)
             | Inr None \<Rightarrow> ((out @ ys, None), w)
             | Inr (Some (nodeRef', tree')) \<Rightarrow> iterateTree c path now nodeRef' tree' (out @ ys) w)
          else ((out @ ys, None), w))"
  by pat_completeness auto
termination
  by (relation "measure (\<lambda>(_, path, _, nodeRef, _). length path - ch_level (si_ref nodeRef))")
    (auto simp: getNextTreeNode_def split: sum.splits option.splits)

declare iterateTree.simps [simp del]

definition iteratePath ::
  "('v, 's, 'm) cache \<Rightarrow> path \<Rightarrow> int \<Rightarrow> ('s, 'm) world \<Rightarrow> ('v step list \<times> error option) \<times> ('s, 'm) world" where
  "iteratePath c path now w =
     (let upTo = min (keyLevelNodes c - 1) (length path) in
      if upTo > 0 then
        (case iterateKeys c path upTo now 0 None [] w of
           ((out, Inl e), w) \<Rightarrow> ((out, Some e), w)
         | ((out, Inr item), w) \<Rightarrow>
             if length path > ch_level (si_ref item) then
               (case getNextStorageNode path (ch_level (si_ref item)) (Some (si_ref item)) no_tree now of
                  Inl e \<Rightarrow> ((out, Some e), w)
                | Inr nodeRef \<Rightarrow>
                    (case getMemoizedTree c (buildKey (si_ref nodeRef)) now w of
                       (Inl e, w) \<Rightarrow> ((out, Some e), w)
                     | (Inr None, w) \<Rightarrow> ((out, None), w)
                     | (Inr (Some tree), w) \<Rightarrow> iterateTree c path now nodeRef tree out w))
             else ((out, None), w))
      else (([], None), w))"

section \<open>References of paths\<close>

abbreviation node_ref :: "path \<Rightarrow> chained" where
  "node_ref ks \<equiv> ChainedObject (last ks) (length ks) (path_ref (butlast ks))"

lemma path_ref_node: "ks \<noteq> [] \<Longrightarrow> path_ref ks = Some (node_ref ks)"
  by (cases ks rule: rev_cases) auto

lemma wf_chain_node_ref: "wf_chain r \<Longrightarrow> r = node_ref (chain_path r)"
proof (induction r rule: wf_chain.induct)
  case (2 k l p)
  then have "path_ref (chain_path p) = Some p" using path_ref_node [of "chain_path p"] by simp
  with 2 show ?case by (simp add: wf_chain_level)
qed simp

lemma chain_path_node_ref [simp]: "ks \<noteq> [] \<Longrightarrow> chain_path (node_ref ks) = ks"
  by simp

lemma buildKey_node_ref: "ks \<noteq> [] \<Longrightarrow> buildKey (node_ref ks) = join ks"
  by (simp add: buildKey_eq)

lemma node_ref_take:
  "level < length path \<Longrightarrow>
   ChainedObject (path ! level) (Suc level) (path_ref (take level path)) = node_ref (take (Suc level) path)"
  by (simp add: take_Suc_conv_app_nth)

lemma node_ref_step:
  "0 < l \<Longrightarrow> l < length path \<Longrightarrow>
   ChainedObject (path ! l) (Suc l) (Some (node_ref (take l path))) = node_ref (take (Suc l) path)"
proof -
  assume l: "0 < l" "l < length path"
  then have "take l path \<noteq> []" by auto
  from path_ref_node [OF this] node_ref_take [OF l(2)] show ?thesis by simp
qed

section \<open>The abstract reading\<close>

definition raw_at :: "('v, 's, 'm) cache \<Rightarrow> int \<Rightarrow> 's \<Rightarrow> path \<Rightarrow> rvalue option" where
  "raw_at c now s path =
     (if length path < keyLevelNodes c then st_get (c_storage c) s (join path)
      else (let b = st_get (c_storage c) s (join (take (keyLevelNodes c) path)) in
            if str_truthy b then
              (case ts_deserialize (tser c) (the b) of
                 Inl _ \<Rightarrow> None
               | Inr t \<Rightarrow> tree_at now t (drop (keyLevelNodes c) path))
            else None))"

definition decode :: "('v, 's, 'm) cache \<Rightarrow> rvalue \<Rightarrow> 'v option" where
  "decode c r = (case vs_deserialize (vser c) r of Inl _ \<Rightarrow> None | Inr v \<Rightarrow> v)"

text \<open>A cache without history and memoizer: reads go to the storage each time.\<close>

definition plain_cache :: "('v, 's, 'm) cache \<Rightarrow> bool" where
  "plain_cache c \<longleftrightarrow> st_getHistory (c_storage c) = None \<and> o_memoizer (c_options c) = None"

lemma plain_read:
  "plain_cache c \<Longrightarrow> readStorage c k w = Buffer (store_get c w k)"
  by (simp add: plain_cache_def readStorage_def getReadStorageFunction_def)

lemma plain_memoized:
  assumes "plain_cache c"
  shows "getMemoizedStep c k ref w = readStep c ref k w" "getMemoizedTree c k now w = readTree c now k w"
  using assms by (simp_all add: plain_cache_def getMemoizedStep_def getMemoizedTree_def getMemoized_def)

lemma getStep_single:
  "\<exists>w'. getStep c (Some (TreeValue (Single r))) ref f w = (Inr (mountStep ref (decode c r)), w')
     \<and> w_store w' = w_store w \<and> w_memo w' = w_memo w"
  by (simp add: getStep_def decode_def split: sum.splits)

lemma readStep_plain:
  assumes "plain_cache c"
  shows "\<exists>w'. readStep c ref k w
      = (Inr (case store_get c w k of None \<Rightarrow> None
              | Some r \<Rightarrow> if r = [] then None else Some (mountStep ref (decode c r))), w')
     \<and> w_store w' = w_store w \<and> w_memo w' = w_memo w"
  by (auto simp: readStep_def plain_read [OF assms] getStep_def decode_def
      split: option.splits sum.splits)

lemma readTree_plain:
  assumes "plain_cache c"
  shows "\<exists>w'. readTree c now k w
      = (Inr (if str_truthy (store_get c w k)
              then (case ts_deserialize (tser c) (the (store_get c w k)) of
                      Inl _ \<Rightarrow> None | Inr t \<Rightarrow> Some (PlainTree t))
              else None), w')
     \<and> w_store w' = w_store w \<and> w_memo w' = w_memo w"
  by (auto simp: readTree_def plain_read [OF assms] deserializeTree_def split: sum.splits)

section \<open>Walking down\<close>

lemma storageNode_result:
  assumes "level < upTo" "upTo \<le> length path"
  shows "storageNode path upTo now level (path_ref (take level path))
     = Inr (createSyncItem (last (take upTo path)) upTo (path_ref (butlast (take upTo path))) no_tree now)"
  using assms
proof (induction "upTo - level" arbitrary: level)
  case (Suc n)
  let ?p = "path_ref (take level path)"
  have next_item: "getNextStorageNode path level ?p no_tree now
      = Inr (createSyncItem (path ! level) (Suc level) ?p no_tree now)"
    using Suc.prems by (simp add: getNextStorageNode_def)
  show ?case
  proof (cases "Suc level < upTo")
    case True
    have "Some (si_ref (createSyncItem (path ! level) (Suc level) ?p no_tree now))
        = path_ref (take (Suc level) path)"
      using Suc.prems by (simp add: take_Suc_conv_app_nth)
    with True Suc.hyps Suc.prems show ?thesis
      by (subst storageNode.simps) (simp add: next_item)
  next
    case False
    with Suc.prems have "upTo = Suc level" by simp
    with Suc.prems show ?thesis
      by (subst storageNode.simps) (simp add: next_item take_Suc_conv_app_nth)
  qed
qed simp

lemma treeNode_result:
  assumes "si_ref nodeRef = node_ref (take l path)" "0 < l" "l \<le> length path"
  shows "case sync_lookup tree (drop l path) of
      None \<Rightarrow> treeNode path now nodeRef tree = Inr None
    | Some t \<Rightarrow> \<exists>i. treeNode path now nodeRef tree = Inr (Some (i, t)) \<and> si_ref i = node_ref path"
  using assms
proof (induction "length path - l" arbitrary: l nodeRef tree)
  case 0
  then show ?case by (subst treeNode.simps) simp
next
  case (Suc n)
  then have l: "l < length path" "ch_level (si_ref nodeRef) = l" by auto
  have d: "drop l path = path ! l # drop (Suc l) path" using l by (simp add: Cons_nth_drop_Suc)
  show ?case
  proof (cases "sync_child tree (path ! l)")
    case None
    with l d show ?thesis by (subst treeNode.simps) (simp add: getNextTreeNode_def)
  next
    case (Some u)
    let ?i = "createSyncItem (path ! l) (Suc l) (Some (si_ref nodeRef)) no_tree now"
    have step: "treeNode path now nodeRef tree = treeNode path now ?i u"
      using Some l by (subst treeNode.simps) (simp add: getNextTreeNode_def)
    have "si_ref ?i = node_ref (take (Suc l) path)"
      using Suc.prems l node_ref_step [of l path] by simp
    from Suc.hyps(1) [OF _ this, of u] Suc.hyps(2) l show ?thesis
      unfolding step by (simp add: d Some)
  qed
qed

section \<open>\<open>getNode\<close> computes the abstract reading\<close>

lemma tree_at_sync:
  "tree_at now t ks = r \<longleftrightarrow>
   (case sync_lookup (PlainTree t) ks of None \<Rightarrow> None | Some u \<Rightarrow> sync_value u now) = map_option Single r"
  by (cases "tree_lookup t ks"; cases r) (auto simp: tree_at_def)

lemma getNode_key_level:
  assumes c: "plain_cache c" and p: "path \<noteq> []" "length path < keyLevelNodes c"
  shows "\<exists>w'. getNode c path now w
     = (Inr (case raw_at c now (w_store w) path of None \<Rightarrow> None
         | Some r \<Rightarrow> if r = [] then None else Some (mountStep (node_ref path) (decode c r))), w')
     \<and> w_store w' = w_store w \<and> w_memo w' = w_memo w"
proof -
  have s: "storageNode path (length path) now 0 None
      = Inr (createSyncItem (last path) (length path) (path_ref (butlast path)) no_tree now)"
    using storageNode_result [of 0 "length path" path now] p by simp
  have m: "min (keyLevelNodes c) (length path) = length path" using p by simp
  have "getNodeRef c path False now w
      = (Inr (Some ((createSyncItem (last path) (length path) (path_ref (butlast path)) no_tree now)
           \<lparr>si_value := map_option Single (store_get c w (join path))\<rparr>)), w)"
    using p buildKey_node_ref [OF p(1)]
    by (simp add: getNodeRef_def m s plain_read [OF c] bufferValue_def)
  then show ?thesis
    using p by (auto simp: getNode_def raw_at_def tv_truthy_def createSyncItem_def getStep_def decode_def
        split: option.splits sum.splits)
qed

lemma getNodeRef_tree_level:
  assumes c: "plain_cache c" and k: "0 < keyLevelNodes c" "keyLevelNodes c \<le> length path"
    and tr: "str_truthy (store_get c w (join (take (keyLevelNodes c) path)))"
    and t: "ts_deserialize (tser c) (the (store_get c w (join (take (keyLevelNodes c) path)))) = Inr t"
  shows "\<exists>w'. getNodeRef c path False now w
     = (Inr (map_option (\<lambda>u. createSyncItem (last path) (length path) (path_ref (butlast path)) (PlainTree u) now)
          (tree_lookup t (drop (keyLevelNodes c) path))), w')
     \<and> w_store w' = w_store w \<and> w_memo w' = w_memo w"
proof -
  let ?k = "keyLevelNodes c" and ?kp = "take (keyLevelNodes c) path"
  let ?item = "createSyncItem (last ?kp) ?k (path_ref (butlast ?kp)) no_tree now"
  have ne: "?kp \<noteq> []" using k by auto
  have s: "storageNode path ?k now 0 None = Inr ?item"
    using storageNode_result [of 0 ?k path now] k by simp
  have key: "buildKey (si_ref ?item) = join ?kp"
    using buildKey_node_ref [OF ne] k by simp
  have m: "min ?k (length path) = ?k" using k by simp
  obtain w' where w': "readTree c now (join ?kp) w = (Inr (Some (PlainTree t)), w')"
    and st: "w_store w' = w_store w" "w_memo w' = w_memo w"
    using readTree_plain [OF c, of now "join ?kp" w] tr t by auto
  note gn = getNodeRef_def [of c path False now w] m s key plain_memoized [OF c] w'
  have tn: "case sync_lookup (PlainTree t) (drop ?k path) of
      None \<Rightarrow> treeNode path now ?item (PlainTree t) = Inr None
    | Some u \<Rightarrow> \<exists>i. treeNode path now ?item (PlainTree t) = Inr (Some (i, u)) \<and> si_ref i = node_ref path"
    using k by (intro treeNode_result) auto
  then show ?thesis
    using k key st by (cases "tree_lookup t (drop ?k path)") (auto simp: gn Let_def)
qed

lemma getNode_tree_level:
  assumes c: "plain_cache c" and k: "0 < keyLevelNodes c" "keyLevelNodes c \<le> length path"
  shows "\<exists>w'. getNode c path now w
     = (Inr (case raw_at c now (w_store w) path of None \<Rightarrow> None
         | Some r \<Rightarrow> if r = [] then None else Some (mountStep (node_ref path) (decode c r))), w')
     \<and> w_store w' = w_store w \<and> w_memo w' = w_memo w"
proof -
  let ?k = "keyLevelNodes c" and ?kp = "take (keyLevelNodes c) path"
  let ?item = "createSyncItem (last ?kp) ?k (path_ref (butlast ?kp)) no_tree now"
  have ne: "?kp \<noteq> []" using k by auto
  have s: "storageNode path ?k now 0 None = Inr ?item"
    using storageNode_result [of 0 ?k path now] k by simp
  have key: "buildKey (si_ref ?item) = join ?kp"
    using buildKey_node_ref [OF ne] k by simp
  have m: "min ?k (length path) = ?k" using k by simp
  obtain w' where w': "readTree c now (join ?kp) w
      = (Inr (if str_truthy (store_get c w (join ?kp))
              then (case ts_deserialize (tser c) (the (store_get c w (join ?kp))) of
                      Inl _ \<Rightarrow> None | Inr t \<Rightarrow> Some (PlainTree t))
              else None), w')" and st: "w_store w' = w_store w" "w_memo w' = w_memo w"
    using readTree_plain [OF c] by blast
  note gn = getNodeRef_def [of c path False now w] m s key plain_memoized [OF c] w'
  show ?thesis
  proof (cases "str_truthy (store_get c w (join ?kp)) \<and>
      (\<exists>t. ts_deserialize (tser c) (the (store_get c w (join ?kp))) = Inr t)")
    case False
    then have "getNodeRef c path False now w = (Inr (Some ?item), w')"
      using k key by (auto simp: gn Let_def split: sum.splits)
    moreover have "raw_at c now (w_store w) path = None"
      using False k by (auto simp: raw_at_def Let_def split: sum.splits)
    ultimately show ?thesis
      using st by (simp add: getNode_def tv_truthy_def)
  next
    case True
    then obtain t where t: "ts_deserialize (tser c) (the (store_get c w (join ?kp))) = Inr t"
      and tr: "str_truthy (store_get c w (join ?kp))" by blast
    have raw: "raw_at c now (w_store w) path = tree_at now t (drop ?k path)"
      using t tr k by (simp add: raw_at_def Let_def)
    from getNodeRef_tree_level [OF c k tr t, of now] obtain w1 where "getNodeRef c path False now w
        = (Inr (map_option (\<lambda>u. createSyncItem (last path) (length path) (path_ref (butlast path)) (PlainTree u) now)
            (tree_lookup t (drop ?k path))), w1)" "w_store w1 = w_store w" "w_memo w1 = w_memo w" by blast
    then show ?thesis
      by (cases "tree_lookup t (drop ?k path)")
        (auto simp: getNode_def raw tree_at_def tv_truthy_def getStep_def decode_def split: option.splits sum.splits)
  qed
qed

lemma getNode_raw_at:
  assumes "plain_cache c" "path \<noteq> []" "0 < keyLevelNodes c"
  shows "\<exists>w'. getNode c path now w
     = (Inr (case raw_at c now (w_store w) path of None \<Rightarrow> None
         | Some r \<Rightarrow> if r = [] then None else Some (mountStep (node_ref path) (decode c r))), w')
     \<and> w_store w' = w_store w \<and> w_memo w' = w_memo w"
  using getNode_key_level [of c path now w] getNode_tree_level [of c path now w] assms
  by (cases "length path < keyLevelNodes c") auto

section \<open>\<open>iteratePath\<close> yields the prefixes that have a value\<close>

definition shown :: "('v, 's, 'm) cache \<Rightarrow> int \<Rightarrow> 's \<Rightarrow> path \<Rightarrow> 'v step list" where
  "shown c now s path = (case raw_at c now s path of None \<Rightarrow> []
     | Some r \<Rightarrow> if r = [] \<and> length path < keyLevelNodes c then []
                else [mountStep (node_ref path) (decode c r)])"

lemma iterateKeys_result:
  assumes c: "plain_cache c"
  shows "level < upTo \<Longrightarrow> upTo \<le> length path \<Longrightarrow> upTo < keyLevelNodes c \<Longrightarrow>
    \<exists>w'. iterateKeys c path upTo now level (path_ref (take level path)) out w
      = ((out @ concat (map (\<lambda>i. shown c now (w_store w) (take i path)) [Suc level..<Suc upTo]),
          Inr (createSyncItem (last (take upTo path)) upTo (path_ref (butlast (take upTo path))) no_tree now)), w')
      \<and> w_store w' = w_store w \<and> w_memo w' = w_memo w"
proof (induction "upTo - level" arbitrary: level out w)
  case (Suc n)
  let ?p = "path_ref (take level path)"
  let ?item = "createSyncItem (path ! level) (Suc level) ?p no_tree now"
  let ?kp = "take (Suc level) path"
  have l: "level < length path" "?kp \<noteq> []" using Suc.prems by auto
  have item: "getNextStorageNode path level ?p no_tree now = Inr ?item"
    using l by (simp add: getNextStorageNode_def)
  have ref: "si_ref ?item = node_ref ?kp" using node_ref_take [OF l(1)] by simp
  then have key: "buildKey (si_ref ?item) = join ?kp" using buildKey_node_ref [OF l(2)] by simp
  obtain w1 where w1: "readStep c (node_ref ?kp) (join ?kp) w
      = (Inr (case store_get c w (join ?kp) of None \<Rightarrow> None
              | Some r \<Rightarrow> if r = [] then None else Some (mountStep (node_ref ?kp) (decode c r))), w1)"
    and st1: "w_store w1 = w_store w" "w_memo w1 = w_memo w"
    using readStep_plain [OF c] by blast
  let ?out = "out @ shown c now (w_store w) ?kp"
  have out: "(case (case store_get c w (join ?kp) of None \<Rightarrow> None
              | Some r \<Rightarrow> if r = [] then None else Some (mountStep (node_ref ?kp) (decode c r)))
      of None \<Rightarrow> out | Some s \<Rightarrow> out @ [s]) = ?out"
    using Suc.prems l by (auto simp: shown_def raw_at_def split: option.splits)
  have unfold: "iterateKeys c path upTo now level ?p out w =
      (if Suc level < upTo then iterateKeys c path upTo now (Suc level) (path_ref ?kp) ?out w1
       else ((?out, Inr ?item), w1))"
  proof -
    have len: "length ?kp = Suc level" using l by simp
    show ?thesis
      by (subst iterateKeys.simps, simp only: item sum.case ref)
        (simp only: plain_memoized [OF c] buildKey_node_ref [OF l(2)] w1 prod.case sum.case Let_def out
          chained.sel path_ref_node [OF l(2)], simp only: len)
  qed
  show ?case
  proof (cases "Suc level < upTo")
    case True
    have n: "n = upTo - Suc level" using Suc.hyps(2) by simp
    obtain w' where "iterateKeys c path upTo now (Suc level) (path_ref ?kp) ?out w1
      = ((?out @ concat (map (\<lambda>i. shown c now (w_store w1) (take i path)) [Suc (Suc level)..<Suc upTo]),
          Inr (createSyncItem (last (take upTo path)) upTo (path_ref (butlast (take upTo path))) no_tree now)), w')"
      "w_store w' = w_store w1" "w_memo w' = w_memo w1"
      using Suc.hyps(1) [OF n True Suc.prems(2,3), of ?out w1] by blast
    moreover have "[Suc level..<Suc upTo] = Suc level # [Suc (Suc level)..<Suc upTo]"
      using True by (simp add: upt_conv_Cons del: upt_Suc)
    ultimately show ?thesis
      using True st1 by (simp add: unfold del: upt_Suc)
  next
    case False
    then have u: "upTo = Suc level" using Suc.prems by simp
    have "?item = createSyncItem (last ?kp) (Suc level) (path_ref (butlast ?kp)) no_tree now"
      using l by (simp add: take_Suc_conv_app_nth)
    with st1 unfold show ?thesis by (simp add: u)
  qed
qed simp

lemma yieldTreeValue_plain:
  "\<exists>w'. yieldTreeValue c now (PlainTree t) ref w
      = (Inr (case getTreeCurrentSerializedValue t now of None \<Rightarrow> []
              | Some r \<Rightarrow> [mountStep ref (decode c r)]), w')
      \<and> w_store w' = w_store w \<and> w_memo w' = w_memo w"
  by (auto simp: yieldTreeValue_def getStep_def decode_def split: option.splits sum.splits)

lemma iterateTree_result:
  "si_ref nodeRef = node_ref (take l path) \<Longrightarrow> 0 < l \<Longrightarrow> l \<le> length path \<Longrightarrow>
    \<exists>w'. iterateTree c path now nodeRef (PlainTree t) out w
      = ((out @ concat (map (\<lambda>i. case tree_at now t (drop l (take i path)) of None \<Rightarrow> []
            | Some r \<Rightarrow> [mountStep (node_ref (take i path)) (decode c r)]) [l..<Suc (length path)]), None), w')
      \<and> w_store w' = w_store w \<and> w_memo w' = w_memo w"
proof (induction "length path - l" arbitrary: l nodeRef t out w)
  case 0
  then show ?case
    using yieldTreeValue_plain [of c now t "si_ref nodeRef" w]
    by (subst iterateTree.simps) (auto split: option.splits)
next
  case (Suc n)
  then have l: "l < length path" "ch_level (si_ref nodeRef) = l" by auto
  let ?ys = "case getTreeCurrentSerializedValue t now of None \<Rightarrow> []
              | Some r \<Rightarrow> [mountStep (si_ref nodeRef) (decode c r)]"
  obtain w1 where w1: "yieldTreeValue c now (PlainTree t) (si_ref nodeRef) w = (Inr ?ys, w1)"
    "w_store w1 = w_store w" "w_memo w1 = w_memo w"
    using yieldTreeValue_plain by blast
  let ?f = "\<lambda>l t i. case tree_at now t (drop l (take i path)) of None \<Rightarrow> []
            | Some r \<Rightarrow> [mountStep (node_ref (take i path)) (decode c r)]"
  have rng: "[l..<Suc (length path)] = l # [Suc l..<Suc (length path)]"
    using l by (simp add: upt_conv_Cons del: upt_Suc)
  have "?f l t l = ?ys" using Suc.prems by (auto split: option.splits)
  then have split: "concat (map (?f l t) [l..<Suc (length path)])
      = ?ys @ concat (map (?f l t) [Suc l..<Suc (length path)])"
    unfolding rng by (simp only: list.map concat.simps)
  have at: "tree_at now t (drop l (take i path))
      = (case tree_child t (path ! l) of None \<Rightarrow> None | Some u \<Rightarrow> tree_at now u (drop (Suc l) (take i path)))"
    if "i \<in> set [Suc l..<Suc (length path)]" for i
  proof -
    have "drop l (take i path) = path ! l # drop (Suc l) (take i path)"
      using that l by (subst Cons_nth_drop_Suc [symmetric]) (auto simp del: upt_Suc)
    then show ?thesis by simp
  qed
  show ?case
  proof (cases "tree_child t (path ! l)")
    case None
    then have "map (?f l t) [Suc l..<Suc (length path)] = map (\<lambda>_. []) [Suc l..<Suc (length path)]"
      using at by (intro map_cong refl) (simp del: upt_Suc)
    then have "concat (map (?f l t) [Suc l..<Suc (length path)]) = []"
      by (simp del: upt_Suc)
    moreover have "iterateTree c path now nodeRef (PlainTree t) out w = ((out @ ?ys, None), w1)"
      using l None w1(1) by (subst iterateTree.simps) (simp add: getNextTreeNode_def)
    ultimately show ?thesis
      unfolding split using w1(2,3) by (simp del: upt_Suc concat_eq_Nil_conv)
  next
    case (Some u)
    let ?i = "createSyncItem (path ! l) (Suc l) (Some (si_ref nodeRef)) no_tree now"
    have "map (?f l t) [Suc l..<Suc (length path)] = map (?f (Suc l) u) [Suc l..<Suc (length path)]"
      using at Some by (intro map_cong refl) (simp del: upt_Suc)
    then have m: "concat (map (?f l t) [Suc l..<Suc (length path)])
        = concat (map (?f (Suc l) u) [Suc l..<Suc (length path)])"
      by (rule arg_cong)
    have step: "iterateTree c path now nodeRef (PlainTree t) out w
        = iterateTree c path now ?i (PlainTree u) (out @ ?ys) w1"
      using l Some w1(1) by (subst iterateTree.simps) (simp add: getNextTreeNode_def)
    have ref: "si_ref ?i = node_ref (take (Suc l) path)"
      using Suc.prems l node_ref_step [of l path] by simp
    have n: "n = length path - Suc l" "Suc l \<le> length path" using Suc.hyps(2) l by auto
    show ?thesis
      using Suc.hyps(1) [OF n(1) ref zero_less_Suc n(2), of u "out @ ?ys" w1]
      unfolding split m step append_assoc w1(2,3) .
  qed
qed

lemma shown_tree_level:
  assumes "keyLevelNodes c \<le> length ks"
  shows "shown c now s ks =
     (let b = st_get (c_storage c) s (join (take (keyLevelNodes c) ks)) in
      if str_truthy b then
        (case ts_deserialize (tser c) (the b) of
           Inl _ \<Rightarrow> []
         | Inr t \<Rightarrow> (case tree_at now t (drop (keyLevelNodes c) ks) of None \<Rightarrow> []
             | Some r \<Rightarrow> [mountStep (node_ref ks) (decode c r)]))
      else [])"
  using assms by (auto simp: shown_def raw_at_def Let_def split: option.splits sum.splits)

lemma iteratePath_keys_only:
  assumes c: "plain_cache c" and p: "path \<noteq> []" "length path < keyLevelNodes c"
  shows "\<exists>w'. iteratePath c path now w
     = ((concat (map (\<lambda>i. shown c now (w_store w) (take i path)) [1..<Suc (length path)]), None), w')
     \<and> w_store w' = w_store w \<and> w_memo w' = w_memo w"
proof -
  have m: "min (keyLevelNodes c - 1) (length path) = length path" using p by simp
  show ?thesis
    unfolding iteratePath_def m
    using iterateKeys_result [OF c, of 0 "length path" path now "[]" w] p by auto
qed

lemma iteratePath_tree_level:
  assumes c: "plain_cache c" and k: "2 \<le> keyLevelNodes c" "keyLevelNodes c \<le> length path"
  shows "\<exists>w'. iteratePath c path now w
     = ((concat (map (\<lambda>i. shown c now (w_store w) (take i path)) [1..<Suc (length path)]), None), w')
     \<and> w_store w' = w_store w \<and> w_memo w' = w_memo w"
proof -
  let ?u = "keyLevelNodes c - 1" and ?k = "keyLevelNodes c"
  let ?up = "take ?u path" and ?kp = "take ?k path"
  let ?sh = "\<lambda>i. shown c now (w_store w) (take i path)"
  let ?out = "concat (map ?sh [1..<?k])"
  let ?item = "createSyncItem (last ?up) ?u (path_ref (butlast ?up)) no_tree now"
  let ?node = "createSyncItem (path ! ?u) ?k (Some (si_ref ?item)) no_tree now"
  have m: "min ?u (length path) = ?u" using k by simp
  have up: "?up \<noteq> []" "?kp \<noteq> []" "?u < length path" "Suc ?u = ?k" using k by auto
  obtain w1 where w1: "iterateKeys c path ?u now 0 None [] w = ((?out, Inr ?item), w1)"
    and st1: "w_store w1 = w_store w" "w_memo w1 = w_memo w"
    using iterateKeys_result [OF c, of 0 ?u path now "[]" w] k less_imp_le [OF up(3)]
    by (auto simp: up(4) simp del: upt_Suc)
  have ref: "si_ref ?node = node_ref ?kp"
    using node_ref_step [of ?u path] k up by (auto simp: min_def)
  then have key: "buildKey (si_ref ?node) = join ?kp" using buildKey_node_ref [OF up(2)] by simp
  have nxt: "getNextStorageNode path ?u (Some (si_ref ?item)) no_tree now = Inr ?node"
    using up by (simp add: getNextStorageNode_def)
  have lvl: "ch_level (si_ref ?item) = ?u" by simp
  let ?b = "st_get (c_storage c) (w_store w) (join ?kp)"
  let ?tree = "if str_truthy ?b then (case ts_deserialize (tser c) (the ?b) of
      Inl _ \<Rightarrow> None | Inr t \<Rightarrow> Some t) else None"
  obtain w2 where w2: "getMemoizedTree c (buildKey (si_ref ?node)) now w1 = (Inr (map_option PlainTree ?tree), w2)"
    and st2: "w_store w2 = w_store w" "w_memo w2 = w_memo w"
    using readTree_plain [OF c, of now "join ?kp" w1] st1
    unfolding key plain_memoized [OF c] by (auto split: sum.splits if_splits)
  have run: "iteratePath c path now w =
      (case ?tree of None \<Rightarrow> ((?out, None), w2) | Some t \<Rightarrow> iterateTree c path now ?node (PlainTree t) ?out w2)"
    unfolding iteratePath_def Let_def m
    using up(3) k by (simp only: w1 prod.case sum.case lvl nxt w2) (simp split: option.splits)
  have sh: "?sh i = (case ?tree of None \<Rightarrow> [] | Some t \<Rightarrow> (case tree_at now t (drop ?k (take i path)) of
      None \<Rightarrow> [] | Some r \<Rightarrow> [mountStep (node_ref (take i path)) (decode c r)]))"
    if "i \<in> set [?k..<Suc (length path)]" for i
    using that shown_tree_level [of c "take i path" now "w_store w"]
    by (auto simp: Let_def min_def split: sum.splits simp del: upt_Suc)
  have rng: "concat (map ?sh [1..<Suc (length path)]) = ?out @ concat (map ?sh [?k..<Suc (length path)])"
    using k upt_add_eq_append [of 1 ?k "Suc (length path) - ?k"] by (simp del: upt_Suc)
  show ?thesis
  proof (cases ?tree)
    case None
    then have none: "concat (map ?sh [?k..<Suc (length path)]) = []"
      using sh by (auto simp del: upt_Suc)
    show ?thesis
      unfolding run rng none None option.case append_Nil2 using st2 by blast
  next
    case (Some t)
    have m: "map ?sh [?k..<Suc (length path)] = map (\<lambda>i. case tree_at now t (drop ?k (take i path)) of
        None \<Rightarrow> [] | Some r \<Rightarrow> [mountStep (node_ref (take i path)) (decode c r)]) [?k..<Suc (length path)]"
      using sh Some by (intro map_cong refl) (simp del: upt_Suc)
    have "0 < ?k" using k by simp
    with iterateTree_result [OF ref _ k(2), of c now t ?out w2] show ?thesis
      unfolding run rng m Some option.case st2 by blast
  qed
qed

lemma iteratePath_result:
  assumes "plain_cache c" "2 \<le> keyLevelNodes c" "path \<noteq> []"
  shows "\<exists>w'. iteratePath c path now w
     = ((concat (map (\<lambda>i. shown c now (w_store w) (take i path)) [1..<Suc (length path)]), None), w')
     \<and> w_store w' = w_store w \<and> w_memo w' = w_memo w"
  using iteratePath_keys_only [of c path now w] iteratePath_tree_level [of c path now w] assms
  by (cases "length path < keyLevelNodes c") auto

end
