(* ===== verification/Cache_Writes.thy ===== *)
theory Cache_Writes
  imports Cache_Reads
begin

text \<open>
  The writing operations: \<open>deepTreeSet\<close>, \<open>setNode\<close> and \<open>fullTreeSet\<close> of \<open>TreeKeyCache\<close>, and
  \<open>saveFullTreeValue\<close> of \<open>TreeInternalControl\<close> with its helpers.

  \<open>deepTreeSet\<close> and \<open>fullTreeSet\<close> are async generators: they yield a step, the body of the caller's
  \<open>for await\<close> loop runs, may assign \<open>step.value\<close>, leave the loop or throw, and only then the
  generator goes on to persist the step. The body is a function from the steps seen so far and the
  current step to a reply; leaving the loop and throwing both close the generator, which runs its
  \<open>finally\<close> blocks. The release that \<open>acquire\<close> resolves to is the event \<open>ScheduleRelease\<close> of handing it to \<open>dontWait\<close>.
\<close>

section \<open>Generators and their callers\<close>

text \<open>What the loop body does with a step: go on with the value the step has then, or stop.\<close>

datatype 'v reply = Resume "'v option" | Break | Raise error

datatype halt = Broke | Threw error

type_synonym ('x, 'i, 'w) gen = "(halt + 'x) \<times> 'i list \<times> 'w"

definition yield_item ::
  "(('v, 'z) step_scheme list \<Rightarrow> ('v, 'z) step_scheme \<Rightarrow> 'v reply) \<Rightarrow> ('v, 'z) step_scheme
   \<Rightarrow> ('v, 'z) step_scheme list \<times> 'w \<Rightarrow> (('v, 'z) step_scheme, ('v, 'z) step_scheme, 'w) gen" where
  "yield_item body step g = (case g of (out, w) \<Rightarrow>
     (case body out step of
        Resume v \<Rightarrow> (Inr (step\<lparr>step_value := v\<rparr>), out @ [step\<lparr>step_value := v\<rparr>], w)
      | Break \<Rightarrow> (Inl Broke, out @ [step], w)
      | Raise e \<Rightarrow> (Inl (Threw e), out @ [step], w)))"

text \<open>A call of a method inside a generator: what it throws is thrown by the generator.\<close>

definition call :: "(error + 'x) \<times> 'w \<Rightarrow> 'i list \<Rightarrow> ('x, 'i, 'w) gen" where
  "call r out = (case r of (Inl e, w) \<Rightarrow> (Inl (Threw e), out, w) | (Inr x, w) \<Rightarrow> (Inr x, out, w))"

text \<open>\<open>const release = cond ? await acquire(key) : undefined; try { .. } finally { dontWait(release) }\<close>.\<close>

definition guarded ::
  "bool \<Rightarrow> key \<Rightarrow> ('s, 'm) world \<Rightarrow> (('s, 'm) world \<Rightarrow> ('x, 'i, ('s, 'm) world) gen)
   \<Rightarrow> ('x, 'i, ('s, 'm) world) gen" where
  "guarded cond key w body =
     (let (release, w) = (if cond then (Some (ScheduleRelease key), emit (Acquire key) w) else (None, w)) in
      case body w of (r, out, w) \<Rightarrow> (r, out, dontWait release w))"

lemma guarded_eq:
  "guarded cond key w body =
     (case body (if cond then emit (Acquire key) w else w) of
        (r, out, w') \<Rightarrow> (r, out, if cond then emit (ScheduleRelease key) w' else w'))"
  by (simp add: guarded_def)

section \<open>\<open>deepTreeSet\<close>\<close>

record 'v setArgs =
  a_path :: path
  a_createValue :: "(chained \<Rightarrow> 'v option) option"
  a_ttl :: "'v stepTtl option"
  a_minLevelSemaphore :: nat
  a_now :: int
  a_body :: "'v step list \<Rightarrow> 'v step \<Rightarrow> 'v reply"

definition single :: "rvalue option \<Rightarrow> serializedValue option" where
  "single r = map_option (\<lambda>v. TreeValue (Single v)) r"

text \<open>
  \<open>const step = await this.internal.getStep(currentSerialized, nodeRef, createValue); yield step;\<close>
\<close>

definition visitNode ::
  "('v, 's, 'm) cache \<Rightarrow> 'v setArgs \<Rightarrow> chained \<Rightarrow> rvalue option \<Rightarrow> 'v step list \<times> ('s, 'm) world
   \<Rightarrow> ('v step, 'v step, ('s, 'm) world) gen" where
  "visitNode c a nodeRef currentSerialized g =
     and_then (call (getStep c (single currentSerialized) nodeRef (a_createValue a) (snd g)) (fst g))
       (yield_item (a_body a))"

text \<open>One round of the loop over the key level nodes.\<close>

definition keyStep ::
  "('v, 's, 'm) cache \<Rightarrow> 'v setArgs \<Rightarrow> nat \<Rightarrow> key option \<Rightarrow> chained option
   \<Rightarrow> 'v step list \<times> ('s, 'm) world \<Rightarrow> (key \<times> chained, 'v step, ('s, 'm) world) gen" where
  "keyStep c a currentLevel chainedKey nodeRef g = (case g of (out, w) \<Rightarrow>
     (case getChainedKey (a_path a) currentLevel chainedKey of
        Inl e \<Rightarrow> (Inl (Threw e), out, w)
      | Inr (ck, key) \<Rightarrow>
          guarded (a_minLevelSemaphore a \<le> currentLevel) ck (registerChild c chainedKey key w) (\<lambda>w.
            (let currentSerialized = store_get c w ck;
                 ref = ChainedObject key (currentLevel + 1) nodeRef
             in and_then (visitNode c a ref currentSerialized (out, w)) (\<lambda>step (out, w).
                  (Inr (ck, ref), out, persistStep c step currentSerialized ck (a_ttl a) w))))))"

function keyLoop ::
  "('v, 's, 'm) cache \<Rightarrow> 'v setArgs \<Rightarrow> nat \<Rightarrow> nat \<Rightarrow> key option \<Rightarrow> chained option
   \<Rightarrow> 'v step list \<times> ('s, 'm) world
   \<Rightarrow> (nat \<times> key option \<times> chained option, 'v step, ('s, 'm) world) gen" where
  "keyLoop c a upTo currentLevel chainedKey nodeRef g =
     (if currentLevel < upTo then
        and_then (keyStep c a currentLevel chainedKey nodeRef g) (\<lambda>(ck, ref) g.
          keyLoop c a upTo (Suc currentLevel) (Some ck) (Some ref) g)
      else (Inr (currentLevel, chainedKey, nodeRef), g))"
  by pat_completeness auto
termination
  by (relation "measure (\<lambda>(_, _, upTo, level, _). upTo - level)") auto

declare keyLoop.simps [simp del]

text \<open>
  The loop over the tree level nodes and the code after it. The tree is returned with its node
  updated; the source updates it in place.
\<close>

function treeLoop ::
  "('v, 's, 'm) cache \<Rightarrow> 'v setArgs \<Rightarrow> nat \<Rightarrow> key \<Rightarrow> chained option \<Rightarrow> rvalue tree \<Rightarrow> bool \<Rightarrow> int option
   \<Rightarrow> 'v step list \<times> ('s, 'm) world
   \<Rightarrow> (rvalue tree \<times> bool \<times> int option, 'v step, ('s, 'm) world) gen" where
  "treeLoop c a currentLevel key nodeRef currentTree changed maxTtl g =
     (let currentSerialized = getTreeCurrentSerializedValue currentTree (a_now a);
          ref = ChainedObject key currentLevel nodeRef
      in and_then (visitNode c a ref currentSerialized g) (\<lambda>step g.
           if currentLevel \<le> length (a_path a) - 1 then
             (let (tree, ch, maxTtl) = enrichTree c step currentSerialized currentTree None (a_now a) maxTtl
              in case getKey (a_path a) currentLevel of
                   Inl e \<Rightarrow> (Inl (Threw e), g)
                 | Inr key \<Rightarrow>
                     (let next = tree_child tree key
                      in and_then
                           (treeLoop c a (Suc currentLevel) key (Some ref)
                              (case next of None \<Rightarrow> empty_tree | Some t \<Rightarrow> t)
                              (changed \<or> ch \<or> next = None) maxTtl g)
                           (\<lambda>(sub, changed, maxTtl) g. (Inr (put_child key sub tree, changed, maxTtl), g))))
           else
             (let (currentTtl, maxTtl) = getTtl (a_ttl a) step maxTtl;
                  (tree, ch, maxTtl) = enrichTree c step currentSerialized currentTree
                    (map_option TtlNumber currentTtl) (a_now a) maxTtl
              in (Inr (tree, changed \<or> ch, maxTtl), g))))"
  by pat_completeness auto
termination
  by (relation "measure (\<lambda>(_, a, level, _). length (a_path a) - level)")
    (auto simp: getKey_Inr_iff)

declare treeLoop.simps [simp del]

definition deepTreeSet ::
  "('v, 's, 'm) cache \<Rightarrow> 'v setArgs \<Rightarrow> string list \<Rightarrow> 'v step list \<times> ('s, 'm) world
   \<Rightarrow> (unit, 'v step, ('s, 'm) world) gen" where
  "deepTreeSet c a previousKeys g =
     (let path = a_path a; upTo = min (keyLevelNodes c - 1) (length path) in
      and_then (keyLoop c a upTo (length previousKeys)
          (if length previousKeys > 0 then Some (join previousKeys) else None) None g)
        (\<lambda>(currentLevel, chainedKey, nodeRef) (out, w).
          if currentLevel < length path then
            (if \<not> str_truthy chainedKey then (Inl (Threw NonConsistentStorage), out, w)
             else
               (case getChainedKey path currentLevel chainedKey of
                  Inl e \<Rightarrow> (Inl (Threw e), out, w)
                | Inr (ck, key) \<Rightarrow>
                    guarded (a_minLevelSemaphore a \<le> Suc currentLevel) ck w (\<lambda>w.
                      (let buffer = store_get c w ck in
                       case (if str_truthy buffer then ts_deserialize (tser c) (the buffer) else Inr empty_tree) of
                         Inl e \<Rightarrow> (Inl (Threw e), out, w)
                       | Inr rootTree \<Rightarrow>
                           and_then (treeLoop c a (Suc currentLevel) key nodeRef rootTree False None (out, w))
                             (\<lambda>(tree, changed, maxTtl) (out, w).
                               (Inr (), out, if changed then persistTree c ck maxTtl tree w else w))))))
          else (Inr (), out, w)))"

section \<open>\<open>setNode\<close>\<close>

text \<open>The value is given, or computed by an async callback, which may throw.\<close>

datatype 'v nodeValue = Given "'v option" | Callback "error + 'v option"

definition setNodeBody :: "nat \<Rightarrow> 'v nodeValue \<Rightarrow> 'v step list \<Rightarrow> 'v step \<Rightarrow> 'v reply" where
  "setNodeBody len value out item =
     (if step_level item = len then
        (case value of
           Given v \<Rightarrow> Resume v
         | Callback (Inl e) \<Rightarrow> Raise e
         | Callback (Inr v) \<Rightarrow> Resume v)
      else Resume (step_value item))"

definition setNodeArgs :: "path \<Rightarrow> 'v nodeValue \<Rightarrow> 'v stepTtl option \<Rightarrow> int \<Rightarrow> 'v setArgs" where
  "setNodeArgs path value ttl now =
     \<lparr>a_path = path, a_createValue = Some (\<lambda>_. None), a_ttl = ttl, a_minLevelSemaphore = length path,
      a_now = now, a_body = setNodeBody (length path) value\<rparr>"

definition setNode ::
  "('v, 's, 'm) cache \<Rightarrow> path \<Rightarrow> 'v nodeValue \<Rightarrow> 'v stepTtl option \<Rightarrow> int \<Rightarrow> ('s, 'm) world
   \<Rightarrow> (unit, ('s, 'm) world) result" where
  "setNode c path value ttl now w =
     (case value of
        Given None \<Rightarrow> (Inr (), w)
      | _ \<Rightarrow>
          (case deepTreeSet c (setNodeArgs path value ttl now) [] ([], w) of
             (Inl (Threw e), _, w) \<Rightarrow> (Inl e, w)
           | (_, _, w) \<Rightarrow> (Inr (), w)))"

section \<open>\<open>fullTreeSet\<close>\<close>

definition registerKeyLevelChildren ::
  "('v, 's, 'm) cache \<Rightarrow> 'v item \<Rightarrow> key \<Rightarrow> ('s, 'm) world \<Rightarrow> ('s, 'm) world" where
  "registerKeyLevelChildren c node chainedKey w =
     (case st_registerChild (c_storage c) of
        None \<Rightarrow> w
      | Some _ \<Rightarrow>
          (case tchildren (it_tree node) of
             None \<Rightarrow> w
           | Some children \<Rightarrow> fold (registerChild c (Some chainedKey)) (map fst children) w))"

text \<open>The arguments of \<open>fullTreeSet\<close>; the body sees the items with their old value.\<close>

record 'v fullArgs =
  f_createValue :: "(chained \<Rightarrow> 'v option) option"
  f_minLevelSemaphore :: nat
  f_ttl :: "'v stepTtl option"
  f_now :: int
  f_body :: "'v fullSetItem list \<Rightarrow> 'v fullSetItem \<Rightarrow> 'v reply"

definition getFullSetItem ::
  "('v, 's, 'm) cache \<Rightarrow> rvalue tree \<Rightarrow> 'v item \<Rightarrow> int \<Rightarrow> ('s, 'm) world
   \<Rightarrow> ('v fullSetItem, ('s, 'm) world) result" where
  "getFullSetItem c currentTree breadthNode now w =
     (let currentSerialized = getTreeCurrentSerializedValue currentTree now in
      and_then
        (if str_truthy currentSerialized
         then deserializeValue c (TreeValue (Single (the currentSerialized))) w
         else (Inr None, w))
        (\<lambda>oldValue w.
          (Inr \<lparr>step_key = it_key breadthNode, step_value = it_value breadthNode,
                step_level = it_level breadthNode,
                step_nodeRef = ChainedObject (it_key breadthNode) (it_level breadthNode) (it_parentRef breadthNode),
                fs_oldValue = oldValue, fs_currentSerialized = currentSerialized\<rparr>, w)))"

definition checkFullSetItemChange ::
  "('v, 's, 'm) cache \<Rightarrow> 'v fullSetItem \<Rightarrow> rvalue tree \<Rightarrow> bool \<times> rvalue tree" where
  "checkFullSetItemChange c item currentTree =
     (case step_value item of
        None \<Rightarrow> (False, currentTree)
      | Some v \<Rightarrow>
          (let serialized = vs_serialize (vser c) v in
           if Some serialized \<noteq> fs_currentSerialized item
           then (True, set_value (Some serialized) currentTree)
           else (False, currentTree)))"

text \<open>
  The state of the loop of \<open>saveFullTreeValue\<close>. The entries of the array \<open>stack\<close> are references
  into \<open>rootTree\<close>: here the paths of the nodes they refer to.
\<close>

record saveState =
  sv_rootTree :: "rvalue tree"
  sv_stack :: "(nat \<times> path) list"
  sv_changed :: bool
  sv_maxTtl :: "int option"

text \<open>\<open>children ??= {}\<close>, then the child of the key, created and initialized when there is none.\<close>

definition nextOrCreate ::
  "('v, 's, 'm) cache \<Rightarrow> 'v fullArgs \<Rightarrow> 'v item \<Rightarrow> rvalue tree \<Rightarrow> bool \<Rightarrow> rvalue tree \<times> bool" where
  "nextOrCreate c a depthNode parent changed =
     (case tree_child parent (it_key depthNode) of
        Some next \<Rightarrow> (parent, changed)
      | None \<Rightarrow>
          (case Option.bind (f_createValue a) (\<lambda>f. f (item_ref depthNode)) of
             None \<Rightarrow> (put_child (it_key depthNode) empty_tree parent, changed)
           | Some v \<Rightarrow> (put_child (it_key depthNode) (set_value (Some (vs_serialize (vser c) v)) empty_tree) parent,
                        True)))"

definition enterNode ::
  "('v, 's, 'm) cache \<Rightarrow> 'v fullArgs \<Rightarrow> nat \<Rightarrow> 'v item \<Rightarrow> saveState \<Rightarrow> error + path \<times> saveState" where
  "enterNode c a rootLevel depthNode st =
     (if it_level depthNode \<noteq> rootLevel then
        (case map_of (sv_stack st) (it_level depthNode - 1) of
           None \<Rightarrow> Inl AlgorithmError
         | Some p \<Rightarrow>
             (case tree_lookup (sv_rootTree st) p of
                None \<Rightarrow> Inl AlgorithmError
              | Some parent \<Rightarrow>
                  (case nextOrCreate c a depthNode parent (sv_changed st) of (parent, changed) \<Rightarrow>
                     Inr (p @ [it_key depthNode],
                          st\<lparr>sv_rootTree := tree_replace p parent (sv_rootTree st), sv_changed := changed,
                             sv_stack := AList.update (it_level depthNode) (p @ [it_key depthNode]) (sv_stack st)\<rparr>))))
      else Inr ([], st))"

definition saveItem ::
  "('v, 's, 'm) cache \<Rightarrow> 'v fullArgs \<Rightarrow> nat \<Rightarrow> 'v item \<Rightarrow> saveState
   \<Rightarrow> 'v fullSetItem list \<times> ('s, 'm) world \<Rightarrow> (saveState, 'v fullSetItem, ('s, 'm) world) gen" where
  "saveItem c a rootLevel depthNode st g =
     (case enterNode c a rootLevel depthNode st of
        Inl e \<Rightarrow> (Inl (Threw e), g)
      | Inr (p, st) \<Rightarrow>
          (case tree_lookup (sv_rootTree st) p of
             None \<Rightarrow> (Inl (Threw PersistingError), g)
           | Some currentTree \<Rightarrow>
               and_then (call (getFullSetItem c currentTree depthNode (f_now a) (snd g)) (fst g)) (\<lambda>item g.
               and_then (yield_item (f_body a) item g) (\<lambda>item g.
                 (case checkFullSetItemChange c item currentTree of (itemChanged, currentTree) \<Rightarrow>
                    (Inr (st\<lparr>sv_rootTree := tree_replace p currentTree (sv_rootTree st),
                             sv_maxTtl := (if itemChanged then snd (getTtl (f_ttl a) (step.truncate item) (sv_maxTtl st))
                                           else sv_maxTtl st),
                             sv_changed := itemChanged \<or> sv_changed st\<rparr>), g))))))"

fun saveItems ::
  "('v, 's, 'm) cache \<Rightarrow> 'v fullArgs \<Rightarrow> nat \<Rightarrow> 'v item list \<Rightarrow> saveState
   \<Rightarrow> 'v fullSetItem list \<times> ('s, 'm) world \<Rightarrow> (saveState, 'v fullSetItem, ('s, 'm) world) gen" where
  "saveItems c a rootLevel [] st g = (Inr st, g)"
| "saveItems c a rootLevel (i # is) st g =
     and_then (saveItem c a rootLevel i st g) (\<lambda>st g. saveItems c a rootLevel is st g)"

definition saveFullTreeValue ::
  "('v, 's, 'm) cache \<Rightarrow> 'v fullArgs \<Rightarrow> 'v item \<Rightarrow> key \<Rightarrow> 'v fullSetItem list \<times> ('s, 'm) world
   \<Rightarrow> (unit, 'v fullSetItem, ('s, 'm) world) gen" where
  "saveFullTreeValue c a rootNode chainedKey g = (case g of (out, w) \<Rightarrow>
     (let serializedTree = store_get c w chainedKey in
      case (if str_truthy serializedTree then ts_deserialize (tser c) (the serializedTree) else Inr empty_tree) of
        Inl e \<Rightarrow> (Inl (Threw e), out, w)
      | Inr rootTree \<Rightarrow>
          (case treePreOrderDepthFirstSearch (it_tree rootNode) (Some (item_ref rootNode)) (f_now a) of
             (items, err) \<Rightarrow>
               and_then
                 (saveItems c a (it_level rootNode) items
                    \<lparr>sv_rootTree = rootTree, sv_stack = [(it_level rootNode, [])], sv_changed = False, sv_maxTtl = None\<rparr>
                    (out, w))
                 (\<lambda>st (out, w).
                    case err of
                      Some e \<Rightarrow> (Inl (Threw e), out, w)
                    | None \<Rightarrow>
                        (Inr (), out,
                         if sv_changed st then persistTree c chainedKey (sv_maxTtl st) (sv_rootTree st) w else w)))))"

definition fullSetStep ::
  "('v, 's, 'm) cache \<Rightarrow> 'v fullArgs \<Rightarrow> 'v item \<Rightarrow> key \<Rightarrow> 'v fullSetItem list \<times> ('s, 'm) world
   \<Rightarrow> (unit, 'v fullSetItem, ('s, 'm) world) gen" where
  "fullSetStep c a breadthNode chainedKey g = (case g of (out, w) \<Rightarrow>
     (let w = registerKeyLevelChildren c breadthNode chainedKey w;
          currentSerialized = store_get c w chainedKey
      in and_then (call (getStep c (single currentSerialized) (item_ref breadthNode) (f_createValue a) w) out)
        (\<lambda>old g.
          (let oldValue = step_value old;
               newValue = (case it_value breadthNode of None \<Rightarrow> oldValue | Some v \<Rightarrow> Some v)
           in and_then
                (yield_item (f_body a)
                   \<lparr>step_key = step_key old, step_value = newValue, step_level = step_level old,
                    step_nodeRef = step_nodeRef old, fs_oldValue = oldValue, fs_currentSerialized = None\<rparr> g)
                (\<lambda>step (out, w).
                  (Inr (), out,
                   persistStep c (step.truncate step) currentSerialized chainedKey (f_ttl a) w))))))"

fun fullTreeItems ::
  "('v, 's, 'm) cache \<Rightarrow> 'v fullArgs \<Rightarrow> 'v item list \<Rightarrow> error option \<Rightarrow> 'v fullSetItem list \<times> ('s, 'm) world
   \<Rightarrow> (unit, 'v fullSetItem, ('s, 'm) world) gen" where
  "fullTreeItems c a [] err g = (case err of None \<Rightarrow> (Inr (), g) | Some e \<Rightarrow> (Inl (Threw e), g))"
| "fullTreeItems c a (i # is) err g =
     (if it_level i > keyLevelNodes c then (Inr (), g)
      else
        (let chainedKey = buildKey (item_ref i) in
         and_then
           (guarded (f_minLevelSemaphore a \<le> it_level i) chainedKey (snd g) (\<lambda>w.
              if it_level i = keyLevelNodes c
              then saveFullTreeValue c a i chainedKey (fst g, w)
              else fullSetStep c a i chainedKey (fst g, w)))
           (\<lambda>_ g. fullTreeItems c a is err g)))"

definition fullTreeSet ::
  "('v, 's, 'm) cache \<Rightarrow> 'v fullArgs \<Rightarrow> 'v tree \<Rightarrow> 'v fullSetItem list \<times> ('s, 'm) world
   \<Rightarrow> (unit, 'v fullSetItem, ('s, 'm) world) gen" where
  "fullTreeSet c a tree g =
     (case treePreOrderBreadthFirstSearch tree None (f_now a) of
        (items, err) \<Rightarrow> fullTreeItems c a items err g)"

end
