(* ===== verification/Cache_Set.thy ===== *)
theory Cache_Set
  imports Cache_Writes
begin

text \<open>
  What the writing operations do to the cache, seen as a map from paths to values. \<open>node_value\<close> is
  that map, read off the storage; \<open>overlay\<close> is the abstract effect of writing a value for every
  prefix of a path. The locale \<open>lawful_cache\<close> joins the laws of the storage and of the serializers;
  inside it \<open>deepTreeSet\<close> is shown to run to its end, to yield for each prefix of the path the step
  that the storage or \<open>createValue\<close> gives, and to change the map by \<open>overlay\<close>.
\<close>

section \<open>The cache as a map\<close>

definition node_value :: "('v, 's, 'm) cache \<Rightarrow> int \<Rightarrow> 's \<Rightarrow> path \<Rightarrow> 'v option" where
  "node_value c now s path = Option.bind (raw_at c now s path) (decode c)"

definition overlay :: "'v option list \<Rightarrow> path \<Rightarrow> (path \<Rightarrow> 'v option) \<Rightarrow> path \<Rightarrow> 'v option" where
  "overlay vs ks f q =
     (if length q < length vs \<and> q = take (length q) ks
      then (case vs ! length q of None \<Rightarrow> f q | Some v \<Rightarrow> Some v) else f q)"

lemma overlay_Nil [simp]: "overlay (v # vs) ks f [] = (case v of None \<Rightarrow> f [] | Some x \<Rightarrow> Some x)"
  by (simp add: overlay_def)

lemma overlay_Cons [simp]:
  "overlay (v # vs) (k # ks) f (q # qs) =
     (if q = k then overlay vs ks (\<lambda>qs. f (k # qs)) qs else f (q # qs))"
  by (auto simp: overlay_def)

lemma overlay_single [simp]: "overlay [v] [] f (q # qs) = f (q # qs)"
  by (simp add: overlay_def)

lemma overlay_prefix: "length q < length vs \<Longrightarrow> overlay (vs @ us) ks f q = overlay vs ks f q"
  by (auto simp: overlay_def nth_append)

lemma overlay_drop:
  assumes "length vs = n" "n \<le> length q" "n \<le> length ks" "take n q = take n ks"
  shows "overlay (vs @ us) ks f q = overlay us (drop n ks) (\<lambda>q. f (take n ks @ q)) (drop n q)"
proof -
  obtain xs ys zs where "q = xs @ ys" "ks = xs @ zs" "length xs = n"
    using assms by (metis append_take_drop_id length_take min.absorb2)
  with assms(1) show ?thesis by (auto simp: overlay_def nth_append)
qed

lemma overlay_other: "q \<noteq> take (length q) ks \<Longrightarrow> overlay vs ks f q = f q"
  by (simp add: overlay_def)

section \<open>What the caller's body answers\<close>

definition resuming :: "'v setArgs \<Rightarrow> bool" where
  "resuming a \<longleftrightarrow> (\<forall>out st. \<exists>v. a_body a out st = Resume v)"

definition answer :: "'v setArgs \<Rightarrow> 'v step list \<Rightarrow> 'v step \<Rightarrow> 'v option" where
  "answer a out st = (case a_body a out st of Resume v \<Rightarrow> v | _ \<Rightarrow> None)"

definition replied :: "'v setArgs \<Rightarrow> 'v step list \<Rightarrow> 'v step \<Rightarrow> 'v step" where
  "replied a out st = st\<lparr>step_value := answer a out st\<rparr>"

fun deep_steps :: "'v setArgs \<Rightarrow> 'v step list \<Rightarrow> 'v step list \<Rightarrow> 'v step list" where
  "deep_steps a out [] = []"
| "deep_steps a out (st # sts) =
     replied a out st # deep_steps a (out @ [replied a out st]) sts"

lemma length_deep_steps [simp]: "length (deep_steps a out sts) = length sts"
  by (induction sts arbitrary: out) auto

lemma deep_steps_append:
  "deep_steps a out (xs @ ys) = deep_steps a out xs @ deep_steps a (out @ deep_steps a out xs) ys"
  by (induction xs arbitrary: out) auto

definition initial :: "('v, 's, 'm) cache \<Rightarrow> 'v setArgs \<Rightarrow> chained \<Rightarrow> rvalue option \<Rightarrow> 'v option" where
  "initial c a ref cs = (case cs of None \<Rightarrow> Option.bind (a_createValue a) (\<lambda>f. f ref) | Some r \<Rightarrow> decode c r)"

definition first_step :: "('v, 's, 'm) cache \<Rightarrow> 'v setArgs \<Rightarrow> (path \<Rightarrow> rvalue option) \<Rightarrow> path \<Rightarrow> 'v step" where
  "first_step c a raw p = mountStep (node_ref p) (initial c a (node_ref p) (raw p))"

lemma getStep_initial:
  "\<exists>w'. getStep c (single cs) ref (a_createValue a) w = (Inr (mountStep ref (initial c a ref cs)), w')
     \<and> w_store w' = w_store w"
  by (auto simp: getStep_def single_def initial_def decode_def split: option.splits sum.splits)

lemma visitNode_resuming:
  fixes c :: "('v, 's, 'm) cache" and a :: "'v setArgs"
  assumes "resuming a" "st = replied a out (mountStep ref (initial c a ref cs))"
  shows "\<exists>w'. visitNode c a ref cs (out, w) = (Inr st, out @ [st], w') \<and> w_store w' = w_store w"
proof -
  let ?m = "mountStep ref (initial c a ref cs)"
  obtain w' where w': "getStep c (single cs) ref (a_createValue a) w = (Inr ?m, w')" "w_store w' = w_store w"
    using getStep_initial by blast
  obtain v where v: "a_body a out ?m = Resume v" using assms(1) by (auto simp: resuming_def)
  show ?thesis
    using w' v by (simp add: visitNode_def call_def yield_item_def assms(2) replied_def answer_def)
qed

text \<open>No negative time to live: such a node would be expired as soon as it is written.\<close>

definition ttl_ok :: "'v stepTtl option \<Rightarrow> bool" where
  "ttl_ok ttl \<longleftrightarrow> (\<forall>step m n. fst (getTtl ttl step m) = Some n \<longrightarrow> 0 \<le> n)"

lemma ttl_ok_simps [simp]:
  "ttl_ok None" "ttl_ok (Some (TtlNumber n)) \<longleftrightarrow> 0 \<le> n"
  "ttl_ok (Some (TtlFunction f)) \<longleftrightarrow> (\<forall>step n. f step = Some n \<longrightarrow> 0 \<le> n)"
  by (auto simp: ttl_ok_def getTtl_def Let_def)

lemma ttl_ok_current: "ttl_ok ttl \<Longrightarrow> getTtl ttl step m = (t, m') \<Longrightarrow> ttl_ok (map_option TtlNumber t)"
  by (cases t) (auto simp: ttl_ok_def getTtl_def Let_def)

lemma list_all_take: "list_all P xs \<Longrightarrow> list_all P (take n xs)"
  by (auto simp: list_all_iff dest: in_set_takeD)

lemma join_take_inject:
  assumes "list_all sep_free ks" "0 < i" "i \<le> length ks" "0 < j" "j \<le> length ks"
  shows "join (take i ks) = join (take j ks) \<longleftrightarrow> i = j"
proof
  assume "join (take i ks) = join (take j ks)"
  with assms have "take i ks = take j ks"
    by (intro join_inject list_all_take) auto
  then have "length (take i ks) = length (take j ks)" by simp
  with assms show "i = j" by simp
qed simp

abbreviation chained_key :: "path \<Rightarrow> nat \<Rightarrow> key option" where
  "chained_key path l \<equiv> (if l = 0 then None else Some (join (take l path)))"

text \<open>One storage key decides the value of a path.\<close>

lemma raw_at_cong:
  "st_get (c_storage c) s' (join (take (keyLevelNodes c) q)) = st_get (c_storage c) s (join (take (keyLevelNodes c) q))
   \<Longrightarrow> raw_at c now s' q = raw_at c now s q"
  by (auto simp: raw_at_def Let_def)

lemma node_value_cong:
  "st_get (c_storage c) s' (join (take (keyLevelNodes c) q)) = st_get (c_storage c) s (join (take (keyLevelNodes c) q))
   \<Longrightarrow> node_value c now s' q = node_value c now s q"
  unfolding node_value_def by (drule raw_at_cong [of c s' q s now]) simp

lemma storage_key_eq:
  assumes "valid_path q" "list_all sep_free ks" "0 < i" "i \<le> length ks" "0 < n"
  shows "join (take n q) = join (take i ks) \<longleftrightarrow> take n q = take i ks"
proof
  assume "join (take n q) = join (take i ks)"
  with assms show "take n q = take i ks"
    by (intro join_inject list_all_take) (auto simp: valid_path_def)
qed simp

text \<open>The tree a path leads to can be deserialized, if there is one.\<close>

definition tree_readable :: "('v, 's, 'm) cache \<Rightarrow> 's \<Rightarrow> path \<Rightarrow> bool" where
  "tree_readable c s path \<longleftrightarrow>
     (let b = st_get (c_storage c) s (join (take (keyLevelNodes c) path)) in
      keyLevelNodes c \<le> length path \<and> str_truthy b \<longrightarrow> (\<exists>t. ts_deserialize (tser c) (the b) = Inr t))"

definition stored_tree :: "('v, 's, 'm) cache \<Rightarrow> 's \<Rightarrow> path \<Rightarrow> rvalue tree" where
  "stored_tree c s path =
     (let b = st_get (c_storage c) s (join (take (keyLevelNodes c) path)) in
      if str_truthy b then (case ts_deserialize (tser c) (the b) of Inl _ \<Rightarrow> empty_tree | Inr t \<Rightarrow> t)
      else empty_tree)"

lemma raw_at_tree:
  "keyLevelNodes c \<le> length path \<Longrightarrow>
   raw_at c now s path = tree_at now (stored_tree c s path) (drop (keyLevelNodes c) path)"
  by (auto simp: raw_at_def stored_tree_def Let_def split: sum.splits)

lemma raw_at_key: "length path < keyLevelNodes c \<Longrightarrow> raw_at c now s path = st_get (c_storage c) s (join path)"
  by (simp add: raw_at_def)

definition given_value :: "'v nodeValue \<Rightarrow> 'v option" where
  "given_value value = (case value of Given v \<Rightarrow> v | Callback (Inr v) \<Rightarrow> v | Callback (Inl e) \<Rightarrow> None)"

lemma deep_steps_map:
  assumes "\<And>out st. a_body a out st = a_body a [] st"
  shows "deep_steps a out sts = map (replied a []) sts"
proof (induction sts arbitrary: out)
  case (Cons st sts)
  have "replied a out st = replied a [] st"
    unfolding replied_def answer_def by (subst assms) (rule refl)
  with Cons show ?case by simp
qed simp

section \<open>Lawful caches\<close>

locale lawful_cache = storage_laws "c_storage c" + serializer_laws "vser c" "tser c"
  for c :: "('v, 's, 'm) cache"
begin

lemma decode_serialize [simp]: "decode c (vs_serialize (vser c) v) = Some v"
  by (simp add: decode_def value_roundtrip)

lemma get_registerChild [simp]: "st_get (c_storage c) (w_store (registerChild c p k w)) = store_get c w"
  by (rule ext) (auto simp: registerChild_def get_register split: option.splits)

lemma get_store_set:
  "st_get (c_storage c) (w_store (store_set c k v ttl w)) k' = (if k' = k then Some v else store_get c w k')"
  by (simp add: store_set_def get_set_same get_set_other)

lemma persistStep_get:
  "Option.bind (st_get (c_storage c) (w_store (persistStep c step (store_get c w k) k ttl w)) k) (decode c)
     = (case step_value step of None \<Rightarrow> Option.bind (store_get c w k) (decode c) | Some v \<Rightarrow> Some v)"
  "k' \<noteq> k \<Longrightarrow> st_get (c_storage c) (w_store (persistStep c step cs k ttl w)) k' = store_get c w k'"
  by (auto simp: persistStep_def Let_def get_store_set split: option.splits)

lemma enrichTree_result:
  assumes "enrichTree c step (getTreeCurrentSerializedValue t now) t ttl now m = (t', ch, m')" "ttl_ok ttl"
  shows "Option.bind (getTreeCurrentSerializedValue t' now) (decode c)
      = (case step_value step of None \<Rightarrow> Option.bind (getTreeCurrentSerializedValue t now) (decode c)
         | Some v \<Rightarrow> Some v)"
    "tree_child t' = tree_child t" "wf_tree t' = wf_tree t" "\<not> ch \<Longrightarrow> t' = t"
proof -
  show "tree_child t' = tree_child t" "wf_tree t' = wf_tree t" "\<not> ch \<Longrightarrow> t' = t"
    using assms(1) by (auto simp: enrichTree_def Let_def split: option.splits if_splits prod.splits)
  show "Option.bind (getTreeCurrentSerializedValue t' now) (decode c)
      = (case step_value step of None \<Rightarrow> Option.bind (getTreeCurrentSerializedValue t now) (decode c)
         | Some v \<Rightarrow> Some v)"
  proof (cases "step_value step")
    case None
    with assms(1) show ?thesis by (simp add: enrichTree_def)
  next
    case (Some v)
    obtain cur mm where g: "getTtl ttl step m = (cur, mm)" by fastforce
    then have "num_truthy cur \<Longrightarrow> 0 < the cur"
      using assms(2) unfolding ttl_ok_def by (cases cur) (metis fst_conv num_truthy_simps option.sel order_le_less)+
    with assms(1) Some g show ?thesis
      by (auto simp: enrichTree_def Let_def MILLISECOND_SCALE_def getTreeCurrentSerializedValue_def
          split: if_splits)
  qed
qed

lemma treeLoop_last:
  assumes a: "resuming a" "ttl_ok (a_ttl a)" and lvl: "level = length (a_path a)" "0 < level" and wf: "wf_tree t"
    and ref: "ChainedObject key level ref = node_ref (a_path a)"
    and outs: "outs = deep_steps a out [first_step c a (\<lambda>p. tree_at (a_now a) t (drop level p)) (a_path a)]"
  shows "\<exists>t' ch' m' w'. treeLoop c a level key ref t ch m (out, w) = (Inr (t', ch', m'), out @ outs, w')
      \<and> w_store w' = w_store w \<and> wf_tree t'
      \<and> (\<forall>q. Option.bind (tree_at (a_now a) t' q) (decode c)
            = overlay (map step_value outs) (drop level (a_path a))
                (\<lambda>q. Option.bind (tree_at (a_now a) t q) (decode c)) q)
      \<and> (\<not> ch' \<longrightarrow> \<not> ch \<and> (\<forall>q. tree_at (a_now a) t' q = tree_at (a_now a) t q))"
proof -
  let ?now = "a_now a" and ?p = "a_path a"
  let ?cs = "getTreeCurrentSerializedValue t ?now"
  let ?st = "replied a out (mountStep (node_ref ?p) (initial c a (node_ref ?p) ?cs))"
  have last: "\<not> level \<le> length ?p - 1" using lvl by linarith
  have outs: "outs = [?st]" using outs lvl by (simp add: first_step_def)
  obtain w' where v: "visitNode c a (node_ref ?p) ?cs (out, w) = (Inr ?st, out @ [?st], w')"
    and st: "w_store w' = w_store w"
    using visitNode_resuming [OF a(1) refl] by blast
  obtain cur m1 where g: "getTtl (a_ttl a) ?st m = (cur, m1)" by fastforce
  obtain t' ch' m' where e: "enrichTree c ?st ?cs t (map_option TtlNumber cur) ?now m1 = (t', ch', m')"
    by (metis prod_cases3)
  note en = enrichTree_result [OF e ttl_ok_current [OF a(2) g]]
  have run: "treeLoop c a level key ref t ch m (out, w) = (Inr (t', ch \<or> ch', m'), out @ outs, w')"
    by (subst treeLoop.simps) (simp only: Let_def ref v and_then_simps last if_False g e prod.case outs)
  have "Option.bind (tree_at ?now t' q) (decode c)
      = overlay (map step_value outs) (drop level ?p) (\<lambda>q. Option.bind (tree_at ?now t q) (decode c)) q" for q
    using en lvl(1) by (cases q) (auto simp: outs overlay_def split: option.splits)
  with run st en wf show ?thesis by auto
qed

text \<open>The steps below a node, seen from its child on the path.\<close>

lemma first_steps_child:
  assumes l: "level < length p" and at: "\<And>q. tree_at now t (p ! level # q) = tree_at now u q"
  shows "map (\<lambda>i. first_step c a (\<lambda>q. tree_at now t (drop level q)) (take i p)) [Suc level..<Suc (length p)]
    = map (\<lambda>i. first_step c a (\<lambda>q. tree_at now u (drop (Suc level) q)) (take i p)) [Suc level..<Suc (length p)]"
proof (intro map_cong refl)
  fix i assume "i \<in> set [Suc level..<Suc (length p)]"
  then have "drop level (take i p) = p ! level # drop (Suc level) (take i p)"
    using l by (subst Cons_nth_drop_Suc [symmetric]) (auto simp del: upt_Suc)
  then show "first_step c a (\<lambda>q. tree_at now t (drop level q)) (take i p)
      = first_step c a (\<lambda>q. tree_at now u (drop (Suc level) q)) (take i p)"
    unfolding first_step_def by (simp only: at)
qed

lemma put_child_overlay:
  assumes root: "Option.bind (getTreeCurrentSerializedValue t1 now) (decode c)
      = (case v of None \<Rightarrow> Option.bind (getTreeCurrentSerializedValue t now) (decode c) | Some x \<Rightarrow> Some x)"
    and kids: "tree_child t1 = tree_child t" and at: "\<And>q. tree_at now t (k # q) = tree_at now u q"
    and sub: "\<And>q. Option.bind (tree_at now t2 q) (decode c) = overlay vs p (\<lambda>q. Option.bind (tree_at now u q) (decode c)) q"
  shows "Option.bind (tree_at now (put_child k t2 t1) q) (decode c)
    = overlay (v # vs) (k # p) (\<lambda>q. Option.bind (tree_at now t q) (decode c)) q"
proof (cases q)
  case Nil
  then show ?thesis unfolding Nil overlay_Nil tree_at_Nil put_child_fields by (simp only: root)
next
  case (Cons j qs)
  show ?thesis
    unfolding Cons overlay_Cons
    using sub [of qs] kids by (simp add: at del: tree_at_Cons, simp split: option.splits)
qed

lemma treeLoop_result:
  assumes a: "resuming a" "ttl_ok (a_ttl a)"
  shows "0 < level \<Longrightarrow> level \<le> length (a_path a) \<Longrightarrow> wf_tree t \<Longrightarrow>
    ChainedObject key level ref = node_ref (take level (a_path a)) \<Longrightarrow>
    outs = deep_steps a out (map (\<lambda>i. first_step c a (\<lambda>p. tree_at (a_now a) t (drop level p)) (take i (a_path a)))
        [level..<Suc (length (a_path a))]) \<Longrightarrow>
    \<exists>t' ch' m' w'. treeLoop c a level key ref t ch m (out, w) = (Inr (t', ch', m'), out @ outs, w')
      \<and> w_store w' = w_store w \<and> wf_tree t'
      \<and> (\<forall>q. Option.bind (tree_at (a_now a) t' q) (decode c)
            = overlay (map step_value outs) (drop level (a_path a))
                (\<lambda>q. Option.bind (tree_at (a_now a) t q) (decode c)) q)
      \<and> (\<not> ch' \<longrightarrow> \<not> ch \<and> (\<forall>q. tree_at (a_now a) t' q = tree_at (a_now a) t q))"
proof (induction "length (a_path a) - level" arbitrary: level key ref t ch m out outs w)
  case 0
  then have "level = length (a_path a)" by simp
  with 0 show ?case by (intro treeLoop_last [OF a]) simp_all
next
  case (Suc n)
  let ?now = "a_now a" and ?p = "a_path a"
  let ?cs = "getTreeCurrentSerializedValue t ?now" and ?r = "node_ref (take level (a_path a))"
  let ?st = "replied a out (mountStep ?r (initial c a ?r ?cs))"
  have lvl: "level < length ?p" "level \<le> length ?p - 1" "n = length ?p - Suc level" using Suc.hyps(2) by auto
  let ?k = "?p ! level"
  obtain w1 where v: "visitNode c a ?r ?cs (out, w) = (Inr ?st, out @ [?st], w1)"
    and st: "w_store w1 = w_store w"
    using visitNode_resuming [OF a(1) refl] by blast
  obtain t1 ch1 m1 where e: "enrichTree c ?st ?cs t None ?now m = (t1, ch1, m1)"
    by (metis prod_cases3)
  note en = enrichTree_result [OF e ttl_ok_simps(1)]
  let ?next = "case tree_child t1 ?k of None \<Rightarrow> empty_tree | Some u \<Rightarrow> u"
  have wf: "wf_tree ?next" using en(2,3) Suc.prems(3) by (auto split: option.splits dest: wf_tree_child)
  have nref: "ChainedObject ?k (Suc level) (Some ?r) = node_ref (take (Suc level) ?p)"
    using node_ref_step Suc.prems(1) lvl(1) .
  have sub_at: "tree_at ?now t (?k # q) = tree_at ?now ?next q" for q
    using en(2) by (auto split: option.splits)
  let ?sts = "\<lambda>t l. map (\<lambda>i. first_step c a (\<lambda>p. tree_at ?now t (drop l p)) (take i ?p)) [Suc level..<Suc (length ?p)]"
  have "?sts t level = ?sts ?next (Suc level)" by (rule first_steps_child [OF lvl(1) sub_at])
  moreover have "[level..<Suc (length ?p)] = level # [Suc level..<Suc (length ?p)]"
    using lvl(1) by (simp add: upt_conv_Cons del: upt_Suc)
  moreover have "first_step c a (\<lambda>p. tree_at ?now t (drop level p)) (take level ?p)
      = mountStep ?r (initial c a ?r ?cs)"
    by (simp add: first_step_def)
  ultimately have outs: "outs = ?st # deep_steps a (out @ [?st]) (?sts ?next (Suc level))"
    unfolding Suc.prems(5) by (simp only: list.map deep_steps.simps)
  let ?outs = "deep_steps a (out @ [?st]) (?sts ?next (Suc level))"
  obtain t2 ch2 m2 w2 where
    rec: "treeLoop c a (Suc level) ?k (Some ?r) ?next (ch \<or> ch1 \<or> tree_child t1 ?k = None) m1 (out @ [?st], w1)
        = (Inr (t2, ch2, m2), (out @ [?st]) @ ?outs, w2)"
    and st2: "w_store w2 = w_store w1" and wf2: "wf_tree t2"
    and ov': "\<forall>q. Option.bind (tree_at ?now t2 q) (decode c)
            = overlay (map step_value ?outs) (drop (Suc level) ?p)
                (\<lambda>q. Option.bind (tree_at ?now ?next q) (decode c)) q"
    and un': "\<not> ch2 \<longrightarrow> \<not> (ch \<or> ch1 \<or> tree_child t1 ?k = None) \<and> (\<forall>q. tree_at ?now t2 q = tree_at ?now ?next q)"
    using Suc.hyps(1) [OF lvl(3) zero_less_Suc Suc_leI [OF lvl(1)] wf nref refl,
        of "ch \<or> ch1 \<or> tree_child t1 ?k = None" m1 "out @ [?st]" w1]
    by (elim exE conjE) (rule that)
  note ov = ov' [rule_format]
  have un: "\<not> ch2 \<Longrightarrow> \<not> (ch \<or> ch1 \<or> tree_child t1 ?k = None)"
    "\<not> ch2 \<Longrightarrow> tree_at ?now t2 q = tree_at ?now ?next q" for q
    using un' by blast+
  let ?t = "put_child ?k t2 t1"
  have run: "treeLoop c a level key ref t ch m (out, w) = (Inr (?t, ch2, m2), out @ outs, w2)"
    by (subst treeLoop.simps)
      (simp only: Let_def Suc.prems(4) v and_then_simps lvl(2) if_True e prod.case getKey_in [OF lvl(1)]
        sum.case rec outs append_assoc append_Cons append_Nil)
  have d: "drop level ?p = ?k # drop (Suc level) ?p" using lvl(1) by (simp add: Cons_nth_drop_Suc)
  have "Option.bind (tree_at ?now ?t q) (decode c)
      = overlay (map step_value outs) (drop level ?p) (\<lambda>q. Option.bind (tree_at ?now t q) (decode c)) q" for q
    unfolding d outs list.map by (rule put_child_overlay [OF en(1,2) sub_at ov])
  moreover have "tree_at ?now ?t q = tree_at ?now t q" if "\<not> ch2" for q
    using un [OF that] en(2,4) by (cases q) (auto split: option.splits)
  moreover have "wf_tree ?t" using wf2 en(3) Suc.prems(3) by simp
  ultimately show ?case using run st st2 un(1) by auto
qed

lemma keyStep_result:
  assumes a: "resuming a" and l: "l < length (a_path a)" "hd (a_path a) \<noteq> []"
    and st: "st = replied a out (first_step c a (\<lambda>p. store_get c w (join p)) (take (Suc l) (a_path a)))"
  shows "\<exists>w'. keyStep c a l (chained_key (a_path a) l) (path_ref (take l (a_path a))) (out, w)
      = (Inr (join (take (Suc l) (a_path a)), node_ref (take (Suc l) (a_path a))), out @ [st], w')
    \<and> Option.bind (store_get c w' (join (take (Suc l) (a_path a)))) (decode c)
      = (case step_value st of None \<Rightarrow> Option.bind (store_get c w (join (take (Suc l) (a_path a)))) (decode c)
         | Some v \<Rightarrow> Some v)
    \<and> (\<forall>k. k \<noteq> join (take (Suc l) (a_path a)) \<longrightarrow> store_get c w' k = store_get c w k)"
proof -
  let ?p = "take (Suc l) (a_path a)" and ?held = "a_minLevelSemaphore a \<le> l"
  let ?w = "registerChild c (chained_key (a_path a) l) (a_path a ! l) w"
  let ?w1 = "if ?held then emit (Acquire (join ?p)) ?w else ?w"
  let ?cs = "store_get c ?w1 (join ?p)"
  have cs: "?cs = store_get c w (join ?p)" by simp
  have ref: "ChainedObject (a_path a ! l) (l + 1) (path_ref (take l (a_path a))) = node_ref ?p"
    using node_ref_take [OF l(1)] by simp
  obtain w2 where v: "visitNode c a (node_ref ?p) ?cs (out, ?w1) = (Inr st, out @ [st], w2)"
    and s2: "w_store w2 = w_store ?w1"
    using visitNode_resuming [OF a, of st out "node_ref ?p" c ?cs ?w1] st by (auto simp: first_step_def)
  have g2: "?cs = store_get c w2 (join ?p)" using s2 by simp
  let ?w3 = "persistStep c st ?cs (join ?p) (a_ttl a) w2"
  let ?w4 = "if ?held then emit (ScheduleRelease (join ?p)) ?w3 else ?w3"
  have run: "keyStep c a l (chained_key (a_path a) l) (path_ref (take l (a_path a))) (out, w)
      = (Inr (join ?p, node_ref ?p), out @ [st], ?w4)"
    unfolding keyStep_def prod.case getChainedKey_next [OF l] sum.case guarded_eq Let_def ref v
    by simp
  have s4: "w_store ?w4 = w_store ?w3" by simp
  have "store_get c ?w4 k = store_get c w k" if "k \<noteq> join ?p" for k
    unfolding s4 persistStep_get(2) [OF that] s2 by simp
  moreover have "Option.bind (store_get c ?w4 (join ?p)) (decode c)
      = (case step_value st of None \<Rightarrow> Option.bind ?cs (decode c) | Some v \<Rightarrow> Some v)"
    using persistStep_get(1) [of st w2 "join ?p" "a_ttl a"] unfolding s4 by (simp only: g2)
  ultimately show ?thesis using run cs by metis
qed

lemma keyLoop_result:
  assumes a: "resuming a" and p: "list_all sep_free (a_path a)" "hd (a_path a) \<noteq> []"
  shows "l \<le> upTo \<Longrightarrow> upTo \<le> length (a_path a) \<Longrightarrow>
    outs = deep_steps a out (map (\<lambda>i. first_step c a (\<lambda>p. store_get c w (join p)) (take i (a_path a))) [Suc l..<Suc upTo]) \<Longrightarrow>
    \<exists>w'. keyLoop c a upTo l (chained_key (a_path a) l) (path_ref (take l (a_path a))) (out, w)
      = (Inr (upTo, chained_key (a_path a) upTo, path_ref (take upTo (a_path a))), out @ outs, w')
    \<and> (\<forall>k. (\<forall>i. l < i \<and> i \<le> upTo \<longrightarrow> k \<noteq> join (take i (a_path a))) \<longrightarrow> store_get c w' k = store_get c w k)
    \<and> (\<forall>i. l < i \<and> i \<le> upTo \<longrightarrow> Option.bind (store_get c w' (join (take i (a_path a)))) (decode c)
        = (case step_value (outs ! (i - Suc l)) of
             None \<Rightarrow> Option.bind (store_get c w (join (take i (a_path a)))) (decode c) | Some v \<Rightarrow> Some v))"
proof (induction "upTo - l" arbitrary: l out outs w)
  case 0
  then show ?case by (subst keyLoop.simps) auto
next
  case (Suc n)
  let ?p = "take (Suc l) (a_path a)"
  let ?sts = "\<lambda>w. map (\<lambda>i. first_step c a (\<lambda>p. store_get c w (join p)) (take i (a_path a))) [Suc (Suc l)..<Suc upTo]"
  let ?st = "replied a out (first_step c a (\<lambda>p. store_get c w (join p)) ?p)"
  have l: "l < length (a_path a)" "l < upTo" "n = upTo - Suc l" "Suc l \<le> upTo" "?p \<noteq> []"
    using Suc.hyps(2) Suc.prems by auto
  obtain w1 where s1: "keyStep c a l (chained_key (a_path a) l) (path_ref (take l (a_path a))) (out, w)
      = (Inr (join ?p, node_ref ?p), out @ [?st], w1)"
    and k1: "Option.bind (store_get c w1 (join ?p)) (decode c)
      = (case step_value ?st of None \<Rightarrow> Option.bind (store_get c w (join ?p)) (decode c) | Some v \<Rightarrow> Some v)"
    and o1: "\<And>k. k \<noteq> join ?p \<Longrightarrow> store_get c w1 k = store_get c w k"
    using keyStep_result [OF a l(1) p(2) refl] by blast
  have other: "join (take i (a_path a)) \<noteq> join ?p" if "Suc l < i" "i \<le> upTo" for i
    using that Suc.prems(2) by (subst join_take_inject [OF p(1)]) auto
  have "?sts w1 = ?sts w"
    using o1 other by (intro map_cong refl) (auto simp: first_step_def simp del: upt_Suc)
  moreover have "[Suc l..<Suc upTo] = Suc l # [Suc (Suc l)..<Suc upTo]"
    using l(2) by (simp add: upt_conv_Cons del: upt_Suc)
  ultimately have outs: "outs = ?st # deep_steps a (out @ [?st]) (?sts w1)"
    unfolding Suc.prems(3) by (simp only: list.map deep_steps.simps)
  let ?outs = "deep_steps a (out @ [?st]) (?sts w1)"
  have ck: "chained_key (a_path a) (Suc l) = Some (join ?p)" "path_ref ?p = Some (node_ref ?p)"
    using path_ref_node [OF l(5)] by simp_all
  obtain w2 where r2: "keyLoop c a upTo (Suc l) (Some (join ?p)) (Some (node_ref ?p)) (out @ [?st], w1)
      = (Inr (upTo, chained_key (a_path a) upTo, path_ref (take upTo (a_path a))), (out @ [?st]) @ ?outs, w2)"
    and o2: "\<forall>k. (\<forall>i. Suc l < i \<and> i \<le> upTo \<longrightarrow> k \<noteq> join (take i (a_path a))) \<longrightarrow> store_get c w2 k = store_get c w1 k"
    and k2: "\<forall>i. Suc l < i \<and> i \<le> upTo \<longrightarrow> Option.bind (store_get c w2 (join (take i (a_path a)))) (decode c)
        = (case step_value (?outs ! (i - Suc (Suc l))) of
             None \<Rightarrow> Option.bind (store_get c w1 (join (take i (a_path a)))) (decode c) | Some v \<Rightarrow> Some v)"
    using Suc.hyps(1) [OF l(3) l(4) Suc.prems(2) refl, of "out @ [?st]" w1] unfolding ck
    by (elim exE conjE) (rule that)
  have run: "keyLoop c a upTo l (chained_key (a_path a) l) (path_ref (take l (a_path a))) (out, w)
      = (Inr (upTo, chained_key (a_path a) upTo, path_ref (take upTo (a_path a))), out @ outs, w2)"
    by (subst keyLoop.simps)
      (simp only: l(2) if_True s1 and_then_simps prod.case r2 outs append_assoc append_Cons append_Nil)
  have frame: "store_get c w2 k = store_get c w k"
    if "\<forall>i. l < i \<and> i \<le> upTo \<longrightarrow> k \<noteq> join (take i (a_path a))" for k
    using that o1 [of k] o2 l(2) by simp
  have "Option.bind (store_get c w2 (join (take i (a_path a)))) (decode c)
        = (case step_value (outs ! (i - Suc l)) of
             None \<Rightarrow> Option.bind (store_get c w (join (take i (a_path a)))) (decode c) | Some v \<Rightarrow> Some v)"
    if i: "l < i" "i \<le> upTo" for i
  proof (cases "i = Suc l")
    case True
    have "store_get c w2 (join ?p) = store_get c w1 (join ?p)"
      using o2 other by (metis (no_types, lifting))
    with k1 show ?thesis unfolding True outs by simp
  next
    case False
    with i have "Suc l < i" by simp
    then have "i - Suc l = Suc (i - Suc (Suc l))" by simp
    then have n: "outs ! (i - Suc l) = ?outs ! (i - Suc (Suc l))"
      unfolding outs by (simp only: nth_Cons_Suc)
    have e: "store_get c w1 (join (take i (a_path a))) = store_get c w (join (take i (a_path a)))"
      using o1 other \<open>Suc l < i\<close> i(2) by blast
    show ?thesis
      using k2 [rule_format, of i] \<open>Suc l < i\<close> i(2) unfolding n e by blast
  qed
  with run frame show ?case by blast
qed

lemma keyLoop_overlay:
  assumes a: "resuming a" and p: "valid_path (a_path a)" and u: "upTo < keyLevelNodes c" "upTo \<le> length (a_path a)"
    and outs: "outs = deep_steps a [] (map (\<lambda>i. first_step c a (raw_at c (a_now a) (w_store w)) (take i (a_path a)))
        [1..<Suc upTo])"
  shows "\<exists>w'. keyLoop c a upTo 0 None None ([], w)
      = (Inr (upTo, chained_key (a_path a) upTo, path_ref (take upTo (a_path a))), outs, w')
    \<and> (\<forall>q. valid_path q \<and> length q < keyLevelNodes c \<longrightarrow> node_value c (a_now a) (w_store w') q
        = overlay (None # map step_value outs) (a_path a) (node_value c (a_now a) (w_store w)) q)
    \<and> (\<forall>q. valid_path q \<and> keyLevelNodes c \<le> length q \<longrightarrow>
        store_get c w' (join (take (keyLevelNodes c) q)) = store_get c w (join (take (keyLevelNodes c) q)))"
proof -
  let ?p = "a_path a" and ?k = "keyLevelNodes c"
  have v: "list_all sep_free ?p" "hd ?p \<noteq> []" using p(1) by (auto simp: valid_path_def)
  have outs': "outs = deep_steps a [] (map (\<lambda>i. first_step c a (\<lambda>p. store_get c w (join p)) (take i ?p))
      [Suc 0..<Suc upTo])"
    unfolding outs using u
    by (intro arg_cong [of _ _ "deep_steps a []"] map_cong) (auto simp: first_step_def raw_at_key simp del: upt_Suc)
  have len: "length outs = upTo" unfolding outs by (simp del: upt_Suc)
  obtain w1 where r: "keyLoop c a upTo 0 None None ([], w)
      = (Inr (upTo, chained_key ?p upTo, path_ref (take upTo ?p)), outs, w1)"
    and o1: "\<And>k. (\<And>i. 0 < i \<Longrightarrow> i \<le> upTo \<Longrightarrow> k \<noteq> join (take i ?p)) \<Longrightarrow> store_get c w1 k = store_get c w k"
    and k1: "\<And>i. 0 < i \<Longrightarrow> i \<le> upTo \<Longrightarrow> Option.bind (store_get c w1 (join (take i ?p))) (decode c)
        = (case step_value (outs ! (i - 1)) of
             None \<Rightarrow> Option.bind (store_get c w (join (take i ?p))) (decode c) | Some v \<Rightarrow> Some v)"
    using keyLoop_result [OF a v, of 0 upTo outs "[]" w, OF _ u(2) outs'] by auto
  have frame: "store_get c w1 (join (take ?k q)) = store_get c w (join (take ?k q))"
    if q: "valid_path q" "\<not> (length q \<le> upTo \<and> q = take (length q) ?p)" for q
  proof (rule o1)
    fix i assume i: "0 < i" "i \<le> upTo"
    have "take ?k q \<noteq> take i ?p"
    proof
      assume eq: "take ?k q = take i ?p"
      then have "length (take ?k q) = i" using i u by simp
      then have "length q = i" using i u by simp
      with eq q i u show False by simp
    qed
    then show "join (take ?k q) \<noteq> join (take i ?p)"
      using storage_key_eq [OF q(1) v(1), of i ?k] i u by simp
  qed
  have "node_value c (a_now a) (w_store w1) q
        = overlay (None # map step_value outs) ?p (node_value c (a_now a) (w_store w)) q" if q: "valid_path q" for q
  proof (cases "length q \<le> upTo \<and> q = take (length q) ?p")
    case True
    have "q \<noteq> []" using q by (simp add: valid_path_def)
    with True len have "overlay (None # map step_value outs) ?p (node_value c (a_now a) (w_store w)) q
        = (case step_value (outs ! (length q - 1)) of None \<Rightarrow> node_value c (a_now a) (w_store w) q | Some v \<Rightarrow> Some v)"
      by (cases "length q") (auto simp: overlay_def)
    moreover have "take (length q) ?p = q" "length q < ?k" using True u by auto
    ultimately show ?thesis
      using k1 [of "length q"] True \<open>q \<noteq> []\<close> unfolding node_value_def
      by (simp only: raw_at_key) simp
  next
    case False
    with node_value_cong [OF frame [OF q]] len show ?thesis by (auto simp: overlay_def)
  qed
  moreover have "store_get c w1 (join (take ?k q)) = store_get c w (join (take ?k q))"
    if "valid_path q" "?k \<le> length q" for q
    using frame [OF that(1)] that(2) u by simp
  ultimately show ?thesis using r by blast
qed

text \<open>The code after the key loop: the tree is read, walked and written back when it has changed.\<close>

lemma treePart_result:
  assumes a: "resuming a" "ttl_ok (a_ttl a)" and k: "0 < k" "k \<le> length (a_path a)"
    and key: "ChainedObject key k ref = node_ref (take k (a_path a))"
    and buf: "(if str_truthy (store_get c w ck) then ts_deserialize (tser c) (the (store_get c w ck)) else Inr empty_tree)
        = Inr t0"
    and outs: "outs = deep_steps a out (map (\<lambda>i. first_step c a (\<lambda>p. tree_at (a_now a) t0 (drop k p)) (take i (a_path a)))
        [k..<Suc (length (a_path a))])"
  shows "\<exists>w' t'. guarded cond ck w (\<lambda>w. (let buffer = store_get c w ck in
        case (if str_truthy buffer then ts_deserialize (tser c) (the buffer) else Inr empty_tree) of
          Inl e \<Rightarrow> (Inl (Threw e), out, w)
        | Inr rootTree \<Rightarrow> and_then (treeLoop c a k key ref rootTree False None (out, w))
            (\<lambda>(tree, changed, maxTtl) (out, w).
               (Inr (), out, if changed then persistTree c ck maxTtl tree w else w)))) = (Inr (), out @ outs, w')
      \<and> (\<forall>k'. k' \<noteq> ck \<longrightarrow> store_get c w' k' = store_get c w k')
      \<and> (if str_truthy (store_get c w' ck) then ts_deserialize (tser c) (the (store_get c w' ck)) else Inr empty_tree) = Inr t'
      \<and> (\<forall>q. Option.bind (tree_at (a_now a) t' q) (decode c)
          = overlay (map step_value outs) (drop k (a_path a)) (\<lambda>q. Option.bind (tree_at (a_now a) t0 q) (decode c)) q)"
proof -
  let ?w = "if cond then emit (Acquire ck) w else w"
  have sw: "w_store ?w = w_store w" by simp
  have wf: "wf_tree t0" using buf tree_wf by (auto split: if_splits)
  obtain t1 ch m w1 where
    r: "treeLoop c a k key ref t0 False None (out, ?w) = (Inr (t1, ch, m), out @ outs, w1)"
    and s1: "w_store w1 = w_store ?w" and wf1: "wf_tree t1"
    and ov: "\<forall>q. Option.bind (tree_at (a_now a) t1 q) (decode c)
          = overlay (map step_value outs) (drop k (a_path a)) (\<lambda>q. Option.bind (tree_at (a_now a) t0 q) (decode c)) q"
    and un: "\<not> ch \<longrightarrow> \<not> False \<and> (\<forall>q. tree_at (a_now a) t1 q = tree_at (a_now a) t0 q)"
    using treeLoop_result [OF a k wf key outs, of False None ?w] by (elim exE conjE) (rule that)
  let ?w2 = "if ch then persistTree c ck m t1 w1 else w1"
  let ?w3 = "if cond then emit (ScheduleRelease ck) ?w2 else ?w2"
  let ?t = "if ch then strip t1 else t0"
  have s3: "w_store ?w3 = w_store ?w2" by simp
  have pt: "store_get c (persistTree c ck m t1 w1) k' = (if k' = ck then Some (ts_serialize (tser c) t1) else store_get c w k')" for k'
    using s1 by (simp add: persistTree_def Let_def get_store_set)
  have "(if str_truthy (store_get c ?w3 ck) then ts_deserialize (tser c) (the (store_get c ?w3 ck)) else Inr empty_tree) = Inr ?t"
    unfolding s3 using buf s1 tree_nonempty tree_roundtrip [OF wf1]
    by (cases ch; cases "str_truthy (store_get c w ck)") (simp_all add: pt)
  moreover have "store_get c ?w3 k' = store_get c w k'" if "k' \<noteq> ck" for k'
    unfolding s3 using that s1 by (simp add: pt)
  moreover have at: "tree_at (a_now a) ?t q = tree_at (a_now a) t1 q" for q
    using un tree_at_strip [OF wf1] by (cases ch) simp_all
  moreover have "Option.bind (tree_at (a_now a) ?t q) (decode c)
      = overlay (map step_value outs) (drop k (a_path a)) (\<lambda>q. Option.bind (tree_at (a_now a) t0 q) (decode c)) q" for q
    unfolding at using ov by blast
  moreover have "guarded cond ck w (\<lambda>w. (let buffer = store_get c w ck in
        case (if str_truthy buffer then ts_deserialize (tser c) (the buffer) else Inr empty_tree) of
          Inl e \<Rightarrow> (Inl (Threw e), out, w)
        | Inr rootTree \<Rightarrow> and_then (treeLoop c a k key ref rootTree False None (out, w))
            (\<lambda>(tree, changed, maxTtl) (out, w).
               (Inr (), out, if changed then persistTree c ck maxTtl tree w else w)))) = (Inr (), out @ outs, ?w3)"
    unfolding guarded_eq Let_def sw buf sum.case r and_then_simps prod.case by (rule refl)
  ultimately show ?thesis by blast
qed

text \<open>Both parts together: the values above the trees, and the tree of the path.\<close>

lemma node_value_parts:
  assumes p: "list_all sep_free p" "2 \<le> keyLevelNodes c" "keyLevelNodes c \<le> length p" and l1: "length vs1 = keyLevelNodes c"
    and n1: "\<And>q. valid_path q \<Longrightarrow> length q < keyLevelNodes c \<Longrightarrow> node_value c now s1 q = overlay vs1 p (node_value c now s) q"
    and n2: "\<And>q. valid_path q \<Longrightarrow> keyLevelNodes c \<le> length q \<Longrightarrow>
        st_get (c_storage c) s1 (join (take (keyLevelNodes c) q)) = st_get (c_storage c) s (join (take (keyLevelNodes c) q))"
    and o2: "\<forall>k'. k' \<noteq> join (take (keyLevelNodes c) p) \<longrightarrow> st_get (c_storage c) s2 k' = st_get (c_storage c) s1 k'"
    and ov: "\<forall>q. Option.bind (tree_at now (stored_tree c s2 p) q) (decode c)
        = overlay vs2 (drop (keyLevelNodes c) p) (\<lambda>q. Option.bind (tree_at now (stored_tree c s p) q) (decode c)) q"
    and q: "valid_path q"
  shows "node_value c now s2 q = overlay (vs1 @ vs2) p (node_value c now s) q"
proof -
  let ?k = "keyLevelNodes c"
  have u: "0 < ?k" using p(2) by simp
  consider (key) "length q < ?k" | (tree) "?k \<le> length q" "take ?k q = take ?k p" | (other) "?k \<le> length q" "take ?k q \<noteq> take ?k p"
    by fastforce
  then show ?thesis
  proof cases
    case key
    then have "take ?k q \<noteq> take ?k p" using p(3) by (metis length_take min.absorb2 min.cobounded1 min.absorb_iff1 not_le)
    then have "node_value c now s2 q = node_value c now s1 q"
      using storage_key_eq [OF q p(1) u p(3) u] o2 by (intro node_value_cong) blast
    with n1 [OF q key] overlay_prefix [of q vs1] key l1 show ?thesis by simp
  next
    case tree
    have "stored_tree c s q = stored_tree c s p" for s using tree by (simp add: stored_tree_def)
    then have nv: "node_value c now s q = Option.bind (tree_at now (stored_tree c s p) (drop ?k q)) (decode c)" for s
      unfolding node_value_def raw_at_tree [OF tree(1)] by simp
    have nv0: "node_value c now s (take ?k p @ q') = Option.bind (tree_at now (stored_tree c s p) q') (decode c)" for q'
      unfolding node_value_def using p(3) by (subst raw_at_tree) (auto simp: stored_tree_def)
    have "overlay (vs1 @ vs2) p (node_value c now s) q
        = overlay vs2 (drop ?k p) (\<lambda>q. node_value c now s (take ?k p @ q)) (drop ?k q)"
      using overlay_drop [of vs1 ?k q p] tree p(3) l1 by simp
    with ov nv [of s2] show ?thesis unfolding nv0 by simp
  next
    case other
    then have "node_value c now s2 q = node_value c now s q"
      using storage_key_eq [OF q p(1) u p(3) u] o2 n2 [OF q other(1)] by (intro node_value_cong) auto
    moreover have "q \<noteq> take (length q) p" using other by (metis min.absorb1 take_take)
    ultimately show ?thesis by (simp add: overlay_other)
  qed
qed

lemma deepTreeSet_keys:
  assumes a: "resuming a" and p: "valid_path (a_path a)" and k: "length (a_path a) < keyLevelNodes c"
    and outs: "outs = deep_steps a [] (map (\<lambda>i. first_step c a (raw_at c (a_now a) (w_store w)) (take i (a_path a)))
        [1..<Suc (length (a_path a))])"
  shows "\<exists>w'. deepTreeSet c a [] ([], w) = (Inr (), outs, w')
    \<and> (\<forall>q. valid_path q \<longrightarrow> node_value c (a_now a) (w_store w') q
        = overlay (None # map step_value outs) (a_path a) (node_value c (a_now a) (w_store w)) q)"
proof -
  let ?p = "a_path a"
  have m: "min (keyLevelNodes c - 1) (length ?p) = length ?p" using k by simp
  obtain w1 where r: "keyLoop c a (length ?p) 0 None None ([], w)
      = (Inr (length ?p, chained_key ?p (length ?p), path_ref (take (length ?p) ?p)), outs, w1)"
    and n1: "\<And>q. valid_path q \<Longrightarrow> length q < keyLevelNodes c \<Longrightarrow> node_value c (a_now a) (w_store w1) q
        = overlay (None # map step_value outs) ?p (node_value c (a_now a) (w_store w)) q"
    and n2: "\<And>q. valid_path q \<Longrightarrow> keyLevelNodes c \<le> length q \<Longrightarrow>
        store_get c w1 (join (take (keyLevelNodes c) q)) = store_get c w (join (take (keyLevelNodes c) q))"
    using keyLoop_overlay [OF a p k order_refl outs] by blast
  have "node_value c (a_now a) (w_store w1) q
        = overlay (None # map step_value outs) ?p (node_value c (a_now a) (w_store w)) q" if q: "valid_path q" for q
  proof (cases "length q < keyLevelNodes c")
    case False
    then have "q \<noteq> take (length q) ?p" using k by (metis length_take min.absorb4 min.cobounded1 not_le_imp_less order_le_less_trans)
    with node_value_cong [OF n2 [OF q]] False show ?thesis by (simp add: overlay_other)
  qed (use n1 q in blast)
  moreover have "deepTreeSet c a [] ([], w) = (Inr (), outs, w1)"
    unfolding deepTreeSet_def Let_def m using r by simp
  ultimately show ?thesis by blast
qed

lemma first_steps_tree:
  assumes "k = keyLevelNodes c"
  shows "map (\<lambda>i. first_step c a (raw_at c now s) (take i p)) [k..<Suc (length p)]
    = map (\<lambda>i. first_step c a (\<lambda>q. tree_at now (stored_tree c s p) (drop k q)) (take i p)) [k..<Suc (length p)]"
proof (intro map_cong refl)
  fix i assume "i \<in> set [k..<Suc (length p)]"
  then have i: "keyLevelNodes c \<le> length (take i p)" "take k (take i p) = take k p" using assms by (auto simp: min_def)
  then show "first_step c a (raw_at c now s) (take i p)
      = first_step c a (\<lambda>q. tree_at now (stored_tree c s p) (drop k q)) (take i p)"
    using raw_at_tree [OF i(1)] assms unfolding first_step_def by (simp add: stored_tree_def)
qed

lemma deepTreeSet_result:
  assumes a: "resuming a" "ttl_ok (a_ttl a)" and p: "valid_path (a_path a)" and k: "2 \<le> keyLevelNodes c"
    and rd: "tree_readable c (w_store w) (a_path a)"
    and outs: "outs = deep_steps a [] (map (\<lambda>i. first_step c a (raw_at c (a_now a) (w_store w)) (take i (a_path a)))
        [1..<Suc (length (a_path a))])"
  shows "\<exists>w'. deepTreeSet c a [] ([], w) = (Inr (), outs, w')
    \<and> (\<forall>q. valid_path q \<longrightarrow> node_value c (a_now a) (w_store w') q
        = overlay (None # map step_value outs) (a_path a) (node_value c (a_now a) (w_store w)) q)"
proof (cases "length (a_path a) < keyLevelNodes c")
  case True
  show ?thesis by (rule deepTreeSet_keys [OF a(1) p True outs])
next
  case False
  let ?p = "a_path a" and ?k = "keyLevelNodes c" and ?now = "a_now a"
  let ?u = "?k - 1" and ?s = "w_store w" and ?ck = "join (take (keyLevelNodes c) (a_path a))"
  let ?F = "\<lambda>i. first_step c a (raw_at c ?now ?s) (take i ?p)"
  let ?outs1 = "deep_steps a [] (map ?F [1..<?k])"
  let ?outs2 = "deep_steps a ?outs1 (map ?F [?k..<Suc (length ?p)])"
  have u: "?u < length ?p" "0 < ?u" "Suc ?u = ?k" "?u < ?k" "?k \<le> length ?p" "0 < ?k" using False k by auto
  have hd: "hd ?p \<noteq> []" and sf: "list_all sep_free ?p" using p by (auto simp: valid_path_def)
  have o: "outs = ?outs1 @ ?outs2"
    unfolding outs using upt_add_eq_append [of 1 ?k "Suc (length ?p) - ?k"] u
    by (simp add: deep_steps_append del: upt_Suc)
  have l1: "length (None # map step_value ?outs1) = ?k" and o1: "?outs1 = deep_steps a [] (map ?F [1..<Suc ?u])"
    using u(3) by simp_all
  obtain w1 where r1: "keyLoop c a ?u 0 None None ([], w)
      = (Inr (?u, chained_key ?p ?u, path_ref (take ?u ?p)), ?outs1, w1)"
    and n1: "\<And>q. valid_path q \<Longrightarrow> length q < ?k \<Longrightarrow> node_value c ?now (w_store w1) q
        = overlay (None # map step_value ?outs1) ?p (node_value c ?now ?s) q"
    and n2: "\<And>q. valid_path q \<Longrightarrow> ?k \<le> length q \<Longrightarrow>
        store_get c w1 (join (take ?k q)) = store_get c w (join (take ?k q))"
    using keyLoop_overlay [OF a(1) p u(4) less_imp_le [OF u(1)] o1] by blast
  have ck: "getChainedKey ?p ?u (chained_key ?p ?u) = Inr (?ck, ?p ! ?u)"
    using getChainedKey_next [OF u(1) hd] u(3) by simp
  have tr: "str_truthy (chained_key ?p ?u)"
    using u hd by (cases ?p) (auto simp: join_eq_Nil_iff take_Cons')
  have ref: "ChainedObject (?p ! ?u) ?k (path_ref (take ?u ?p)) = node_ref (take ?k ?p)"
    using node_ref_take [OF u(1)] u(3) by simp
  have buf: "(if str_truthy (store_get c w1 ?ck) then ts_deserialize (tser c) (the (store_get c w1 ?ck)) else Inr empty_tree)
      = Inr (stored_tree c ?s ?p)"
    using rd u(5) unfolding n2 [OF p u(5)] by (auto simp: tree_readable_def stored_tree_def Let_def)
  note tree = treePart_result [OF a u(6) u(5) ref buf arg_cong [OF first_steps_tree [OF refl], where f = "deep_steps a ?outs1"],
      where cond = "a_minLevelSemaphore a \<le> ?k"]
  from tree obtain w2 t2 where o2: "\<forall>k'. k' \<noteq> ?ck \<longrightarrow> store_get c w2 k' = store_get c w1 k'"
    and t2: "(if str_truthy (store_get c w2 ?ck) then ts_deserialize (tser c) (the (store_get c w2 ?ck)) else Inr empty_tree) = Inr t2"
    and ov: "\<forall>q. Option.bind (tree_at ?now t2 q) (decode c) = overlay (map step_value ?outs2) (drop ?k ?p)
          (\<lambda>q. Option.bind (tree_at ?now (stored_tree c ?s ?p) q) (decode c)) q"
    and run: "deepTreeSet c a [] ([], w) = (Inr (), outs, w2)"
    by (elim exE conjE) (rule that, assumption+,
      simp only: deepTreeSet_def Let_def min.absorb1 [OF less_imp_le [OF u(1)]] o list.size less_irrefl if_False r1
        and_then_simps prod.case u(1) if_True tr not_True_eq_False ck sum.case u(3))
  have "stored_tree c (w_store w2) ?p = t2"
    using t2 by (auto simp: stored_tree_def Let_def split: if_splits)
  with node_value_parts [OF sf k u(5) l1 n1 n2 o2 ov [folded this]] run o show ?thesis by simp
qed

lemma setNodeArgs_body:
  "given_value value = Some v \<Longrightarrow> a_body (setNodeArgs path value ttl now) out st
     = Resume (if step_level st = length path then Some v else step_value st)"
  by (auto simp: setNodeArgs_def setNodeBody_def given_value_def split: nodeValue.splits sum.splits)

lemma setNodeArgs_resuming: "given_value value = Some v \<Longrightarrow> resuming (setNodeArgs path value ttl now)"
  by (auto simp: resuming_def setNodeArgs_body)

lemma setNode_deep:
  assumes p: "valid_path path" and k: "2 \<le> keyLevelNodes c" and t: "ttl_ok ttl"
    and rd: "tree_readable c (w_store w) path" and v: "given_value value = Some v"
  shows "\<exists>outs w'. deepTreeSet c (setNodeArgs path value ttl now) [] ([], w) = (Inr (), outs, w')
    \<and> (\<forall>q. valid_path q \<longrightarrow>
        node_value c now (w_store w') q = ((node_value c now (w_store w))(path := Some v)) q)"
proof -
  let ?a = "setNodeArgs path value ttl now" and ?f = "node_value c now (w_store w)"
  let ?F = "\<lambda>i. first_step c ?a (raw_at c now (w_store w)) (take i path)"
  let ?outs = "deep_steps ?a [] (map ?F [1..<Suc (length path)])"
  have sel: "a_path ?a = path" "a_ttl ?a = ttl" "a_now ?a = now" by (simp_all add: setNodeArgs_def)
  note body = setNodeArgs_body [OF v] and r = setNodeArgs_resuming [OF v]
  obtain w' where run: "deepTreeSet c ?a [] ([], w) = (Inr (), ?outs, w')"
    and nv: "\<And>q. valid_path q \<Longrightarrow> node_value c now (w_store w') q = overlay (None # map step_value ?outs) path ?f q"
    using deepTreeSet_result [of ?a w, OF r [of path ttl now]] p k t rd unfolding sel by blast
  have outs: "?outs = map (\<lambda>i. replied ?a [] (?F i)) [1..<Suc (length path)]"
    using deep_steps_map [of ?a] body by (simp add: comp_def del: upt_Suc)
  have val: "step_value (replied ?a [] (?F i)) = (if i = length path then Some v else ?f (take i path))"
    if "i \<le> length path" for i
  proof -
    have "initial c ?a ref cs = Option.bind cs (decode c)" for ref cs
      by (simp add: initial_def setNodeArgs_def split: option.splits)
    then have "step_level (?F i) = i" "step_value (?F i) = ?f (take i path)"
      using that by (simp_all add: first_step_def mountStep_def node_value_def)
    then show ?thesis by (simp add: replied_def answer_def body)
  qed
  have "overlay (None # map step_value ?outs) path ?f q = (?f(path := Some v)) q" if q: "q \<noteq> []" for q
  proof (cases "length q \<le> length path \<and> q = take (length q) path")
    case True
    then have "overlay (None # map step_value ?outs) path ?f q
        = (case step_value (replied ?a [] (?F (length q))) of None \<Rightarrow> ?f q | Some v \<Rightarrow> Some v)"
      using q unfolding outs overlay_def
      by (cases "length q") (auto simp: nth_append simp del: upt_Suc)
    with val [of "length q"] True show ?thesis by (auto split: option.splits)
  next
    case False
    then have "q \<noteq> path" by auto
    moreover have "overlay (None # map step_value ?outs) path ?f q = ?f q"
      using False by (auto simp: overlay_def simp del: upt_Suc)
    ultimately show ?thesis by simp
  qed
  with nv have "\<forall>q. valid_path q \<longrightarrow> node_value c now (w_store w') q = (?f(path := Some v)) q"
    by (simp add: valid_path_def)
  with run show ?thesis by blast
qed

lemma setNode_result:
  assumes "valid_path path" "2 \<le> keyLevelNodes c" "ttl_ok ttl"
    and "tree_readable c (w_store w) path" "given_value value = Some v"
  shows "\<exists>w'. setNode c path value ttl now w = (Inr (), w')
    \<and> (\<forall>q. valid_path q \<longrightarrow>
        node_value c now (w_store w') q = ((node_value c now (w_store w))(path := Some v)) q)"
  using setNode_deep [OF assms, of now] assms(5)
  by (auto simp: setNode_def given_value_def split: nodeValue.splits option.splits)

lemma getNode_value:
  assumes "plain_cache c" "path \<noteq> []" "0 < keyLevelNodes c" "node_value c now (w_store w) path = Some v"
  shows "fst (getNode c path now w) = Inr (Some (mountStep (node_ref path) (Some v)))"
proof -
  obtain r where r: "raw_at c now (w_store w) path = Some r" "decode c r = Some v"
    using assms(4) by (auto simp: node_value_def bind_eq_Some_conv)
  then have "r \<noteq> []" using value_empty by (auto simp: decode_def split: sum.splits)
  with getNode_raw_at [OF assms(1-3), of now w] r show ?thesis by auto
qed

end

section \<open>Errors\<close>

lemma deepTreeSet_no_keys:
  "keyLevelNodes c \<le> 1 \<Longrightarrow> a_path a \<noteq> [] \<Longrightarrow> deepTreeSet c a [] (out, w) = (Inl (Threw NonConsistentStorage), out, w)"
  by (simp add: deepTreeSet_def keyLoop.simps [of c a 0])

lemma setNode_no_keys:
  "keyLevelNodes c \<le> 1 \<Longrightarrow> path \<noteq> [] \<Longrightarrow> value \<noteq> Given None \<Longrightarrow>
   setNode c path value ttl now w = (Inl NonConsistentStorage, w)"
  by (auto simp: setNode_def deepTreeSet_no_keys setNodeArgs_def split: nodeValue.splits option.splits)

end
