(* ===== verification/Cache_Prune.thy ===== *)
theory Cache_Prune
  imports Cache_Traversals
begin

text \<open>
  Pruning of a tree (\<open>src/internal/prune-tree.ts\<close>). The source walks the tree in post order and
  mutates the visited nodes in place, keeping per level a map from the keys visited under the
  current parent to whether their branch is empty. Here the mutable tree is a value that every
  step updates at the path of the visited node, and the array of maps is a list with holes.
  The main lemma shows that this loop computes the recursive function \<open>prune_ref\<close>; the others
  say what that function keeps and what it removes.
\<close>

section \<open>The array of maps\<close>

type_synonym emap = "(key \<times> bool) list"

definition stack_at :: "nat \<Rightarrow> emap option list \<Rightarrow> emap" where
  "stack_at i st = (if i < length st then (case st ! i of None \<Rightarrow> [] | Some m \<Rightarrow> m) else [])"

definition stack_set :: "nat \<Rightarrow> emap \<Rightarrow> emap option list \<Rightarrow> emap option list" where
  "stack_set i m st =
     (if i < length st then st[i := Some m] else st @ replicate (i - length st) None @ [Some m])"

section \<open>The loop\<close>

fun pruneEntries ::
  "key \<Rightarrow> nat \<Rightarrow> emap \<Rightarrow> (key \<times> 'a tree option) list \<Rightarrow> bool \<Rightarrow> bool \<Rightarrow> emap option list
   \<Rightarrow> (key \<times> 'a tree option) list \<times> bool \<times> bool \<times> emap option list" where
  "pruneEntries itemKey level [] children changed removeAllChildren stack = (children, changed, removeAllChildren, stack)"
| "pruneEntries itemKey level ((key, isEmpty) # entries) children changed removeAllChildren stack =
     (if isEmpty
      then pruneEntries itemKey level entries (obj_put key None children) True removeAllChildren stack
      else pruneEntries itemKey level entries children changed False
             (stack_set level (AList.update itemKey False (stack_at level stack)) stack))"

definition pruneChildren ::
  "key \<Rightarrow> nat \<Rightarrow> 'a tree \<Rightarrow> bool \<Rightarrow> emap option list \<Rightarrow> 'a tree \<times> bool \<times> emap option list" where
  "pruneChildren itemKey level tree changed stack =
     (if length stack > level + 1 then
        (let popped = last stack; stack = butlast stack in
         case (popped, tchildren tree) of
           (Some entries, Some children) \<Rightarrow>
             (case pruneEntries itemKey level entries children changed True stack of
                (children, changed, removeAllChildren, stack) \<Rightarrow>
                  (set_children (if removeAllChildren then None else Some children) tree, changed, stack))
         | _ \<Rightarrow> (tree, changed, stack))
      else (tree, changed, stack))"

definition pruneItem ::
  "nat \<Rightarrow> nat \<Rightarrow> 'a item \<Rightarrow> 'a tree \<times> bool \<times> emap option list \<Rightarrow> 'a tree \<times> bool \<times> emap option list" where
  "pruneItem basePath baseLevel i state = (case state of (root, changed, stack) \<Rightarrow>
     (let rel = drop basePath (chain_path (item_ref i));
          level = it_level i - baseLevel + 1
      in case tree_lookup root rel of
           None \<Rightarrow> (root, changed, stack)
         | Some tree \<Rightarrow>
             (case pruneChildren (it_key i) level tree changed stack of (tree, changed, stack) \<Rightarrow>
                (let undefinedValue = isUndefinedOrNull (it_value i);
                     tree = (if undefinedValue then set_deadline None (set_value None tree) else tree);
                     changed = (changed \<or> undefinedValue);
                     pos = stack_at level stack;
                     stack = (if map_of pos (it_key i) \<noteq> Some False
                              then stack_set level (AList.update (it_key i) undefinedValue pos) stack
                              else stack)
                 in (tree_replace rel tree root, changed, stack)))))"

definition pruneTree :: "'a tree \<Rightarrow> chained option \<Rightarrow> int \<Rightarrow> bool \<times> 'a tree" where
  "pruneTree rootTree parentRef now =
     (case fold (pruneItem (length (opt_path parentRef)) (case parentRef of None \<Rightarrow> 0 | Some p \<Rightarrow> ch_level p))
             (treePostOrderDepthFirstSearch rootTree parentRef now) (rootTree, False, [])
      of (tree, changed, _) \<Rightarrow> (changed, tree))"

section \<open>The reference function\<close>

text \<open>A branch is dead when neither its root nor any node below has a live value.\<close>

fun dead :: "int \<Rightarrow> 'a tree \<Rightarrow> bool" where
  "dead now t \<longleftrightarrow> getTreeCurrentSerializedValue t now = None \<and> list_all (\<lambda>(k, u). dead now u) (kids t)"

declare dead.simps [simp del]

text \<open>Some node of the tree has no live value: exactly then the source reports a change.\<close>

fun has_unset :: "int \<Rightarrow> 'a tree \<Rightarrow> bool" where
  "has_unset now t \<longleftrightarrow>
     getTreeCurrentSerializedValue t now = None \<or> list_ex (\<lambda>(k, u). has_unset now u) (kids t)"

declare has_unset.simps [simp del]

text \<open>Dead branches go, expired values go, everything else stays.\<close>

lemma child_size [termination_simp]:
  "tchildren t = Some ps \<Longrightarrow> (k, Some u) \<in> set ps \<Longrightarrow> size u < size t"
  using kid_size [of k u t] by (auto simp: in_kids_iff)

definition clear_value :: "int \<Rightarrow> 'a tree \<Rightarrow> 'a tree" where
  "clear_value now t = (if getTreeCurrentSerializedValue t now = None
     then set_deadline None (set_value None t) else t)"

function prune_ref :: "int \<Rightarrow> 'a tree \<Rightarrow> 'a tree" where
  "prune_ref now t = clear_value now (set_children
     (if kids t \<noteq> [] \<and> list_all (\<lambda>(k, u). dead now u) (kids t) then None
      else (case tchildren t of None \<Rightarrow> None
        | Some ps \<Rightarrow> Some (map (\<lambda>(k, c). (k, case c of None \<Rightarrow> None
            | Some u \<Rightarrow> if dead now u then None else Some (prune_ref now u))) ps))) t)"
  by pat_completeness auto
termination
  by (relation "measure (\<lambda>(_, t). size t)") (auto intro: child_size)

declare prune_ref.simps [simp del]

section \<open>Lemmas on in-place updates\<close>

lemma update_middle: "k \<notin> fst ` set qs \<Longrightarrow> AList.update k v (qs @ (k, c) # ps) = qs @ (k, v) # ps"
  by (induction qs) auto

lemma update_twice: "AList.update k v (AList.update k w ps) = AList.update k v ps"
  by (induction ps) auto

lemma put_child_self: "tree_child t k = Some c \<Longrightarrow> put_child k c t = t"
proof -
  assume c: "tree_child t k = Some c"
  then obtain ps where ps: "tchildren t = Some ps" "map_of ps k = Some (Some c)"
    by (auto simp: tree_child_def bind_eq_Some_conv split: option.splits)
  then have "obj_put k (Some c) ps = ps"
    by (auto simp: obj_put_def update_triv dest!: map_of_SomeD intro: rev_image_eqI)
  with ps show ?thesis
    by (cases t) (simp add: put_child_def children_or_empty_def set_children_def)
qed

lemma put_child_twice:
  "tree_child t k = Some c \<Longrightarrow> put_child k v (put_child k w t) = put_child k v t"
proof -
  assume c: "tree_child t k = Some c"
  then obtain ps where ps: "tchildren t = Some ps" "k \<in> fst ` set ps"
    by (force simp: tree_child_def bind_eq_Some_conv split: option.splits dest: map_of_SomeD)
  then have "obj_put k (Some v) (obj_put k (Some w) ps) = obj_put k (Some v) ps"
    by (simp add: obj_put_def update_twice dom_update)
  with ps show ?thesis
    by (simp add: put_child_def children_or_empty_def set_children_def)
qed

lemma lookup_replace: "tree_lookup t r = Some x \<Longrightarrow> tree_lookup (tree_replace r u t) r = Some u"
  by (induction r arbitrary: t) (auto split: option.splits)

lemma replace_self: "tree_lookup t r = Some x \<Longrightarrow> tree_replace r x t = t"
  by (induction r arbitrary: t) (auto simp: put_child_self split: option.splits)

lemma replace_replace:
  "tree_lookup t r = Some x \<Longrightarrow> tree_replace r v (tree_replace r u t) = tree_replace r v t"
  by (induction r arbitrary: t) (auto simp: put_child_twice split: option.splits)

lemma replace_child:
  "tree_lookup t r = Some x \<Longrightarrow> tree_child x k = Some c
   \<Longrightarrow> tree_replace (r @ [k]) v t = tree_replace r (put_child k v x) t"
  by (induction r arbitrary: t) (auto split: option.splits)

section \<open>Lemmas on the array of maps\<close>

lemma stack_at_set [simp]: "stack_at i (stack_set i m st) = m"
  by (auto simp: stack_at_def stack_set_def nth_append)

lemma stack_set_set [simp]: "stack_set i m (stack_set i n st) = stack_set i m st"
  by (auto simp: stack_set_def list_update_append nth_append)

lemma length_stack_set: "length (stack_set i m st) = max (Suc i) (length st)"
  by (auto simp: stack_set_def)

lemma stack_at_beyond [simp]: "length st \<le> i \<Longrightarrow> stack_at i st = []"
  by (simp add: stack_at_def)

text \<open>Popping the map of the children leaves the array padded up to the level of the parent.\<close>

lemma last_stack_set: "length st \<le> Suc l \<Longrightarrow> last (stack_set (Suc l) m st) = Some m"
  by (simp add: stack_set_def)

lemma stack_at_butlast:
  "length st \<le> Suc l \<Longrightarrow> stack_at l (butlast (stack_set (Suc l) m st)) = stack_at l st"
  by (auto simp: stack_at_def stack_set_def butlast_append nth_append)

lemma stack_set_butlast:
  assumes "length st \<le> Suc l"
  shows "stack_set l n (butlast (stack_set (Suc l) m st)) = stack_set l n st"
proof (cases "length st = Suc l")
  case True
  then show ?thesis by (simp add: stack_set_def)
next
  case False
  define d where "d = l - length st"
  with False assms have l: "l = length st + d" by simp
  have "(replicate d None @ [None])[d := Some n] = replicate d None @ [Some n]"
    using list_update_length [of "replicate d None" None "[]" "Some n"] by simp
  then show ?thesis
    by (simp add: stack_set_def butlast_append l list_update_append Suc_diff_le
        flip: replicate_append_same)
qed

section \<open>Children that have been visited\<close>

lemma fold_update_kids:
  "distinct (map fst (qs @ ps)) \<Longrightarrow>
   fold (\<lambda>(k, u). AList.update k (Some (f u))) (kids_of (Some ps)) (qs @ ps)
   = qs @ map (\<lambda>(k, c). (k, map_option f c)) ps"
proof (induction ps arbitrary: qs)
  case (Cons p ps)
  obtain k c where p: "p = (k, c)" by force
  from Cons.IH [of "qs @ [(k, map_option f c)]"] Cons.prems p show ?case
    by (cases c) (auto simp: kids_of_def update_middle)
qed (simp add: kids_of_def)

lemma fold_put_children:
  "tchildren t = Some cs \<Longrightarrow> fst ` set ks \<subseteq> fst ` set cs \<Longrightarrow>
   fold (\<lambda>(k, u). put_child k (f u)) ks t
   = set_children (Some (fold (\<lambda>(k, u). AList.update k (Some (f u))) ks cs)) t"
proof (induction ks arbitrary: t cs)
  case Nil
  then show ?case by (cases t) (simp add: set_children_def)
next
  case (Cons p ks)
  obtain k u where p: "p = (k, u)" by force
  let ?t = "put_child k (f u) t" and ?cs = "AList.update k (Some (f u)) cs"
  have t: "?t = set_children (Some ?cs) t"
    using Cons.prems p by (auto simp: put_child_def children_or_empty_def obj_put_def)
  have "fold (\<lambda>(k, u). put_child k (f u)) ks ?t
        = set_children (Some (fold (\<lambda>(k, u). AList.update k (Some (f u))) ks ?cs)) ?t"
    using Cons.prems p by (intro Cons.IH) (auto simp: t dom_update)
  then show ?case by (simp add: p t set_children_def)
qed

lemma fold_put_kids:
  assumes "wf_tree t"
  shows "fold (\<lambda>(k, u). put_child k (f u)) (kids t) t
         = set_children (map_option (map (\<lambda>(k, c). (k, map_option f c))) (tchildren t)) t"
proof (cases "tchildren t")
  case None
  then show ?thesis by (cases t) (simp add: kids_def kids_of_def set_children_def)
next
  case (Some ps)
  then have "distinct (map fst ps)"
    using wf_tree_distinct [of t] assms by (simp add: children_or_empty_def)
  then have "fold (\<lambda>(k, u). AList.update k (Some (f u))) (kids t) ps
      = map (\<lambda>(k, c). (k, map_option f c)) ps"
    using fold_update_kids [of "[]" ps f] by (simp add: kids_def Some)
  moreover have "fst ` set (kids t) \<subseteq> fst ` set ps"
    by (force simp: kids_def Some kids_of_def)
  ultimately show ?thesis
    using fold_put_children [OF Some, of "kids t" f] Some by simp
qed

lemma pruneEntries_result:
  "distinct (map fst (qs @ ps)) \<Longrightarrow>
   pruneEntries ik l (map (\<lambda>(k, u). (k, dead now u)) (kids_of (Some ps)))
     (qs @ map (\<lambda>(k, c). (k, map_option f c)) ps) ch rm st
   = (qs @ map (\<lambda>(k, c). (k, case c of None \<Rightarrow> None | Some u \<Rightarrow> if dead now u then None else Some (f u))) ps,
      ch \<or> list_ex (\<lambda>(k, u). dead now u) (kids_of (Some ps)),
      rm \<and> list_all (\<lambda>(k, u). dead now u) (kids_of (Some ps)),
      if list_all (\<lambda>(k, u). dead now u) (kids_of (Some ps)) then st
      else stack_set l (AList.update ik False (stack_at l st)) st)"
proof (induction ps arbitrary: qs ch rm st)
  case Nil
  then show ?case by (simp add: kids_of_def)
next
  case (Cons p ps)
  obtain k c where p: "p = (k, c)" by force
  show ?case
  proof (cases c)
    case None
    with Cons.IH [of "qs @ [(k, None)]"] Cons.prems p show ?thesis
      by (simp add: kids_of_def)
  next
    case (Some u)
    have put: "obj_put k None (qs @ (k, w) # xs) = qs @ (k, None) # xs" for w and xs :: "(key \<times> 'a tree option) list"
      using Cons.prems p by (auto simp: obj_put_def update_middle)
    show ?thesis
      using Cons.IH [of "qs @ [(k, if dead now u then None else Some (f u))]"] Cons.prems p Some put
      by (auto simp: kids_of_def update_twice)
  qed
qed

section \<open>One node\<close>

text \<open>The node whose children have been pruned, and the map the children have left behind.\<close>

abbreviation mid_tree :: "int \<Rightarrow> 'a tree \<Rightarrow> 'a tree" where
  "mid_tree now t \<equiv>
     set_children (map_option (map (\<lambda>(k, c). (k, map_option (prune_ref now) c))) (tchildren t)) t"

abbreviation kid_map :: "int \<Rightarrow> 'a tree \<Rightarrow> emap" where
  "kid_map now t \<equiv> map (\<lambda>(k, u). (k, dead now u)) (kids t)"

abbreviation all_dead :: "int \<Rightarrow> 'a tree \<Rightarrow> bool" where
  "all_dead now t \<equiv> list_all (\<lambda>(k, u). dead now u) (kids t)"

definition pruned_children :: "int \<Rightarrow> 'a tree \<Rightarrow> (key \<times> 'a tree option) list option" where
  "pruned_children now t = (if kids t \<noteq> [] \<and> all_dead now t then None
     else (case tchildren t of None \<Rightarrow> None
       | Some ps \<Rightarrow> Some (map (\<lambda>(k, c). (k, case c of None \<Rightarrow> None
           | Some u \<Rightarrow> if dead now u then None else Some (prune_ref now u))) ps)))"

lemma prune_ref_eq: "prune_ref now t = clear_value now (set_children (pruned_children now t) t)"
  by (simp add: prune_ref.simps [of now t] pruned_children_def cong: option.case_cong)

lemma update_new: "k \<notin> fst ` set ps \<Longrightarrow> AList.update k v ps = ps @ [(k, v)]"
  by (induction ps) auto

lemma set_children_twice [simp]: "set_children c (set_children d t) = set_children c t"
  by (simp add: set_children_def)

lemma pruneChildren_result:
  assumes wf: "wf_tree t" and len: "length st \<le> Suc l" and new: "ik \<notin> fst ` set (stack_at l st)"
  shows "\<exists>st'. pruneChildren ik l (mid_tree now t) ch
             (if kids t = [] then st else stack_set (Suc l) (kid_map now t) st)
           = (set_children (pruned_children now t) t, ch \<or> list_ex (\<lambda>(k, u). dead now u) (kids t), st')
         \<and> stack_at l st' = (if all_dead now t then stack_at l st else stack_at l st @ [(ik, False)])
         \<and> (\<forall>m. stack_set l m st' = stack_set l m st)
         \<and> (\<not> all_dead now t \<longrightarrow> st' = stack_set l (stack_at l st @ [(ik, False)]) st)"
proof (cases "kids t = []")
  case True
  then have "(case tchildren t of None \<Rightarrow> True | Some ps \<Rightarrow> \<forall>(k, c) \<in> set ps. c = None)"
    by (auto simp: kids_def kids_of_def filter_empty_conv split: option.splits)
  then have "map_option (map (\<lambda>(k, c). (k, map_option (prune_ref now) c))) (tchildren t) = pruned_children now t"
    by (auto simp: pruned_children_def True split: option.splits)
  with True len show ?thesis by (simp add: pruneChildren_def)
next
  case False
  then obtain ps where ps: "tchildren t = Some ps" by (auto simp: kids_def kids_of_def split: option.splits)
  have d: "distinct (map fst ([] @ ps))"
    using wf_tree_distinct [OF wf] by (simp add: children_or_empty_def ps)
  let ?st = "stack_set (Suc l) (kid_map now t) st"
  have k: "kids t = kids_of (Some ps)" by (simp add: kids_def ps)
  have pop: "length ?st > l + 1" "last ?st = Some (kid_map now t)"
    using len by (auto simp: length_stack_set last_stack_set)
  let ?b = "butlast ?st"
  have b: "stack_at l ?b = stack_at l st" "\<And>m. stack_set l m ?b = stack_set l m st"
    using len by (auto simp: stack_at_butlast stack_set_butlast)
  show ?thesis
    using pruneEntries_result [OF d, of ik l now "prune_ref now" ch True ?b] False pop b ps new
    by (auto simp: pruneChildren_def Let_def k pruned_children_def update_new)
qed

lemma pruneItem_result:
  assumes wf: "wf_tree t" and look: "tree_lookup root r = Some (mid_tree now t)"
    and len: "length st \<le> Suc l" and new: "it_key i \<notin> fst ` set (stack_at l st)"
    and item: "drop b (chain_path (item_ref i)) = r" "it_level i - bl + 1 = l"
      "it_value i = getTreeCurrentSerializedValue t now"
  shows "pruneItem b bl i
           (root, ch, if kids t = [] then st else stack_set (Suc l) (kid_map now t) st)
         = (tree_replace r (prune_ref now t) root,
            ch \<or> list_ex (\<lambda>(k, u). dead now u) (kids t) \<or> getTreeCurrentSerializedValue t now = None,
            stack_set l (stack_at l st @ [(it_key i, dead now t)]) st)"
proof -
  from pruneChildren_result [OF wf len new, of now ch] obtain st' where
    pc: "pruneChildren (it_key i) l (mid_tree now t) ch
           (if kids t = [] then st else stack_set (Suc l) (kid_map now t) st)
         = (set_children (pruned_children now t) t, ch \<or> list_ex (\<lambda>(k, u). dead now u) (kids t), st')"
    and at: "stack_at l st' = (if all_dead now t then stack_at l st else stack_at l st @ [(it_key i, False)])"
    and set: "\<And>m. stack_set l m st' = stack_set l m st"
    and live: "\<not> all_dead now t \<longrightarrow> st' = stack_set l (stack_at l st @ [(it_key i, False)]) st"
    by blast
  have "map_of (stack_at l st) (it_key i) = None"
    using new by (simp add: map_of_eq_None_iff)
  with pc at set live look item new show ?thesis
    by (auto simp: pruneItem_def Let_def prune_ref_eq clear_value_def dead.simps [of now t] update_new
        map_add_def)
qed

section \<open>The loop computes the reference function\<close>

lemma dead_has_unset: "list_ex (\<lambda>(k, u). dead now u) ks \<Longrightarrow> list_ex (\<lambda>(k, u). has_unset now u) ks"
  by (auto simp: list_ex_iff dead.simps has_unset.simps)

text \<open>
  Below the node at path \<open>r\<close>: the items of the branches \<open>ks\<close> of that node are processed, given
  that the loop is correct on each of the branches (\<open>sub\<close>).
\<close>

lemma prune_branches:
  assumes sub: "\<And>k u root ch st. (k, u) \<in> set ks \<Longrightarrow> tree_lookup root (r @ [k]) = Some u \<Longrightarrow>
      length st \<le> Suc (Suc l) \<Longrightarrow> k \<notin> fst ` set (stack_at (Suc l) st) \<Longrightarrow>
      fold step (items k u) (root, ch, st)
      = (tree_replace (r @ [k]) (prune_ref now u) root, ch \<or> has_unset now u,
         stack_set (Suc l) (stack_at (Suc l) st @ [(k, dead now u)]) st)"
    and look: "tree_lookup root r = Some y" "\<And>k u. (k, u) \<in> set ks \<Longrightarrow> tree_child y k = Some u"
    and d: "distinct (map fst ks)" and len: "length st \<le> Suc (Suc l)"
    and new: "fst ` set ks \<inter> fst ` set (stack_at (Suc l) st) = {}"
  shows "fold step (concat (map (\<lambda>(k, u). items k u) ks)) (root, ch, st)
         = (tree_replace r (fold (\<lambda>(k, u). put_child k (prune_ref now u)) ks y) root,
            ch \<or> list_ex (\<lambda>(k, u). has_unset now u) ks,
            if ks = [] then st
            else stack_set (Suc l) (stack_at (Suc l) st @ map (\<lambda>(k, u). (k, dead now u)) ks) st)"
  using sub look d len new
proof (induction ks arbitrary: root y ch st)
  case Nil
  then show ?case by (simp add: replace_self)
next
  case (Cons p ks)
  obtain k u where p: "p = (k, u)" by force
  let ?root = "tree_replace (r @ [k]) (prune_ref now u) root"
  let ?st = "stack_set (Suc l) (stack_at (Suc l) st @ [(k, dead now u)]) st"
  let ?y = "put_child k (prune_ref now u) y"
  have child: "tree_child y k = Some u" using Cons.prems(3) p by simp
  have root: "?root = tree_replace r ?y root"
    by (rule replace_child [OF Cons.prems(2) child])
  have first: "fold step (items k u) (root, ch, st) = (?root, ch \<or> has_unset now u, ?st)"
  proof (rule Cons.prems(1))
    show "tree_lookup root (r @ [k]) = Some u"
      by (simp add: tree_lookup_append Cons.prems(2) child)
  qed (use Cons.prems(5,6) p in auto)
  have "fold step (concat (map (\<lambda>(k, u). items k u) ks)) (?root, ch \<or> has_unset now u, ?st)
        = (tree_replace r (fold (\<lambda>(k, u). put_child k (prune_ref now u)) ks ?y) ?root,
           (ch \<or> has_unset now u) \<or> list_ex (\<lambda>(k, u). has_unset now u) ks,
           if ks = [] then ?st
           else stack_set (Suc l) (stack_at (Suc l) ?st @ map (\<lambda>(k, u). (k, dead now u)) ks) ?st)"
  proof (rule Cons.IH)
    show "tree_lookup ?root r = Some ?y"
      using lookup_replace [OF Cons.prems(2)] root by simp
    show "tree_child ?y k' = Some u'" if "(k', u') \<in> set ks" for k' u'
      using that Cons.prems(3,4) p by (force simp: image_iff)
    show "length ?st \<le> Suc (Suc l)" using Cons.prems(5) by (simp add: length_stack_set)
    show "fst ` set ks \<inter> fst ` set (stack_at (Suc l) ?st) = {}"
      using Cons.prems(4,6) p by auto
  qed (use Cons.prems p in auto)
  then show ?case
    using first root p replace_replace [OF Cons.prems(2)] by simp
qed

lemma prune_subtree:
  "wf_tree t \<Longrightarrow> tree_lookup root (rp @ [k]) = Some t \<Longrightarrow> length (opt_path p) = b + length rp \<Longrightarrow>
   drop b (opt_path p) = rp \<Longrightarrow> (case p of None \<Rightarrow> 0 | Some c \<Rightarrow> ch_level c) = bl + length rp \<Longrightarrow>
   length st \<le> Suc (Suc (Suc (length rp))) \<Longrightarrow> k \<notin> fst ` set (stack_at (Suc (Suc (length rp))) st) \<Longrightarrow>
   fold (pruneItem b bl) (post_items now p k t) (root, ch, st)
   = (tree_replace (rp @ [k]) (prune_ref now t) root, ch \<or> has_unset now t,
      stack_set (Suc (Suc (length rp))) (stack_at (Suc (Suc (length rp))) st @ [(k, dead now t)]) st)"
proof (induction t arbitrary: root rp k p ch st rule: tree_kids_induct)
  case (Tree t)
  let ?l = "Suc (Suc (length rp))" and ?r = "rp @ [k]"
  let ?i = "createTraversalItem k ((case p of None \<Rightarrow> 0 | Some c \<Rightarrow> ch_level c) + 1) p t now"
  let ?root = "tree_replace ?r (mid_tree now t) root"
  have below: "fold (pruneItem b bl)
        (concat (map (\<lambda>(k', u). post_items now (Some (item_ref ?i)) k' u) (kids t))) (root, ch, st)
      = (tree_replace ?r (fold (\<lambda>(k, u). put_child k (prune_ref now u)) (kids t) t) root,
         ch \<or> list_ex (\<lambda>(k, u). has_unset now u) (kids t),
         if kids t = [] then st else stack_set (Suc ?l) (stack_at (Suc ?l) st @ kid_map now t) st)"
  proof (rule prune_branches)
    fix k' u root' ch' st'
    assume ku: "(k', u) \<in> set (kids t)" and look: "tree_lookup root' (?r @ [k']) = Some u"
      and len: "length st' \<le> Suc (Suc ?l)" and new: "k' \<notin> fst ` set (stack_at (Suc ?l) st')"
    show "fold (pruneItem b bl) (post_items now (Some (item_ref ?i)) k' u) (root', ch', st')
        = (tree_replace (?r @ [k']) (prune_ref now u) root', ch' \<or> has_unset now u,
           stack_set (Suc ?l) (stack_at (Suc ?l) st' @ [(k', dead now u)]) st')"
      using Tree.IH [OF ku wf_kid [OF Tree.prems(1) ku] look, of "Some (item_ref ?i)" st' ch'] len new
        Tree.prems(3,4,5) by simp
  qed (use Tree.prems in \<open>auto simp: tree_child_Some_iff distinct_kids\<close>)
  have look: "tree_lookup ?root ?r = Some (mid_tree now t)"
    by (rule lookup_replace [OF Tree.prems(2)])
  have step: "pruneItem b bl ?i (?root, ch \<or> list_ex (\<lambda>(k, u). has_unset now u) (kids t),
        if kids t = [] then st else stack_set (Suc ?l) (kid_map now t) st)
      = (tree_replace ?r (prune_ref now t) ?root,
         (ch \<or> list_ex (\<lambda>(k, u). has_unset now u) (kids t)) \<or> list_ex (\<lambda>(k, u). dead now u) (kids t)
           \<or> getTreeCurrentSerializedValue t now = None,
         stack_set ?l (stack_at ?l st @ [(it_key ?i, dead now t)]) st)"
    by (rule pruneItem_result [OF Tree.prems(1) look]) (use Tree.prems in auto)
  have "post_items now p k t
      = concat (map (\<lambda>(k', u). post_items now (Some (item_ref ?i)) k' u) (kids t)) @ [?i]"
    by (simp add: post_items.simps [of now p k t] Let_def)
  with below step show ?case
    using dead_has_unset [of now "kids t"] Tree.prems(6)
    by (auto simp: fold_put_kids [OF Tree.prems(1)] replace_replace [OF Tree.prems(2)]
        has_unset.simps [of now t])
qed

lemma pruneTree_ref:
  assumes wf: "wf_tree t"
  shows "pruneTree t (Some p) now = (has_unset now t, prune_ref now t)"
proof -
  let ?b = "length (chain_path p)" and ?bl = "ch_level p"
  let ?i = "createTraversalItem (ch_key p) (ch_level p) (ch_parentRef p) t now"
  let ?step = "pruneItem ?b ?bl"
  have path: "chain_path (item_ref ?i) = chain_path p" by (simp add: chain_path_eq [of p])
  have below: "fold ?step (concat (map (\<lambda>(k, u). post_items now (Some p) k u) (kids t))) (t, False, [])
      = (tree_replace [] (fold (\<lambda>(k, u). put_child k (prune_ref now u)) (kids t) t) t,
         False \<or> list_ex (\<lambda>(k, u). has_unset now u) (kids t),
         if kids t = [] then [] else stack_set (Suc 1) (stack_at (Suc 1) [] @ kid_map now t) [])"
  proof (rule prune_branches)
    fix k u root ch st
    assume ku: "(k, u) \<in> set (kids t)" and look: "tree_lookup root ([] @ [k]) = Some u"
      and "length st \<le> Suc (Suc 1)" "k \<notin> fst ` set (stack_at (Suc 1) st)"
    then show "fold ?step (post_items now (Some p) k u) (root, ch, st)
        = (tree_replace ([] @ [k]) (prune_ref now u) root, ch \<or> has_unset now u,
           stack_set (Suc 1) (stack_at (Suc 1) st @ [(k, dead now u)]) st)"
      using prune_subtree [OF wf_kid [OF wf ku] look, of "Some p" ?b ?bl st now ch] by simp
  qed (use wf in \<open>auto simp: tree_child_Some_iff distinct_kids\<close>)
  have "?step ?i (mid_tree now t, list_ex (\<lambda>(k, u). has_unset now u) (kids t),
        if kids t = [] then [] else stack_set (Suc 1) (kid_map now t) [])
      = (tree_replace [] (prune_ref now t) (mid_tree now t),
         list_ex (\<lambda>(k, u). has_unset now u) (kids t) \<or> list_ex (\<lambda>(k, u). dead now u) (kids t)
           \<or> getTreeCurrentSerializedValue t now = None,
         stack_set 1 (stack_at 1 [] @ [(it_key ?i, dead now t)]) [])"
    by (rule pruneItem_result [OF wf]) (use path in auto)
  with below show ?thesis
    using dead_has_unset [of now "kids t"]
    by (auto simp: pruneTree_def treePostOrderDepthFirstSearch_def post_order fold_put_kids [OF wf]
        has_unset.simps [of now t])
qed

section \<open>What pruning keeps and what it removes\<close>

lemma clear_value_simps [simp]:
  "tchildren (clear_value now t) = tchildren t"
  "getTreeCurrentSerializedValue (clear_value now t) now = getTreeCurrentSerializedValue t now"
  by (auto simp: clear_value_def getTreeCurrentSerializedValue_def)

lemma dead_tree_at: "wf_tree t \<Longrightarrow> dead now t \<Longrightarrow> tree_at now t ks = None"
proof (induction ks arbitrary: t)
  case Nil
  then show ?case by (simp add: dead.simps [of now t])
next
  case (Cons k ks)
  show ?case
  proof (cases "tree_child t k")
    case (Some u)
    with Cons.prems have "dead now u"
      by (auto simp: dead.simps [of now t] list_all_iff tree_child_Some_iff)
    with Cons Some show ?thesis by (simp add: wf_tree_child)
  qed simp
qed

lemma tree_child_prune:
  assumes "wf_tree t"
  shows "tree_child (prune_ref now t) k = (case tree_child t k of None \<Rightarrow> None
           | Some u \<Rightarrow> if dead now u then None else Some (prune_ref now u))"
proof -
  let ?f = "\<lambda>c. case c of None \<Rightarrow> None | Some u \<Rightarrow> if dead now u then None else Some (prune_ref now u)"
  have "tree_child (prune_ref now t) k
        = (case pruned_children now t of None \<Rightarrow> None | Some ps \<Rightarrow> Option.bind (map_of ps k) id)"
    by (simp add: tree_child_def prune_ref_eq)
  also have "\<dots> = ?f (tree_child t k)"
  proof (cases "kids t \<noteq> [] \<and> all_dead now t")
    case True
    then have "dead now u" if "tree_child t k = Some u" for u
      using that assms by (auto simp: tree_child_Some_iff list_all_iff)
    with True show ?thesis by (auto simp: pruned_children_def split: option.splits)
  next
    case False
    then show ?thesis
      by (cases "tchildren t"; cases "map_of (the (tchildren t)) k")
        (auto simp: pruned_children_def tree_child_def map_of_map split: option.splits)
  qed
  finally show ?thesis .
qed

lemma prune_keeps_values: "wf_tree t \<Longrightarrow> tree_at now (prune_ref now t) ks = tree_at now t ks"
proof (induction ks arbitrary: t)
  case Nil
  then show ?case by (simp add: prune_ref_eq)
next
  case (Cons k ks)
  then show ?case
    by (auto simp: tree_child_prune wf_tree_child dead_tree_at split: option.splits)
qed

lemma prune_ref_root:
  "tvalue (prune_ref now t) = getTreeCurrentSerializedValue t now
   \<and> (getTreeCurrentSerializedValue t now = None \<longrightarrow> tdeadline (prune_ref now t) = None)"
  by (auto simp: prune_ref_eq clear_value_def getTreeCurrentSerializedValue_def)

lemma prune_lookup:
  "wf_tree t \<Longrightarrow> tree_lookup (prune_ref now t) ks = Some u \<Longrightarrow>
   \<exists>v. tree_lookup t ks = Some v \<and> u = prune_ref now v \<and> (ks \<noteq> [] \<longrightarrow> \<not> dead now v)"
proof (induction ks arbitrary: t)
  case (Cons k ks)
  then obtain c where c: "tree_child t k = Some c" "\<not> dead now c"
    "tree_lookup (prune_ref now c) ks = Some u"
    by (auto simp: tree_child_prune split: option.splits if_splits)
  from Cons.IH [OF wf_tree_child [OF Cons.prems(1) c(1)] c(3)] c show ?case by (cases ks) auto
qed simp

lemma wf_prune_ref: "wf_tree t \<Longrightarrow> wf_tree (prune_ref now t)"
proof (induction t rule: tree_kids_induct)
  case (Tree t)
  have "js_object (children_or_empty (prune_ref now t))"
    using Tree.prems by (auto simp: wf_tree.simps [of t] children_or_empty_def prune_ref_eq
        pruned_children_def comp_def case_prod_unfold js_object_def split: option.splits)
  moreover have "wf_tree v" if kv: "(k, v) \<in> set (kids (prune_ref now t))" for k v
  proof -
    from kv obtain u where "(k, u) \<in> set (kids t)" "v = prune_ref now u"
      by (auto simp: in_kids_iff prune_ref_eq pruned_children_def split: if_splits option.splits)
    with Tree wf_kid show ?thesis by blast
  qed
  ultimately show ?case by (auto simp: wf_tree.simps [of "prune_ref now t"] list_all_iff)
qed

lemma pruneTree_keeps_live_values:
  "wf_tree t \<Longrightarrow> tree_at now (snd (pruneTree t (Some p) now)) q = tree_at now t q"
  by (simp add: pruneTree_ref prune_keeps_values)

end
