(* ===== verification/Cache_Maintenance.thy ===== *)
theory Cache_Maintenance
  imports Cache_Set Cache_Prune
begin

text \<open>
  The operations that go over the whole storage: \<open>reprocessAllKeyLevelChildren\<close>, \<open>randomIterate\<close>
  and \<open>prune\<close> of \<open>TreeKeyCache\<close>, with \<open>internalRandomIterate\<close> of \<open>TreeInternalControl\<close>.
  The keys the storage enumerates are processed one after the other. The callbacks that \<open>prune\<close> hands to
  \<open>waitAll\<close> may overlap; \<open>Cache_WaitAll\<close> has them as concurrent steps and shows that every
  interleaving leaves in the storage what the processing in turn leaves.
\<close>

section \<open>Random iteration\<close>

definition single_item :: "rvalue item \<Rightarrow> rvalue sync_item" where
  "single_item i = \<lparr>si_ref = item_ref i, si_value = map_option Single (it_value i), si_tree = PlainTree (it_tree i)\<rparr>"

definition multi_item :: "rvalue list item \<Rightarrow> rvalue sync_item" where
  "multi_item i = \<lparr>si_ref = item_ref i, si_value = map_option MultiTreeValue (it_value i), si_tree = MultiTree (it_tree i)\<rparr>"

text \<open>\<open>treePreOrderBreadthFirstSearch(nodeRef[treeRefSymbol], nodeRef)\<close>, for both kinds of trees.\<close>

definition syncBreadthFirst ::
  "rvalue sync_tree \<Rightarrow> chained option \<Rightarrow> int \<Rightarrow> rvalue sync_item list \<times> error option" where
  "syncBreadthFirst tree parentRef now =
     (case tree of
        PlainTree t \<Rightarrow> (case treePreOrderBreadthFirstSearch t parentRef now of (is, e) \<Rightarrow> (map single_item is, e))
      | MultiTree t \<Rightarrow> (case treePreOrderBreadthFirstSearch t parentRef now of (is, e) \<Rightarrow> (map multi_item is, e)))"

fun randomKeys ::
  "('v, 's, 'm) cache \<Rightarrow> bool \<Rightarrow> bool \<Rightarrow> int \<Rightarrow> key list \<Rightarrow> rvalue sync_item list \<Rightarrow> ('s, 'm) world
   \<Rightarrow> (rvalue sync_item list \<times> error option) \<times> ('s, 'm) world" where
  "randomKeys c iterateTreeLevel lastValue now [] out w = ((out, None), w)"
| "randomKeys c iterateTreeLevel lastValue now (k # ks) out w =
     (case getNodeRef c (splitKey k) lastValue now w of
        (Inl e, w) \<Rightarrow> ((out, Some e), w)
      | (Inr None, w) \<Rightarrow> randomKeys c iterateTreeLevel lastValue now ks out w
      | (Inr (Some nodeRef), w) \<Rightarrow>
          if ch_level (si_ref nodeRef) < keyLevelNodes c \<or> \<not> iterateTreeLevel
          then randomKeys c iterateTreeLevel lastValue now ks (out @ [nodeRef]) w
          else
            (case syncBreadthFirst (si_tree nodeRef) (Some (si_ref nodeRef)) now of
               (is, Some e) \<Rightarrow> ((out @ is, Some e), w)
             | (is, None) \<Rightarrow> randomKeys c iterateTreeLevel lastValue now ks (out @ is) w))"

definition internalRandomIterate ::
  "('v, 's, 'm) cache \<Rightarrow> string option \<Rightarrow> bool \<Rightarrow> bool \<Rightarrow> int \<Rightarrow> ('s, 'm) world
   \<Rightarrow> (rvalue sync_item list \<times> error option) \<times> ('s, 'm) world" where
  "internalRandomIterate c pattern iterateTreeLevel lastValue now w =
     (case st_randomIterate (c_storage c) of
        None \<Rightarrow> (([], Some NoRandomIterate), w)
      | Some iter \<Rightarrow> randomKeys c iterateTreeLevel lastValue now (iter (w_store w) pattern) [] w)"

fun getSteps ::
  "('v, 's, 'm) cache \<Rightarrow> rvalue sync_item list \<Rightarrow> error option \<Rightarrow> 'v step list \<Rightarrow> ('s, 'm) world
   \<Rightarrow> ('v step list \<times> error option) \<times> ('s, 'm) world" where
  "getSteps c [] err out w = ((out, err), w)"
| "getSteps c (i # is) err out w =
     (case getStep c (map_option TreeValue (si_value i)) (si_ref i) None w of
        (Inl e, w) \<Rightarrow> ((out, Some e), w)
      | (Inr s, w) \<Rightarrow> getSteps c is err (out @ [s]) w)"

definition randomIterate ::
  "('v, 's, 'm) cache \<Rightarrow> string option \<Rightarrow> int \<Rightarrow> ('s, 'm) world
   \<Rightarrow> ('v step list \<times> error option) \<times> ('s, 'm) world" where
  "randomIterate c pattern now w =
     (case internalRandomIterate c pattern True False now w of
        ((is, err), w) \<Rightarrow> getSteps c is err [] w)"

section \<open>Pruning the storage\<close>

text \<open>
  The condition of the second \<open>filter\<close>, with its side effect: the key and the pruned tree of an item that
  passes. The tree is pruned in place.
\<close>

definition pruneFilter ::
  "('v, 's, 'm) cache \<Rightarrow> int \<Rightarrow> rvalue sync_item \<Rightarrow> (key \<times> rvalue tree) option" where
  "pruneFilter c now item =
     (case si_tree item of
        MultiTree _ \<Rightarrow> None
      | PlainTree t \<Rightarrow>
          if ch_level (si_ref item) = keyLevelNodes c then
            (case pruneTree t (ch_parentRef (si_ref item)) now of (changed, t') \<Rightarrow>
               if changed then Some (buildKey (si_ref item), t') else None)
          else None)"

text \<open>What \<open>prune\<close> does with one of the enumerated items, when the callback runs to its end.\<close>

definition pruneOne ::
  "('v, 's, 'm) cache \<Rightarrow> int \<Rightarrow> rvalue sync_item \<Rightarrow> ('s, 'm) world \<Rightarrow> ('s, 'm) world" where
  "pruneOne c now item w =
     (case pruneFilter c now item of
        None \<Rightarrow> w
      | Some (chainedKey, t') \<Rightarrow>
          (let w = emit (Acquire chainedKey) w;
               ttl = st_getCurrentTtl (c_storage c) (w_store w) chainedKey;
               w = persistTree c chainedKey ttl t' w
           in dontWait (Some (ScheduleRelease chainedKey)) w))"

fun pruneKeys ::
  "('v, 's, 'm) cache \<Rightarrow> int \<Rightarrow> key list \<Rightarrow> ('s, 'm) world \<Rightarrow> (unit, ('s, 'm) world) result" where
  "pruneKeys c now [] w = (Inr (), w)"
| "pruneKeys c now (k # ks) w =
     (case getNodeRef c (splitKey k) True now w of
        (Inl e, w) \<Rightarrow> (Inl e, w)
      | (Inr None, w) \<Rightarrow> pruneKeys c now ks w
      | (Inr (Some item), w) \<Rightarrow> pruneKeys c now ks (pruneOne c now item w))"

definition prune ::
  "('v, 's, 'm) cache \<Rightarrow> string option \<Rightarrow> int \<Rightarrow> ('s, 'm) world \<Rightarrow> (unit, ('s, 'm) world) result" where
  "prune c pattern now w =
     (case st_randomIterate (c_storage c) of
        None \<Rightarrow> (Inl NoRandomIterate, w)
      | Some iter \<Rightarrow> pruneKeys c now (iter (w_store w) pattern) w)"

section \<open>Registering children again\<close>

text \<open>
  The two nested loops, over the partial keys of one storage key and over the keys. \<open>promises\<close> is
  the group being collected, \<open>groups\<close> what has been yielded.
\<close>

fun reprocessPath ::
  "('v, 's, 'm) cache \<Rightarrow> nat \<Rightarrow> string list \<Rightarrow> key option \<Rightarrow> string list
   \<Rightarrow> (key option \<times> key) list \<Rightarrow> (key option \<times> key) list list \<Rightarrow> ('s, 'm) world
   \<Rightarrow> (key option \<times> key) list \<times> (key option \<times> key) list list \<times> ('s, 'm) world" where
  "reprocessPath c groupSize [] chainedKey processed promises groups w = (promises, groups, w)"
| "reprocessPath c groupSize (partialKey # path) chainedKey processed promises groups w =
     (let w = registerChild c chainedKey partialKey w;
          promises = promises @ [(chainedKey, partialKey)];
          processed = processed @ [partialKey];
          chainedKey = Some (buildKeyList processed)
      in if length promises \<ge> groupSize
         then reprocessPath c groupSize path chainedKey processed [] (groups @ [promises]) w
         else reprocessPath c groupSize path chainedKey processed promises groups w)"

fun reprocessKeys ::
  "('v, 's, 'm) cache \<Rightarrow> nat \<Rightarrow> key list \<Rightarrow> (key option \<times> key) list \<Rightarrow> (key option \<times> key) list list
   \<Rightarrow> ('s, 'm) world \<Rightarrow> (key option \<times> key) list list \<times> ('s, 'm) world" where
  "reprocessKeys c groupSize [] promises groups w =
     (if length promises > 0 then groups @ [promises] else groups, w)"
| "reprocessKeys c groupSize (k # ks) promises groups w =
     (case reprocessPath c groupSize (splitKey k) None [] promises groups w of
        (promises, groups, w) \<Rightarrow> reprocessKeys c groupSize ks promises groups w)"

definition clearAllChildrenRegistry :: "('v, 's, 'm) cache \<Rightarrow> ('s, 'm) world \<Rightarrow> ('s, 'm) world" where
  "clearAllChildrenRegistry c w =
     (case st_clearAllChildrenRegistry (c_storage c) of None \<Rightarrow> w | Some clear \<Rightarrow> w\<lparr>w_store := clear (w_store w)\<rparr>)"

definition reprocessAllKeyLevelChildren ::
  "('v, 's, 'm) cache \<Rightarrow> nat \<Rightarrow> ('s, 'm) world
   \<Rightarrow> ((key option \<times> key) list list, ('s, 'm) world) result" where
  "reprocessAllKeyLevelChildren c groupSize w =
     (case st_randomIterate (c_storage c) of
        None \<Rightarrow> (Inl NoReprocessing, w)
      | Some iter \<Rightarrow>
          if st_registerChild (c_storage c) = None then (Inl NoReprocessing, w)
          else
            (let w = clearAllChildrenRegistry c w in
             case reprocessKeys c groupSize (iter (w_store w) None) [] [] w of
               (groups, w) \<Rightarrow> (Inr groups, w)))"

section \<open>Pruning does not change what is read\<close>

lemma getNodeRef_key:
  assumes p: "path \<noteq> []" "length path < keyLevelNodes c" and c: "lastValue \<or> plain_cache c"
  shows "getNodeRef c path lastValue now w
      = (Inr (Some ((createSyncItem (last path) (length path) (path_ref (butlast path)) no_tree now)
           \<lparr>si_value := map_option Single (store_get c w (join path))\<rparr>)), w)"
proof -
  have s: "storageNode path (length path) now 0 None
      = Inr (createSyncItem (last path) (length path) (path_ref (butlast path)) no_tree now)"
    using storageNode_result [of 0 "length path" path now] p by simp
  have m: "min (keyLevelNodes c) (length path) = length path" using p by simp
  show ?thesis
    using p c plain_read [of c] buildKey_node_ref [OF p(1)] by (auto simp: getNodeRef_def m s bufferValue_def Let_def)
qed

lemmas getNodeRef_last_key = getNodeRef_key [where lastValue = True, simplified]

lemma getNodeRef_last_tree:
  assumes k: "0 < keyLevelNodes c" "keyLevelNodes c \<le> length path"
    and b_def: "b = store_get c w (join (take (keyLevelNodes c) path))"
  shows "getNodeRef c path True now w =
     (if \<not> str_truthy b then (Inr None, w)
      else case ts_deserialize (tser c) (the b) of
        Inl e \<Rightarrow> (Inl e, w)
      | Inr t \<Rightarrow>
          (Inr (map_option (\<lambda>u. createSyncItem (last path) (length path) (path_ref (butlast path)) (PlainTree u) now)
             (tree_lookup t (drop (keyLevelNodes c) path))), w))"
proof -
  let ?k = "keyLevelNodes c" and ?kp = "take (keyLevelNodes c) path"
  let ?item = "createSyncItem (last ?kp) ?k (path_ref (butlast ?kp)) no_tree now"
  have ne: "?kp \<noteq> []" using k by auto
  have s: "storageNode path ?k now 0 None = Inr ?item"
    using storageNode_result [of 0 ?k path now] k by simp
  have key: "buildKey (si_ref ?item) = join ?kp" using buildKey_node_ref [OF ne] k by simp
  have m: "min ?k (length path) = ?k" using k by simp
  have tn: "case sync_lookup (PlainTree t) (drop ?k path) of
      None \<Rightarrow> treeNode path now ?item (PlainTree t) = Inr None
    | Some u \<Rightarrow> \<exists>i. treeNode path now ?item (PlainTree t) = Inr (Some (i, u)) \<and> si_ref i = node_ref path" for t
    using k by (intro treeNode_result) auto
  note gn = getNodeRef_def [of c path True now w] m s key
  show ?thesis
  proof (cases "ts_deserialize (tser c) (the b)")
    case (Inl e)
    then show ?thesis using k key by (simp add: gn b_def)
  next
    case (Inr t)
    show ?thesis
      using k key Inr tn [of t] by (cases "tree_lookup t (drop ?k path)") (auto simp: gn b_def)
  qed
qed

text \<open>One enumerated key: whatever happens, no reading changes.\<close>

definition same_reading :: "('v, 's, 'm) cache \<Rightarrow> int \<Rightarrow> ('s, 'm) world \<Rightarrow> ('s, 'm) world \<Rightarrow> bool" where
  "same_reading c now w w' \<longleftrightarrow>
     (\<forall>q. valid_path q \<longrightarrow> raw_at c now (w_store w') q = raw_at c now (w_store w) q)"

lemma same_reading_refl: "same_reading c now w w"
  by (simp add: same_reading_def)

lemma same_reading_trans: "same_reading c now w w1 \<Longrightarrow> same_reading c now w1 w2 \<Longrightarrow> same_reading c now w w2"
  by (simp add: same_reading_def)

text \<open>
  A clean tree: every node but the root has a live value at or below it, and a node without a live
  value, the root included, has neither a value nor a deadline.
\<close>

definition clean :: "int \<Rightarrow> 'a tree \<Rightarrow> bool" where
  "clean now t \<longleftrightarrow> (\<forall>q u. tree_lookup t q = Some u \<longrightarrow>
     (q \<noteq> [] \<longrightarrow> (\<exists>q'. tree_at now u q' \<noteq> None))
     \<and> (getTreeCurrentSerializedValue u now = None \<longrightarrow> tvalue u = None \<and> tdeadline u = None))"

text \<open>Nothing is left of a tree in which nothing is live but its empty root.\<close>

lemma clean_empty:
  assumes "clean now t" "wf_tree t" "\<And>q. tree_at now t q = None"
  shows "tvalue t = None" "tdeadline t = None" "kids t = []"
proof -
  have "getTreeCurrentSerializedValue t now = None" using assms(3) [of "[]"] by simp
  then show "tvalue t = None" "tdeadline t = None"
    using assms(1) unfolding clean_def by (metis tree_lookup.simps(1))+
  show "kids t = []"
  proof (rule ccontr)
    assume "kids t \<noteq> []"
    then obtain k u where "(k, u) \<in> set (kids t)" by (cases "kids t") auto
    then have u: "tree_child t k = Some u" using tree_child_Some_iff [OF assms(2)] by simp
    then have "tree_lookup t [k] = Some u" by simp
    then obtain q where "tree_at now u q \<noteq> None" using assms(1) unfolding clean_def by blast
    with u assms(3) [of "k # q"] show False by simp
  qed
qed

definition clean_at :: "('v, 's, 'm) cache \<Rightarrow> int \<Rightarrow> ('s, 'm) world \<Rightarrow> key \<Rightarrow> bool" where
  "clean_at c now w k \<longleftrightarrow> (str_truthy (store_get c w k) \<longrightarrow>
     (\<exists>t. ts_deserialize (tser c) (the (store_get c w k)) = Inr t \<and> clean now t))"

lemma not_dead_live: "wf_tree t \<Longrightarrow> \<not> dead now t \<Longrightarrow> \<exists>q. tree_at now t q \<noteq> None"
proof (induction t rule: tree_kids_induct)
  case (Tree t)
  show ?case
  proof (cases "getTreeCurrentSerializedValue t now")
    case None
    with Tree.prems obtain k u where u: "(k, u) \<in> set (kids t)" "\<not> dead now u"
      by (auto simp: dead.simps [of now t] list_all_iff)
    with Tree wf_kid obtain q where "tree_at now u q \<noteq> None" by blast
    moreover have "tree_child t k = Some u" using u tree_child_Some_iff [OF Tree.prems(1)] by simp
    ultimately have "tree_at now t (k # q) \<noteq> None" by simp
    then show ?thesis by blast
  next
    case (Some v)
    then have "tree_at now t [] \<noteq> None" by simp
    then show ?thesis by blast
  qed
qed

lemma has_unset_lookup:
  "wf_tree t \<Longrightarrow> \<not> has_unset now t \<Longrightarrow> tree_lookup t q = Some u \<Longrightarrow> \<not> has_unset now u"
proof (induction q arbitrary: t)
  case (Cons k q)
  from Cons.prems(3) obtain v where v: "tree_child t k = Some v" "tree_lookup v q = Some u"
    by (auto split: option.splits)
  then have "(k, v) \<in> set (kids t)" using tree_child_Some_iff [OF Cons.prems(1)] by simp
  then have "\<not> has_unset now v" using Cons.prems(2) by (auto simp: has_unset.simps [of now t] list_ex_iff)
  with Cons v show ?case using wf_tree_child by blast
qed simp

lemma clean_no_unset: "wf_tree t \<Longrightarrow> \<not> has_unset now t \<Longrightarrow> clean now t"
  unfolding clean_def
proof (intro allI impI)
  fix q u assume t: "wf_tree t" "\<not> has_unset now t" "tree_lookup t q = Some u"
  from has_unset_lookup [OF this] have u: "getTreeCurrentSerializedValue u now \<noteq> None" by (simp add: has_unset.simps [of now u])
  then have "tree_at now u [] \<noteq> None" by simp
  with u show "(q \<noteq> [] \<longrightarrow> (\<exists>q'. tree_at now u q' \<noteq> None))
      \<and> (getTreeCurrentSerializedValue u now = None \<longrightarrow> tvalue u = None \<and> tdeadline u = None)" by blast
qed

context lawful_cache
begin

lemma get_persistTree:
  "st_get (c_storage c) (w_store (persistTree c k ttl t w)) k'
     = (if k' = k then Some (ts_serialize (tser c) t) else store_get c w k')"
  by (simp add: persistTree_def Let_def get_store_set)

lemma pruneOne_get:
  assumes p: "path = splitKey k" "2 \<le> keyLevelNodes c"
    and item: "getNodeRef c path True now w = (Inr (Some item), w')"
  shows "w' = w"
    and "if length path = keyLevelNodes c
      then \<exists>t. ts_deserialize (tser c) (the (store_get c w k)) = Inr t \<and> str_truthy (store_get c w k) \<and> wf_tree t
        \<and> (\<forall>k'. store_get c (pruneOne c now item w) k' =
            (if k' = k \<and> has_unset now t then Some (ts_serialize (tser c) (prune_ref now t)) else store_get c w k'))
      else pruneOne c now item w = w"
proof -
  have ne: "path \<noteq> []" and jk: "join path = k" using p(1) by (simp_all add: join_splitKey)
  show w': "w' = w"
    using getNodeRef_last_key [of path c now w] getNodeRef_last_tree [of c path _ w now, OF _ _ refl] item ne p(2)
    by (cases "length path < keyLevelNodes c") (auto split: if_splits sum.splits)
  show "if length path = keyLevelNodes c
      then \<exists>t. ts_deserialize (tser c) (the (store_get c w k)) = Inr t \<and> str_truthy (store_get c w k) \<and> wf_tree t
        \<and> (\<forall>k'. store_get c (pruneOne c now item w) k' =
            (if k' = k \<and> has_unset now t then Some (ts_serialize (tser c) (prune_ref now t)) else store_get c w k'))
      else pruneOne c now item w = w"
  proof (cases "length path = keyLevelNodes c")
    case True
    then have tk: "take (keyLevelNodes c) path = path" "drop (keyLevelNodes c) path = []" by simp_all
    obtain t where t: "ts_deserialize (tser c) (the (store_get c w k)) = Inr t" "str_truthy (store_get c w k)"
      and i: "item = createSyncItem (last path) (length path) (path_ref (butlast path)) (PlainTree t) now"
      using item getNodeRef_last_tree [of c path _ w now, OF _ _ refl] True p(2) unfolding tk jk
      by (auto split: if_splits sum.splits)
    have wf: "wf_tree t" using tree_wf [OF t(1)] .
    have "butlast path \<noteq> []" using True p(2) by (cases path rule: rev_cases) auto
    then obtain r where r: "path_ref (butlast path) = Some r" using path_ref_node by blast
    have key: "buildKey (si_ref item) = k" using buildKey_node_ref [OF ne] jk by (simp add: i)
    have "store_get c (pruneOne c now item w) k' =
        (if k' = k \<and> has_unset now t then Some (ts_serialize (tser c) (prune_ref now t)) else store_get c w k')" for k'
      using True key r by (simp add: pruneOne_def pruneFilter_def i pruneTree_ref [OF wf] Let_def get_persistTree)
    with t wf True show ?thesis by simp
  next
    case False
    have "ch_level (si_ref item) = length path"
      using getNodeRef_last_key [of path c now w] getNodeRef_last_tree [of c path _ w now, OF _ _ refl] item ne p(2)
      by (cases "length path < keyLevelNodes c") (auto split: if_splits sum.splits dest!: sym [of "Some item"])
    with False show ?thesis by (simp add: pruneOne_def pruneFilter_def split: sync_tree.splits)
  qed
qed

lemma pruneOne_reading:
  assumes p: "2 \<le> keyLevelNodes c" and item: "getNodeRef c (splitKey k) True now w = (Inr (Some item), w')"
  shows "same_reading c now w (pruneOne c now item w)"
proof (cases "length (splitKey k) = keyLevelNodes c")
  case True
  obtain t where t: "ts_deserialize (tser c) (the (store_get c w k)) = Inr t" "str_truthy (store_get c w k)" "wf_tree t"
    and g: "\<And>k'. store_get c (pruneOne c now item w) k' =
        (if k' = k \<and> has_unset now t then Some (ts_serialize (tser c) (prune_ref now t)) else store_get c w k')"
    using pruneOne_get(2) [OF refl p item] True by auto
  have "raw_at c now (w_store (pruneOne c now item w)) q = raw_at c now (w_store w) q" if q: "valid_path q" for q
  proof (cases "join (take (keyLevelNodes c) q) = k \<and> has_unset now t")
    case False
    then show ?thesis using g by (intro raw_at_cong) auto
  next
    case at: True
    have "splitKey (join (take (keyLevelNodes c) q)) = take (keyLevelNodes c) q"
      using q p by (intro splitKey_join list_all_take) (auto simp: valid_path_def)
    with at True have "keyLevelNodes c \<le> length q" by (metis length_take min.cobounded1)
    then show ?thesis
      using at g [of k] t tree_nonempty tree_roundtrip [OF wf_prune_ref [OF t(3)]]
      by (simp add: raw_at_tree stored_tree_def Let_def tree_at_strip wf_prune_ref prune_keeps_values)
  qed
  then show ?thesis by (simp add: same_reading_def)
qed (use pruneOne_get(2) [OF refl p item] in \<open>simp add: same_reading_def\<close>)

lemma pruneKeys_reading: "2 \<le> keyLevelNodes c \<Longrightarrow> same_reading c now w (snd (pruneKeys c now ks w))"
proof (induction ks arbitrary: w)
  case (Cons k ks)
  obtain r w' where g: "getNodeRef c (splitKey k) True now w = (r, w')" by (cases "getNodeRef c (splitKey k) True now w")
  have w': "w' = w"
    using g getNodeRef_last_key [of "splitKey k" c now w] getNodeRef_last_tree [of c "splitKey k" _ w now, OF _ _ refl] Cons.prems
    by (cases "length (splitKey k) < keyLevelNodes c") (auto split: if_splits sum.splits)
  show ?case
  proof (cases "\<exists>item. r = Inr (Some item)")
    case True
    then obtain item where r: "r = Inr (Some item)" by blast
    from pruneOne_reading [OF Cons.prems] g r w' have "same_reading c now w (pruneOne c now item w)" by simp
    with Cons.IH [OF Cons.prems, of "pruneOne c now item w"] g r w' show ?thesis
      by (auto intro: same_reading_trans)
  next
    case False
    with g w' Cons.IH [OF Cons.prems, of w] show ?thesis
      by (cases r) (auto simp: same_reading_refl split: option.splits)
  qed
qed (simp add: same_reading_refl)

lemma clean_pruned:
  assumes "wf_tree t"
  shows "clean now (strip (prune_ref now t))"
  unfolding clean_def
proof (intro allI impI conjI)
  fix q u assume u: "tree_lookup (strip (prune_ref now t)) q = Some u"
  then obtain p where p: "tree_lookup (prune_ref now t) q = Some p" "u = strip p"
    using tree_lookup_strip [OF wf_prune_ref [OF assms]] by auto
  obtain v where v: "tree_lookup t q = Some v" "p = prune_ref now v" "q \<noteq> [] \<longrightarrow> \<not> dead now v"
    using prune_lookup [OF assms p(1)] by auto
  have wf: "wf_tree v" using wf_tree_lookup [OF assms v(1)] .
  {
    assume "q \<noteq> []"
    moreover have "tree_at now u q' = tree_at now v q'" for q'
      by (simp add: p(2) v(2) tree_at_strip wf_prune_ref wf prune_keeps_values)
    ultimately show "\<exists>q'. tree_at now u q' \<noteq> None" using not_dead_live [OF wf] v(3) by simp
  next
    assume "getTreeCurrentSerializedValue u now = None"
    then show "tvalue u = None" "tdeadline u = None"
      by (simp_all add: p(2) v(2) prune_ref_eq) (simp_all add: clear_value_def)
  }
qed

lemma pruneOne_clean:
  assumes p: "2 \<le> keyLevelNodes c" and item: "getNodeRef c (splitKey k) True now w = (Inr (Some item), w')"
    and k: "length (splitKey k) = keyLevelNodes c"
  shows "clean_at c now (pruneOne c now item w) k"
proof -
  obtain t where t: "ts_deserialize (tser c) (the (store_get c w k)) = Inr t" "str_truthy (store_get c w k)" "wf_tree t"
    and g: "\<And>k'. store_get c (pruneOne c now item w) k' =
        (if k' = k \<and> has_unset now t then Some (ts_serialize (tser c) (prune_ref now t)) else store_get c w k')"
    using pruneOne_get(2) [OF refl p item] k by auto
  show ?thesis
    using g [of k] t tree_roundtrip [OF wf_prune_ref [OF t(3)]] clean_pruned [OF t(3), of now]
      clean_no_unset [of t now] by (auto simp: clean_at_def)
qed

lemma pruneOne_keeps_clean:
  assumes p: "2 \<le> keyLevelNodes c" and item: "getNodeRef c (splitKey k) True now w = (Inr (Some item), w')"
    and k': "length (splitKey k') = keyLevelNodes c" "clean_at c now w k'"
  shows "clean_at c now (pruneOne c now item w) k'"
proof (cases "k' = k \<or> length (splitKey k) \<noteq> keyLevelNodes c")
  case True
  then show ?thesis
    using pruneOne_clean [OF p item] pruneOne_get(2) [OF refl p item] k' by auto
next
  case False
  then have "store_get c (pruneOne c now item w) k' = store_get c w k'"
    using pruneOne_get(2) [OF refl p item] by auto
  with k' show ?thesis by (simp add: clean_at_def)
qed

lemma getNodeRef_last_world: "2 \<le> keyLevelNodes c \<Longrightarrow> snd (getNodeRef c (splitKey k) True now w) = w"
  using getNodeRef_last_key [of "splitKey k" c now w] getNodeRef_last_tree [of c "splitKey k" _ w now, OF _ _ refl]
  by (cases "length (splitKey k) < keyLevelNodes c") (auto split: if_splits sum.splits)

lemma pruneKeys_keeps_clean:
  assumes p: "2 \<le> keyLevelNodes c" and k': "length (splitKey k') = keyLevelNodes c"
  shows "clean_at c now w k' \<Longrightarrow> clean_at c now (snd (pruneKeys c now ks w)) k'"
proof (induction ks arbitrary: w)
  case (Cons k ks)
  obtain r where g: "getNodeRef c (splitKey k) True now w = (r, w)"
    using getNodeRef_last_world [OF p, of k now w] by (metis prod.collapse)
  show ?case
  proof (cases "\<exists>item. r = Inr (Some item)")
    case True
    with g pruneOne_keeps_clean [OF p _ k' Cons.prems, of k] Cons.IH show ?thesis by auto
  next
    case False
    with g Cons show ?thesis by (cases r) (auto split: option.splits)
  qed
qed simp

lemma pruneKeys_keeps_entries:
  assumes p: "2 \<le> keyLevelNodes c"
  shows "store_get c w k' \<noteq> None \<Longrightarrow> store_get c (snd (pruneKeys c now ks w)) k' \<noteq> None"
proof (induction ks arbitrary: w)
  case (Cons k ks)
  obtain r where g: "getNodeRef c (splitKey k) True now w = (r, w)"
    using getNodeRef_last_world [OF p, of k now w] by (metis prod.collapse)
  show ?case
  proof (cases "\<exists>item. r = Inr (Some item)")
    case True
    then obtain item where r: "r = Inr (Some item)" by blast
    have "store_get c (pruneOne c now item w) k' \<noteq> None"
      using pruneOne_get(2) [OF refl p g [unfolded r]] Cons.prems by (auto split: if_splits)
    with Cons.IH g r show ?thesis by simp
  next
    case False
    with g Cons show ?thesis by (cases r) (auto split: option.splits)
  qed
qed simp

lemma pruneKeys_clean:
  assumes p: "2 \<le> keyLevelNodes c" and k': "length (splitKey k') = keyLevelNodes c"
  shows "k' \<in> set ks \<Longrightarrow> pruneKeys c now ks w = (Inr (), w') \<Longrightarrow> clean_at c now w' k'"
proof (induction ks arbitrary: w)
  case (Cons k ks)
  obtain r where g: "getNodeRef c (splitKey k) True now w = (r, w)"
    using getNodeRef_last_world [OF p, of k now w] by (metis prod.collapse)
  obtain x where r: "r = Inr x" using g Cons.prems(2) by (cases r) auto
  let ?w = "case x of None \<Rightarrow> w | Some item \<Rightarrow> pruneOne c now item w"
  have rest: "pruneKeys c now ks ?w = (Inr (), w')" using g r Cons.prems(2) by (auto split: option.splits)
  show ?case
  proof (cases "k' \<in> set ks")
    case True
    with Cons.IH rest show ?thesis by blast
  next
    case False
    then have k: "k = k'" using Cons.prems(1) by simp
    have "clean_at c now ?w k'"
    proof (cases x)
      case None
      have tk: "take (keyLevelNodes c) (splitKey k') = splitKey k'" "drop (keyLevelNodes c) (splitKey k') = []"
        using k' by simp_all
      have "\<not> str_truthy (store_get c w k')"
        using getNodeRef_last_tree [of c "splitKey k'" _ w now, OF _ _ refl] g r None k k' p
        unfolding tk join_splitKey by (auto split: if_splits sum.splits)
      with None show ?thesis by (simp add: clean_at_def)
    next
      case (Some item)
      with pruneOne_clean [OF p _ k', of now w item w] g r k show ?thesis by simp
    qed
    from pruneKeys_keeps_clean [OF p k' this, of ks] rest show ?thesis by simp
  qed
qed simp

end

section \<open>Registering children again\<close>

text \<open>The pairs of a chained key and a partial key, for every prefix of the path of a key.\<close>

definition path_pairs :: "path \<Rightarrow> (key option \<times> key) list" where
  "path_pairs path = map (\<lambda>i. (chained_key path i, path ! i)) [0..<length path]"

lemma reprocessPath_flat:
  assumes "reprocessPath c n rest (chained_key path (length pre)) pre promises groups w = (promises', groups', w')"
    "path = pre @ rest" "st_registerChild (c_storage c) \<noteq> None"
  shows "concat groups' @ promises'
      = concat groups @ promises @ map (\<lambda>i. (chained_key path i, path ! i)) [length pre..<length path]
    \<and> w_events w' = w_events w @ map (\<lambda>i. RegisterChild (chained_key path i) (path ! i)) [length pre..<length path]"
  using assms
proof (induction rest arbitrary: pre promises groups w)
  case (Cons k rest)
  let ?w = "registerChild c (chained_key path (length pre)) k w"
  let ?pre = "pre @ [k]" and ?p = "promises @ [(chained_key path (length pre), k)]"
  have ck: "Some (buildKeyList ?pre) = chained_key path (length ?pre)"
    using Cons.prems(2) by (simp add: buildKeyList_def)
  have k: "path ! length pre = k" and lt: "length pre < length path" using Cons.prems(2) by simp_all
  have upt: "[length pre..<length path] = length pre # [length ?pre..<length path]"
    using lt by (simp add: upt_conv_Cons)
  have run: "reprocessPath c n rest (chained_key path (length ?pre)) ?pre
      (if n \<le> length ?p then [] else ?p) (if n \<le> length ?p then groups @ [?p] else groups) ?w = (promises', groups', w')"
    using Cons.prems(1) unfolding reprocessPath.simps Let_def ck by (simp split: if_splits)
  show ?case
    using Cons.IH [OF run] Cons.prems(2,3) unfolding upt by (auto simp: k split: if_splits)
qed simp

lemma reprocessKeys_flat:
  assumes "reprocessKeys c n ks promises groups w = (groups', w')" "st_registerChild (c_storage c) \<noteq> None"
  shows "concat groups' = concat groups @ promises @ concat (map (\<lambda>k. path_pairs (splitKey k)) ks)
    \<and> w_events w' = w_events w @ map (\<lambda>(p, k). RegisterChild p k) (concat (map (\<lambda>k. path_pairs (splitKey k)) ks))"
  using assms
proof (induction ks arbitrary: promises groups w)
  case (Cons k ks)
  obtain p1 g1 w1 where r: "reprocessPath c n (splitKey k) None [] promises groups w = (p1, g1, w1)"
    using prod_cases3 by blast
  have "reprocessKeys c n ks p1 g1 w1 = (groups', w')" using Cons.prems(1) r by simp
  note rest = Cons.IH [OF this Cons.prems(2)]
  have "reprocessPath c n (splitKey k) (chained_key (splitKey k) (length [])) [] promises groups w = (p1, g1, w1)"
    using r by simp
  from reprocessPath_flat [OF this _ Cons.prems(2)] rest show ?case
    by (simp add: path_pairs_def comp_def case_prod_unfold)
qed (auto split: if_splits)

text \<open>The groups that are yielded have the requested size, the last one at most.\<close>

lemma reprocessPath_sizes:
  assumes "reprocessPath c n rest ck pre promises groups w = (promises', groups', w')"
    "0 < n" "length promises < n" "\<forall>g \<in> set groups. length g = n"
  shows "length promises' < n \<and> (\<forall>g \<in> set groups'. length g = n)"
  using assms
proof (induction rest arbitrary: ck pre promises groups w)
  case (Cons k rest)
  show ?case
  proof (cases "n \<le> length (promises @ [(ck, k)])")
    case True
    with Cons.prems have "length (promises @ [(ck, k)]) = n" by simp
    moreover have run: "reprocessPath c n rest (Some (buildKeyList (pre @ [k]))) (pre @ [k]) []
        (groups @ [promises @ [(ck, k)]]) (registerChild c ck k w) = (promises', groups', w')"
      using Cons.prems(1) True by (simp add: Let_def)
    ultimately show ?thesis using Cons.prems by (intro Cons.IH [OF run]) auto
  next
    case False
    then have run: "reprocessPath c n rest (Some (buildKeyList (pre @ [k]))) (pre @ [k]) (promises @ [(ck, k)])
        groups (registerChild c ck k w) = (promises', groups', w')"
      using Cons.prems(1) by (simp add: Let_def)
    then show ?thesis using Cons.prems False by (intro Cons.IH [OF run]) auto
  qed
qed auto

lemma reprocessKeys_sizes:
  assumes "reprocessKeys c n ks promises groups w = (groups', w')"
    "0 < n" "length promises < n" "\<forall>g \<in> set groups. length g = n"
  shows "(\<forall>g \<in> set (butlast groups'). length g = n) \<and> (groups' \<noteq> [] \<longrightarrow> 0 < length (last groups') \<and> length (last groups') \<le> n)"
  using assms
proof (induction ks arbitrary: promises groups w)
  case Nil
  then show ?case by (auto split: if_splits dest: in_set_butlastD last_in_set)
next
  case (Cons k ks)
  obtain p1 g1 w1 where r: "reprocessPath c n (splitKey k) None [] promises groups w = (p1, g1, w1)"
    using prod_cases3 by blast
  from reprocessPath_sizes [OF r Cons.prems(2-4)] have p1: "length p1 < n" "\<forall>g \<in> set g1. length g = n" by auto
  have "reprocessKeys c n ks p1 g1 w1 = (groups', w')" using Cons.prems(1) r by simp
  from Cons.IH [OF this Cons.prems(2) p1] show ?case .
qed

end
