(* ===== verification/Cache_Search.thy ===== *)
theory Cache_Search
  imports Cache_Async Cache_Maintenance
begin

text \<open>
  The searches of \<open>TreeKeyCache\<close> (\<open>getTraversalIterable\<close> and \<open>getTraversalStepsIterable\<close> of
  \<open>TreeInternalControl\<close>, the four search methods) and the correctness of the asynchronous traversals
  below them: for a consumer of the items that leaves the storage alone (locale \<open>item_consumer\<close>,
  interpreted on the one that reads steps) each asynchronous search delivers what the synchronous
  search of the same order delivers on \<open>storedTree\<close>, up to the first read that fails.
\<close>

section \<open>Consumers\<close>

text \<open>
  A consumer of a traversal whose output for an item depends on the item only, and which leaves the
  storage alone. \<open>g\<close> is its output, over the items of the represented tree.
\<close>

locale item_consumer =
  fixes c :: "('v, 's, 'm) cache" and s :: 's and now :: int
    and f :: "any_item \<Rightarrow> ('s, 'm) world \<Rightarrow> ('y, ('s, 'm) world) result"
    and g :: "rvalue tree_value item \<Rightarrow> 'y outcome"
  assumes consume: "w_store w = s \<Longrightarrow> ai_value i = any_value (ai_tree i) now \<Longrightarrow>
    \<exists>w'. f i w = (g (abs_item c s now i), w') \<and> w_store w' = s"
begin

lemma yieldAll_items:
  "w_store w = s \<Longrightarrow> (\<And>i. i \<in> set is \<Longrightarrow> ai_value i = any_value (ai_tree i) now) \<Longrightarrow>
   \<exists>w'. yieldAll f is out w = (emit_all g (map Inr (map (abs_item c s now) is)) out, w') \<and> w_store w' = s"
proof (induction "is" arbitrary: out w)
  case (Cons i "is")
  from consume [OF Cons.prems(1), of i] Cons.prems(2) obtain w1
    where f: "f i w = (g (abs_item c s now i), w1)" "w_store w1 = s" by auto
  show ?case
  proof (cases "g (abs_item c s now i)")
    case (Inl e)
    with f show ?thesis by simp
  next
    case (Inr y)
    with f Cons.IH [OF f(2), of "out @ [y]"] Cons.prems(2) show ?thesis by simp
  qed
qed simp

lemma yield_visit:
  "w_store w = s \<Longrightarrow> \<exists>w'. yieldAll f (fst (any_visit now e)) out w
     = (emit_all g (map Inr (fst (pre_visit now (abs_entry c s now e)))) out, w') \<and> w_store w' = s"
  unfolding abs_visit(1) [symmetric]
  by (rule yieldAll_items) (auto simp: any_visit_def Let_def split: prod.splits option.splits)

lemma yield_start:
  "w_store w = s \<Longrightarrow> \<exists>w'. yieldAll f (any_start_items p t now) out w
     = (emit_all g (map Inr (start_items p (storedTree c s now t) now)) out, w') \<and> w_store w' = s"
  unfolding abs_start [symmetric]
  by (rule yieldAll_items) (auto split: option.splits)

lemma readable_children:
  "any_readable c s now (fst e) \<Longrightarrow> first_fail (entry_children c s now e) = None
   \<and> (\<forall>x \<in> set (oks (entry_children c s now e)). any_readable c s now (fst x))"
  by (subst (asm) any_readable.simps)
    (auto simp: entry_children_def child_entry_def any_kids_def list_all_iff split: prod.splits)

section \<open>Breadth first\<close>

abbreviation q_outcomes :: "(async_entry, child_iter) async_queue \<Rightarrow> async_entry outcome list" where
  "q_outcomes q \<equiv> aq_contents (child_rest c s now) q"

abbreviation all_readable :: "async_entry list \<Rightarrow> bool" where
  "all_readable es \<equiv> (\<forall>x \<in> set es. any_readable c s now (fst x))"

lemma breadth_loop:
  "aq_invar q \<Longrightarrow> w_store w = s \<Longrightarrow> approx (abs_entry c s now) (q_outcomes q) ys \<Longrightarrow> entries_count ys < fuel \<Longrightarrow>
   \<exists>res w'. asyncPreOrderLoop (asyncQueue_ops (childIterator c now)) f now fuel q out w = Some (res, w') \<and> w_store w' = s
     \<and> searched g (queue_items now ys) out (first_fail (q_outcomes q) = None \<and> all_readable (oks (q_outcomes q))) res"
proof (induction fuel arbitrary: q w ys out)
  case (Suc fuel)
  note q = Suc.prems(1) and w = Suc.prems(2)
  show ?case
  proof (cases "q_outcomes q" rule: oks.cases)
    case 1
    with Suc.prems(3) child_iterator.as_queue.pop_empty [OF q w 1] w show ?thesis
      by (auto intro: searched_all)
  next
    case (3 e os)
    with child_iterator.as_queue.pop_fail [OF q w 3] child_iterator.as_queue.length_positive [OF q, of c s now] show ?thesis
      by (auto intro: searched_read_error)
  next
    case (2 x os)
    let ?x = "abs_entry c s now x"
    from Suc.prems(3) 2 obtain zs where ys: "ys = ?x # zs" "approx (abs_entry c s now) os zs" by auto
    from child_iterator.as_queue.pop_first [OF q w 2] obtain q1 w1
      where pop: "al_pop (asyncQueue_ops (childIterator c now)) q w = Some (Inr (Some x, q1), w1)"
        "aq_invar q1" "w_store w1 = s" "q_outcomes q1 = os" by blast
    from yield_visit [OF pop(3), of x out] obtain w2
      where y: "yieldAll f (fst (any_visit now x)) out w1 = (emit_all g (map Inr (fst (pre_visit now ?x))) out, w2)"
        "w_store w2 = s" by blast
    have pos: "al_length (asyncQueue_ops (childIterator c now)) q > 0"
      using child_iterator.as_queue.length_positive [OF q, of c s now] 2 by simp
    obtain out1 err where e: "emit_all g (map Inr (fst (pre_visit now ?x))) out = (out1, err)" by fastforce
    show ?thesis
    proof (cases err)
      case (Some er)
      with pos pop y e ys show ?thesis by (auto intro: searched_consumer_error)
    next
      case None
      from push_children_queue [OF pop(2) y(2), of c now x] obtain q3 w3
        where push: "pushChildren (asyncQueue_ops (childIterator c now)) now x q1 w2 = Some (Inr q3, w3)"
          "aq_invar q3" "w_store w3 = s" "q_outcomes q3 = os @ entry_children c s now x"
        using pop(4) by auto
      let ?zs = "zs @ next_entries now ?x"
      have a: "approx (abs_entry c s now) (q_outcomes q3) ?zs"
        unfolding push(4) abs_next_entries by (intro approx_append ys(2) approx_oks)
      have fuel: "entries_count ?zs < fuel"
        using Suc.prems(4) ys(1) entries_count_next [of ?x now] by simp
      from Suc.IH [OF push(2,3) a fuel, of out1] obtain res w4
        where r: "asyncPreOrderLoop (asyncQueue_ops (childIterator c now)) f now fuel q3 out1 w3 = Some (res, w4)"
          "w_store w4 = s"
          and sr: "searched g (queue_items now ?zs) out1
             (first_fail (q_outcomes q3) = None \<and> all_readable (oks (q_outcomes q3))) res" by blast
      have "searched g (queue_items now ys) out
          (first_fail (q_outcomes q) = None \<and> all_readable (oks (q_outcomes q))) res"
        unfolding ys(1) queue_items.simps
      proof (rule searched_append [OF e [unfolded None]], rule searched_weaken [OF sr])
        assume "first_fail (q_outcomes q) = None \<and> all_readable (oks (q_outcomes q))"
        with readable_children [of x] show "first_fail (q_outcomes q3) = None \<and> all_readable (oks (q_outcomes q3))"
          by (auto simp: 2 push(4) oks_append)
      qed
      with pos pop y e None push r show ?thesis by simp
    qed
  qed
qed simp

section \<open>Depth first\<close>

lemma depth_loop:
  "w_store w = s \<Longrightarrow> entries_count (map (abs_entry c s now) l) < fuel \<Longrightarrow>
   \<exists>res w'. asyncPreOrderLoop (asyncStack_ops (childIterator c now)) f now fuel l out w = Some (res, w') \<and> w_store w' = s
     \<and> searched g (concat (map (dfs_items now) (rev (map (abs_entry c s now) l)))) out (all_readable l) res"
proof (induction fuel arbitrary: l w out)
  case (Suc fuel)
  note w = Suc.prems(1)
  show ?case
  proof (cases l rule: rev_cases)
    case Nil
    with w show ?thesis by (auto simp: asyncStack_ops_def intro: searched_all)
  next
    case (snoc es x)
    let ?x = "abs_entry c s now x"
    have pop: "al_length (asyncStack_ops (childIterator c now)) l > 0"
      "al_pop (asyncStack_ops (childIterator c now)) l w = Some (Inr (Some x, es), w)"
      by (simp_all add: snoc asyncStack_ops_def asyncStack_pop_def array_pop_def)
    from yield_visit [OF w, of x out] obtain w2
      where y: "yieldAll f (fst (any_visit now x)) out w = (emit_all g (map Inr (fst (pre_visit now ?x))) out, w2)"
        "w_store w2 = s" by blast
    obtain out1 err where e: "emit_all g (map Inr (fst (pre_visit now ?x))) out = (out1, err)" by fastforce
    let ?children = "entry_children c s now x"
    let ?rest = "concat (map (dfs_items now) (rev (map (abs_entry c s now) (es @ oks ?children))))"
    have items: "concat (map (dfs_items now) (rev (map (abs_entry c s now) l))) = fst (pre_visit now ?x) @ ?rest"
      by (simp add: snoc dfs_items.simps [of now ?x] abs_next_entries rev_map)
    show ?thesis
    proof (cases err)
      case (Some er)
      have "searched g (fst (pre_visit now ?x) @ ?rest) out (all_readable l) (out1, Some er)"
        using e Some by (intro searched_consumer_error) simp
      with pop y e Some show ?thesis unfolding items by simp
    next
      case None
      note append = searched_append [OF e [unfolded None]]
      from push_children_stack [OF y(2), of c now x es] obtain r w3
        where push: "pushChildren (asyncStack_ops (childIterator c now)) now x es w2 = Some (r, w3)" "w_store w3 = s"
          and r: "case first_fail ?children of None \<Rightarrow> r = Inr (es @ oks ?children) | Some er \<Rightarrow> r = Inl er" by blast
      show ?thesis
      proof (cases "first_fail ?children")
        case (Some er)
        then have "\<not> all_readable l" using readable_children [of x] by (auto simp: snoc)
        then have "searched g (fst (pre_visit now ?x) @ ?rest) out (all_readable l) (out1, Some er)"
          by (intro append searched_read_error)
        with pop y e None push r Some show ?thesis unfolding items by simp
      next
        case ok: None
        have "entries_count (map (abs_entry c s now) (es @ oks ?children)) < fuel"
          using Suc.prems(2) entries_count_next [of ?x now] by (simp add: snoc abs_next_entries)
        from Suc.IH [OF push(2) this, of out1] obtain res w4
          where l: "asyncPreOrderLoop (asyncStack_ops (childIterator c now)) f now fuel (es @ oks ?children) out1 w3
                = Some (res, w4)" "w_store w4 = s"
            and sr: "searched g ?rest out1 (all_readable (es @ oks ?children)) res" by blast
        have "searched g (fst (pre_visit now ?x) @ ?rest) out (all_readable l) res"
          by (rule append, rule searched_weaken [OF sr]) (use readable_children [of x] in \<open>auto simp: snoc\<close>)
        with pop y e None push r ok l show ?thesis unfolding items by simp
      qed
    qed
  qed
qed simp

section \<open>The pre-order searches\<close>

lemma pre_order_start:
  assumes w: "w_store w = s"
    and loop: "\<And>w l out. w_store w = s \<Longrightarrow> start w = Some (Inr l, w) \<Longrightarrow> \<exists>res w'. run l out w = Some (res, w') \<and> w_store w' = s
      \<and> searched g ys out (any_readable c s now t) res"
    and start: "\<And>w. w_store w = s \<Longrightarrow> \<exists>l. start w = Some (Inr l, w)"
  shows "\<exists>res w'. (case yieldAll f (any_start_items p t now) [] w of
        ((out, Some e), w) \<Rightarrow> Some ((out, Some e), w)
      | ((out, None), w) \<Rightarrow>
          (case start w of
             None \<Rightarrow> None
           | Some (Inl e, w) \<Rightarrow> Some ((out, Some e), w)
           | Some (Inr l, w) \<Rightarrow> run l out w)) = Some (res, w') \<and> w_store w' = s
    \<and> searched g (start_items p (storedTree c s now t) now @ ys) [] (any_readable c s now t) res"
proof -
  obtain out err where e: "emit_all g (map Inr (start_items p (storedTree c s now t) now)) [] = (out, err)" by fastforce
  from yield_start [OF w, where p = p and t = t and out = "[]"] obtain w1
    where y: "yieldAll f (any_start_items p t now) [] w = ((out, err), w1)" "w_store w1 = s"
    unfolding e by blast
  show ?thesis
  proof (cases err)
    case (Some er)
    with y e show ?thesis by (auto intro: searched_consumer_error)
  next
    case None
    from start [OF y(2)] obtain l where l: "start w1 = Some (Inr l, w1)" by blast
    from loop [OF y(2) l, of out] e None show ?thesis
      by (auto simp: y l intro: searched_append)
  qed
qed

lemma breadth_first_search:
  assumes "w_store w = s"
  shows "\<exists>res w'. asyncTreePreOrderBreadthFirstSearch c t p now f w = Some (res, w') \<and> w_store w' = s
    \<and> searched g (fst (treePreOrderBreadthFirstSearch (storedTree c s now t) p now)) [] (any_readable c s now t) res"
  unfolding asyncTreePreOrderBreadthFirstSearch_def asyncTreePreOrderTraversal_def Let_def assms bfs_order fst_conv
proof (rule pre_order_start [OF assms])
  fix w :: "('s, 'm) world" and l out
  assume w: "w_store w = s"
    and start: "al_push (asyncQueue_ops (childIterator c now)) (Inl (t, case p of None \<Rightarrow> 0 | Some p \<Rightarrow> ch_level p, None, p))
      queue_new w = Some (Inr l, w)"
  have l: "aq_invar l" "q_outcomes l = [Inr (t, case p of None \<Rightarrow> 0 | Some p \<Rightarrow> ch_level p, None, p)]"
    using child_iterator.as_queue.push_item [OF child_iterator.as_queue.invar_new w,
        of c now "(t, case p of None \<Rightarrow> 0 | Some p \<Rightarrow> ch_level p, None, p)"] start
      child_iterator.as_queue.contents_new [of c s now] by auto
  then have "approx (abs_entry c s now) (q_outcomes l) [start_entry p (storedTree c s now t)]"
    by (simp add: abs_entry_def)
  from breadth_loop [OF l(1) w this, of "Suc (node_count (storedTree c s now t))" out] l(2)
  show "\<exists>res w'. asyncPreOrderLoop (asyncQueue_ops (childIterator c now)) f now (Suc (node_count (storedTree c s now t))) l out w
      = Some (res, w') \<and> w_store w' = s
      \<and> searched g (level_items now [start_entry p (storedTree c s now t)]) out (any_readable c s now t) res"
    by (simp only: queue_items_level) simp
qed (simp add: asyncQueue_ops_def)

lemma depth_first_search:
  assumes "w_store w = s"
  shows "\<exists>res w'. asyncTreePreOrderDepthFirstSearch c t p now f w = Some (res, w') \<and> w_store w' = s
    \<and> searched g (fst (treePreOrderDepthFirstSearch (storedTree c s now t) p now)) [] (any_readable c s now t) res"
  unfolding asyncTreePreOrderDepthFirstSearch_def asyncTreePreOrderTraversal_def Let_def assms dfs_order fst_conv
proof (rule pre_order_start [OF assms])
  fix w :: "('s, 'm) world" and l out
  assume w: "w_store w = s"
    and start: "al_push (asyncStack_ops (childIterator c now)) (Inl (t, case p of None \<Rightarrow> 0 | Some p \<Rightarrow> ch_level p, None, p))
      [] w = Some (Inr l, w)"
  then have l: "l = [(t, case p of None \<Rightarrow> 0 | Some p \<Rightarrow> ch_level p, None, p)]"
    by (simp add: asyncStack_ops_def asyncStack_push_def array_push_def)
  from depth_loop [OF w, of l "Suc (node_count (storedTree c s now t))" out]
  show "\<exists>res w'. asyncPreOrderLoop (asyncStack_ops (childIterator c now)) f now (Suc (node_count (storedTree c s now t))) l out w
      = Some (res, w') \<and> w_store w' = s
      \<and> searched g (dfs_items now (start_entry p (storedTree c s now t))) out (any_readable c s now t) res"
    by (simp add: l abs_entry_def)
qed (simp add: asyncStack_ops_def asyncStack_push_def)

end

section \<open>Post-order\<close>

abbreviation post_subtrees :: "int \<Rightarrow> chained option \<Rightarrow> (key \<times> rvalue tree_value tree) list \<Rightarrow> rvalue tree_value item list" where
  "post_subtrees now p ks \<equiv> concat (map (\<lambda>(k, u). post_items now p k u) ks)"

definition post_reached :: "('v, 's, 'm) cache \<Rightarrow> 's \<Rightarrow> int \<Rightarrow> chained option \<Rightarrow> (key \<times> any_tree) list \<Rightarrow> rvalue tree_value item list" where
  "post_reached c s now p us = post_subtrees now p (map (\<lambda>(k, u). (k, storedTree c s now u)) us)"

lemma post_reached_simps [simp]:
  "post_reached c s now p [] = []"
  "post_reached c s now p ((k, u) # us) = post_items now p k (storedTree c s now u) @ post_reached c s now p us"
  by (simp_all add: post_reached_def)

lemma post_items_stored:
  "post_items now p k (storedTree c s now t) =
     (let i = createTraversalItem k ((case p of None \<Rightarrow> 0 | Some r \<Rightarrow> ch_level r) + 1) p (storedTree c s now t) now
      in post_reached c s now (Some (item_ref i)) (any_kids c s now t) @ [i])"
  by (subst post_items.simps) (simp add: kids_storedTree post_reached_def Let_def)

lemma any_kids_sync: "any_kids c s now (SyncRef u) = map (\<lambda>(k, u). (k, SyncRef u)) (sync_kids u)"
proof -
  have "any_children c s now (SyncRef u) = map Inr (map (\<lambda>(k, u). (k, SyncRef u)) (sync_kids u))"
    by (simp add: case_prod_unfold)
  then show ?thesis unfolding any_kids_def by (simp only: oks_map_Inr)
qed

lemma readable_sync_kids:
  "any_readable c s now (SyncRef u) \<Longrightarrow> \<forall>(k, u) \<in> set (sync_kids u). any_readable c s now (SyncRef u)"
  by (subst (asm) any_readable.simps) (auto simp: any_kids_sync list_all_iff)

lemma readable_all_children:
  "any_children c s now t = os \<Longrightarrow> any_readable c s now t \<Longrightarrow>
   first_fail os = None \<and> (\<forall>(k, u) \<in> set (oks os). any_readable c s now u)"
  by (subst (asm) any_readable.simps) (auto simp: any_kids_def list_all_iff)

text \<open>
  A run of a part of the post-order traversal delivers the items \<open>xs\<close>; a run that is followed by
  another one where it has not failed delivers the items of both.
\<close>

definition delivers ::
  "(rvalue tree_value item \<Rightarrow> 'y outcome) \<Rightarrow> 's \<Rightarrow> rvalue tree_value item list \<Rightarrow> 'y list \<Rightarrow> bool
   \<Rightarrow> ('y list \<times> error option) \<times> 'l \<times> ('s, 'm) world \<Rightarrow> bool" where
  "delivers g s xs out ok r \<longleftrightarrow> w_store (snd (snd r)) = s \<and> searched g xs out ok (fst r)"

lemma delivers_then:
  assumes "delivers g s xs out ok1 r"
    and "\<And>out' l w. r = ((out', None), l, w) \<Longrightarrow> w_store w = s \<Longrightarrow> delivers g s ys out' ok2 (rest out' l w)"
    and "ok \<Longrightarrow> ok1 \<and> ok2"
  shows "delivers g s (xs @ ys) out ok
    (case r of ((out, Some e), l, w) \<Rightarrow> ((out, Some e), l, w) | ((out, None), l, w) \<Rightarrow> rest out l w)"
proof -
  obtain out' err l w where r: "r = ((out', err), l, w)" by (metis prod.exhaust)
  show ?thesis
  proof (cases err)
    case (Some e)
    with assms(1) r show ?thesis
      by (auto simp: delivers_def intro: searched_weaken [OF searched_stop [of g xs out ok1 out' e ys ok2] assms(3)])
  next
    case None
    with assms(1) r have x: "searched g xs out ok1 (out', None)" "w_store w = s" by (simp_all add: delivers_def)
    from assms(2) [OF r [unfolded None] x(2)]
    have y: "searched g ys out' ok2 (fst (rest out' l w))" "w_store (snd (snd (rest out' l w))) = s"
      by (simp_all add: delivers_def)
    from searched_weaken [OF searched_append [OF searched_done [OF x(1)] y(1)]] assms(3) y(2) None r show ?thesis
      by (simp add: delivers_def)
  qed
qed

lemma delivers_last:
  assumes "item_consumer c s now f g" "w_store w = s" "\<And>i. i \<in> set is \<Longrightarrow> ai_value i = any_value (ai_tree i) now"
  shows "delivers g s (map (abs_item c s now) is) out ok (case yieldAll f is out w of (r, w) \<Rightarrow> (r, l, w))"
proof -
  from item_consumer.yieldAll_items [OF assms, where out = out] obtain w'
    where "yieldAll f is out w = (emit_all g (map Inr (map (abs_item c s now) is)) out, w')" "w_store w' = s" by blast
  then show ?thesis by (simp add: delivers_def searched_all)
qed

lemma post_order_below:
  assumes w: "w_store w = s"
    and sync: "\<And>u. t = SyncRef u \<Longrightarrow> delivers g s (post_reached c s now ref (map (\<lambda>(k, u). (k, SyncRef u)) (sync_kids u))) out
        (\<forall>(k, u) \<in> set (sync_kids u). any_readable c s now (SyncRef u)) (asyncPostKids c push now f (sync_kids u) l nd ref out w)"
    and async: "\<And>nodeRef ks. t = AsyncTreeRef nodeRef \<Longrightarrow> asyncKeys c nodeRef w = Inr ks \<Longrightarrow>
        delivers g s (post_reached c s now ref (oks (childOutcomes c s now nodeRef ks))) out
          (first_fail (childOutcomes c s now nodeRef ks) = None
           \<and> (\<forall>(k, u) \<in> set (oks (childOutcomes c s now nodeRef ks)). any_readable c s now u))
          (asyncPostKeys c push now f nodeRef ks l ref out w)"
  shows "delivers g s (post_reached c s now ref (any_kids c s now t)) out (any_readable c s now t)
    (case t of
       AsyncTreeRef nodeRef \<Rightarrow>
         (case asyncKeys c nodeRef w of
            Inl e \<Rightarrow> ((out, Some e), l, w) | Inr ks \<Rightarrow> asyncPostKeys c push now f nodeRef ks l ref out w)
     | SyncRef t \<Rightarrow> asyncPostKids c push now f (sync_kids t) l nd ref out w)"
proof (cases t)
  case (SyncRef u)
  from sync [OF this] SyncRef show ?thesis
    by (auto simp: delivers_def any_kids_sync intro: searched_weaken [OF _ readable_sync_kids])
next
  case (AsyncTreeRef nodeRef)
  show ?thesis
  proof (cases "asyncKeys c nodeRef w")
    case (Inl e)
    then have "\<not> any_readable c s now t"
      using asyncKeys_children [of c w now nodeRef] w AsyncTreeRef by (subst any_readable.simps) simp
    with Inl AsyncTreeRef w show ?thesis by (auto simp: delivers_def intro: searched_read_error)
  next
    case (Inr ks)
    then have children: "any_children c s now t = childOutcomes c s now nodeRef ks"
      using asyncKeys_children [of c w now nodeRef] w AsyncTreeRef by simp
    from async [OF AsyncTreeRef Inr] Inr AsyncTreeRef show ?thesis
      unfolding any_kids_def children delivers_def
      by (auto intro: searched_weaken [OF _ readable_all_children [OF children]])
  qed
qed

lemma post_order_run:
  shows "item_consumer c s now f g \<Longrightarrow> w_store w = s \<Longrightarrow>
      delivers g s (case key of None \<Rightarrow> post_reached c s now p (any_kids c s now t)
          | Some k \<Rightarrow> post_items now p k (storedTree c s now t)) out (any_readable c s now t)
        (asyncTreePostOrderTraversalRecursive c push now f t l p key out w)"
    and "item_consumer c s now f g \<Longrightarrow> w_store w = s \<Longrightarrow>
      delivers g s (post_reached c s now ref (oks (childOutcomes c s now nodeRef ks))) out
        (first_fail (childOutcomes c s now nodeRef ks) = None
         \<and> (\<forall>(k, u) \<in> set (oks (childOutcomes c s now nodeRef ks)). any_readable c s now u))
        (asyncPostKeys c push now f nodeRef ks l ref out w)"
    and "item_consumer c s now f g \<Longrightarrow> w_store w = s \<Longrightarrow>
      delivers g s (post_reached c s now ref (map (\<lambda>(k, u). (k, SyncRef u)) sks)) out
        (\<forall>(k, u) \<in> set sks. any_readable c s now (SyncRef u)) (asyncPostKids c push now f sks l nd ref out w)"
proof (induction c push now f t l p key out w and c push now f nodeRef ks l ref out w and c push now f sks l nd ref out w
    rule: asyncTreePostOrderTraversalRecursive_asyncPostKeys_asyncPostKids.induct)
  case (1 c push now f t l p key out w)
  let ?node = "map_option (\<lambda>k. createAnyItem k ((case p of None \<Rightarrow> 0 | Some r \<Rightarrow> ch_level r) + 1) p t now) key"
  let ?ref = "case ?node of None \<Rightarrow> p | Some n \<Rightarrow> Some (ai_ref n)" and ?last = "case ?node of None \<Rightarrow> [] | Some n \<Rightarrow> [n]"
  have items: "(case key of None \<Rightarrow> post_reached c s now p (any_kids c s now t)
      | Some k \<Rightarrow> post_items now p k (storedTree c s now t))
    = post_reached c s now ?ref (any_kids c s now t) @ map (abs_item c s now) ?last"
    by (cases key) (simp_all add: post_items_stored Let_def)
  show ?case
    unfolding items asyncTreePostOrderTraversalRecursive.simps [of c push now f t l p key out w] Let_def
    by (rule delivers_then [where ?ok2.0 = True, OF post_order_below [OF 1(4)] delivers_last [OF 1(3)]])
      (use 1 in \<open>auto split: option.splits\<close>)
next
  case (3 c push now f nodeRef nextKey ks l ref out w)
  obtain r w1 where child: "asyncChild c now nodeRef nextKey w = (r, w1)" by fastforce
  have r: "childOutcome c s now nodeRef nextKey = r" "w_store w1 = s"
    using asyncChild_outcome [OF child] 3(5) by auto
  show ?case
  proof (cases r)
    case (Inl e)
    with child r show ?thesis by (auto simp: delivers_def intro: searched_read_error)
  next
    case (Inr ot)
    show ?thesis
    proof (cases ot)
      case None
      with 3(1) [OF child [symmetric] Inr None 3(4) r(2)] child r Inr show ?thesis by simp
    next
      case (Some t)
      have run: "asyncPostKeys c push now f nodeRef (nextKey # ks) l ref out w
          = (case asyncTreePostOrderTraversalRecursive c push now f t l ref (Some nextKey) out w1 of
               ((out, Some e), l, w) \<Rightarrow> ((out, Some e), l, w)
             | ((out, None), l, w) \<Rightarrow> asyncPostKeys c push now f nodeRef ks l ref out w)"
        by (simp only: asyncPostKeys.simps child prod.case Inr Some sum.case option.case)
      have o: "childOutcomes c s now nodeRef (nextKey # ks) = Inr (nextKey, t) # childOutcomes c s now nodeRef ks"
        using r Inr Some by simp
      show ?thesis
        unfolding run o oks.simps post_reached_simps
        by (rule delivers_then [OF 3(2) [OF child [symmetric] Inr Some 3(4) r(2), unfolded option.case]
              3(3) [OF child [symmetric] Inr Some sym refl refl refl 3(4)]]) (assumption | simp)+
    qed
  qed
next
  case (5 c push now f nextKey nextTree siblings l nd ref out w)
  show ?case
    unfolding asyncPostKids.simps list.map prod.case post_reached_simps
    by (rule delivers_then [OF 5(1) [OF 5(3,4), unfolded option.case] 5(2) [OF sym refl refl refl 5(3)]]) (assumption | simp)+
qed (simp_all add: delivers_def)

context item_consumer
begin

lemma post_order_search:
  assumes w: "w_store w = s"
  shows "\<exists>res w'. asyncTreePostOrderTraversal c push t l p now f w = (res, w') \<and> w_store w' = s
    \<and> searched g (treePostOrderTraversal push' (storedTree c s now t) l' p now) [] (any_readable c s now t) res"
proof -
  obtain out err l1 w1 where run: "asyncTreePostOrderTraversalRecursive c push now f t l p None [] w = ((out, err), l1, w1)"
    by (metis prod.exhaust)
  with post_order_run(1) [OF item_consumer_axioms w, where key = None and t = t and p = p and out = "[]" and push = push and l = l]
  have w1: "w_store w1 = s"
    and sr: "searched g (post_reached c s now p (any_kids c s now t)) [] (any_readable c s now t) (out, err)"
    by (simp_all add: delivers_def)
  have items: "treePostOrderTraversal push' (storedTree c s now t) l' p now
      = post_reached c s now p (any_kids c s now t) @ start_items p (storedTree c s now t) now"
    by (simp add: post_order kids_storedTree post_reached_def)
  show ?thesis
  proof (cases err)
    case (Some e)
    with searched_stop [OF sr [unfolded Some], of _ True] run w1 show ?thesis
      unfolding items by (simp add: asyncTreePostOrderTraversal_def)
  next
    case None
    from yield_start [OF w1, where p = p and t = t and out = out] obtain w2
      where y: "yieldAll f (any_start_items p t now) out w1
          = (emit_all g (map Inr (start_items p (storedTree c s now t) now)) out, w2)" "w_store w2 = s" by blast
    have "asyncTreePostOrderTraversal c push t l p now f w
        = (emit_all g (map Inr (start_items p (storedTree c s now t) now)) out, w2)"
      by (simp add: asyncTreePostOrderTraversal_def run None y)
    with searched_append [OF searched_done [OF sr [unfolded None]] searched_all [OF refl]] y(2) show ?thesis
      unfolding items by blast
  qed
qed

end

section \<open>Searches of the cache\<close>

text \<open>The synchronous searches on trees of both kinds.\<close>

definition syncDepthFirst ::
  "rvalue sync_tree \<Rightarrow> chained option \<Rightarrow> int \<Rightarrow> rvalue sync_item list \<times> error option" where
  "syncDepthFirst tree parentRef now =
     (case tree of
        PlainTree t \<Rightarrow> (case treePreOrderDepthFirstSearch t parentRef now of (is, e) \<Rightarrow> (map single_item is, e))
      | MultiTree t \<Rightarrow> (case treePreOrderDepthFirstSearch t parentRef now of (is, e) \<Rightarrow> (map multi_item is, e)))"

definition syncPostBreadthFirst ::
  "rvalue sync_tree \<Rightarrow> chained option \<Rightarrow> int \<Rightarrow> rvalue sync_item list \<times> error option" where
  "syncPostBreadthFirst tree parentRef now =
     (case tree of
        PlainTree t \<Rightarrow> (map single_item (treePostOrderBreadthFirstSearch t parentRef now), None)
      | MultiTree t \<Rightarrow> (map multi_item (treePostOrderBreadthFirstSearch t parentRef now), None))"

definition syncPostDepthFirst ::
  "rvalue sync_tree \<Rightarrow> chained option \<Rightarrow> int \<Rightarrow> rvalue sync_item list \<times> error option" where
  "syncPostDepthFirst tree parentRef now =
     (case tree of
        PlainTree t \<Rightarrow> (map single_item (treePostOrderDepthFirstSearch t parentRef now), None)
      | MultiTree t \<Rightarrow> (map multi_item (treePostOrderDepthFirstSearch t parentRef now), None))"

text \<open>\<open>AsyncTraversalFunction\<close> and \<open>SyncTraversalFunction\<close> of \<open>src/internal/types.ts\<close>.\<close>

type_synonym ('s, 'm, 'y) asyncTraversal =
  "any_tree \<Rightarrow> chained option \<Rightarrow> int \<Rightarrow> (any_item \<Rightarrow> ('s, 'm) world \<Rightarrow> ('y, ('s, 'm) world) result)
   \<Rightarrow> ('s, 'm) world \<Rightarrow> (('y list \<times> error option) \<times> ('s, 'm) world) option"

type_synonym syncTraversal =
  "rvalue sync_tree \<Rightarrow> chained option \<Rightarrow> int \<Rightarrow> rvalue sync_item list \<times> error option"

definition sync_any_item :: "rvalue sync_item \<Rightarrow> any_item" where
  "sync_any_item i = \<lparr>ai_ref = si_ref i, ai_value = si_value i, ai_tree = SyncRef (si_tree i)\<rparr>"

definition getTraversalIterable ::
  "('v, 's, 'm) cache \<Rightarrow> rvalue sync_item option \<Rightarrow> ('s, 'm, 'y) asyncTraversal \<Rightarrow> syncTraversal \<Rightarrow> int
   \<Rightarrow> (any_item \<Rightarrow> ('s, 'm) world \<Rightarrow> ('y, ('s, 'm) world) result)
   \<Rightarrow> ('s, 'm) world \<Rightarrow> (('y list \<times> error option) \<times> ('s, 'm) world) option" where
  "getTraversalIterable c nodeRef getAsyncIterable getIterable now f w =
     (case nodeRef of
        Some n \<Rightarrow>
          if keyLevelNodes c \<le> ch_level (si_ref n) then
            (case getIterable (si_tree n) (Some (si_ref n)) now of (is, err) \<Rightarrow>
               (case yieldAll f (map sync_any_item is) [] w of
                  ((out, None), w) \<Rightarrow> Some ((out, err), w)
                | ((out, Some e), w) \<Rightarrow> Some ((out, Some e), w)))
          else getAsyncIterable (AsyncTreeRef (Some (si_ref n, si_value n))) (Some (si_ref n)) now f w
      | None \<Rightarrow> getAsyncIterable (AsyncTreeRef None) None now f w)"

text \<open>\<open>this.getStep(item[valueSymbol], item)\<close>.\<close>

definition itemStep ::
  "('v, 's, 'm) cache \<Rightarrow> any_item \<Rightarrow> ('s, 'm) world \<Rightarrow> ('v step, ('s, 'm) world) result" where
  "itemStep c item w = getStep c (map_option TreeValue (ai_value item)) (ai_ref item) None w"

definition getTraversalStepsIterable ::
  "('v, 's, 'm) cache \<Rightarrow> ('s, 'm, 'v step) asyncTraversal \<Rightarrow> syncTraversal \<Rightarrow> path option \<Rightarrow> int
   \<Rightarrow> ('s, 'm) world \<Rightarrow> (('v step list \<times> error option) \<times> ('s, 'm) world) option" where
  "getTraversalStepsIterable c getAsyncIterable getIterable basePath now w =
     (case (case basePath of None \<Rightarrow> (Inr None, w) | Some p \<Rightarrow> getNodeRef c p False now w) of
        (Inl e, w) \<Rightarrow> Some (([], Some e), w)
      | (Inr nodeRef, w) \<Rightarrow>
          if basePath = None \<or> nodeRef \<noteq> None
          then getTraversalIterable c nodeRef getAsyncIterable getIterable now (itemStep c) w
          else Some (([], None), w))"

definition preOrderBreadthFirstSearch ::
  "('v, 's, 'm) cache \<Rightarrow> path option \<Rightarrow> int \<Rightarrow> ('s, 'm) world
   \<Rightarrow> (('v step list \<times> error option) \<times> ('s, 'm) world) option" where
  "preOrderBreadthFirstSearch c basePath now w =
     getTraversalStepsIterable c (asyncTreePreOrderBreadthFirstSearch c) syncBreadthFirst basePath now w"

definition preOrderDepthFirstSearch ::
  "('v, 's, 'm) cache \<Rightarrow> path option \<Rightarrow> int \<Rightarrow> ('s, 'm) world
   \<Rightarrow> (('v step list \<times> error option) \<times> ('s, 'm) world) option" where
  "preOrderDepthFirstSearch c basePath now w =
     getTraversalStepsIterable c (asyncTreePreOrderDepthFirstSearch c) syncDepthFirst basePath now w"

definition postOrderBreadthFirstSearch ::
  "('v, 's, 'm) cache \<Rightarrow> path option \<Rightarrow> int \<Rightarrow> ('s, 'm) world
   \<Rightarrow> (('v step list \<times> error option) \<times> ('s, 'm) world) option" where
  "postOrderBreadthFirstSearch c basePath now w =
     getTraversalStepsIterable c (asyncTreePostOrderBreadthFirstSearch c) syncPostBreadthFirst basePath now w"

definition postOrderDepthFirstSearch ::
  "('v, 's, 'm) cache \<Rightarrow> path option \<Rightarrow> int \<Rightarrow> ('s, 'm) world
   \<Rightarrow> (('v step list \<times> error option) \<times> ('s, 'm) world) option" where
  "postOrderDepthFirstSearch c basePath now w =
     getTraversalStepsIterable c (asyncTreePostOrderDepthFirstSearch c) syncPostDepthFirst basePath now w"

section \<open>Steps\<close>

text \<open>The step of an item of the represented tree.\<close>

definition step_outcome :: "('v, 's, 'm) cache \<Rightarrow> rvalue tree_value item \<Rightarrow> 'v step outcome" where
  "step_outcome c i =
     (case it_value i of
        None \<Rightarrow> Inr (mountStep (item_ref i) None)
      | Some (Single r) \<Rightarrow> Inr (mountStep (item_ref i) (decode c r))
      | Some (MultiTreeValue l) \<Rightarrow>
          (case vs_deserializeList (vser c) of
             None \<Rightarrow> Inl NoDeserializeList
           | Some h \<Rightarrow> Inr (mountStep (item_ref i) (case h l of Inl _ \<Rightarrow> None | Inr v \<Rightarrow> v))))"

lemma item_ref_abs [simp]: "item_ref (abs_item c s now i) = ai_ref i"
  by (simp add: abs_item_def)

interpretation step_consumer: item_consumer c s now "itemStep c" "step_outcome c" for c s now
proof (unfold_locales, goal_cases)
  case (1 w i)
  have v: "it_value (abs_item c s now i) = ai_value i" using 1(2) by (simp add: abs_item_def)
  show ?case
  proof (cases "ai_value i")
    case None
    with 1 v show ?thesis by (simp add: itemStep_def step_outcome_def getStep_def)
  next
    case (Some tv)
    with 1 v show ?thesis
      by (cases tv) (auto simp: itemStep_def step_outcome_def getStep_def deserializeList_def decode_def
          split: option.splits sum.splits)
  qed
qed

end
