(* ===== verification/Cache_Stored.thy ===== *)
theory Cache_Stored
  imports Cache_Search
begin

text \<open>
  What the tree represented by a storage holds, and with it what the four searches of
  \<open>TreeKeyCache\<close> yield: for every node they reach the step that \<open>getNode\<close> would read there, and they
  reach every node that is registered with its parent.
\<close>

section \<open>Well-formed items\<close>

definition wf_ref :: "chained option \<Rightarrow> bool" where
  "wf_ref p \<longleftrightarrow> (case p of None \<Rightarrow> True | Some r \<Rightarrow> wf_chain r)"

definition wf_item :: "int \<Rightarrow> 'a item \<Rightarrow> bool" where
  "wf_item now i \<longleftrightarrow> wf_chain (item_ref i) \<and> it_value i = getTreeCurrentSerializedValue (it_tree i) now"

lemma wf_chain_Chained: "wf_chain (ChainedObject k l p) \<longleftrightarrow> wf_ref p \<and> l = Suc (case p of None \<Rightarrow> 0 | Some r \<Rightarrow> ch_level r)"
  by (cases p) (auto simp: wf_ref_def)

lemma wf_start_items: "wf_ref p \<Longrightarrow> i \<in> set (start_items p t now) \<Longrightarrow> wf_item now i"
  by (cases p) (auto simp: wf_item_def wf_ref_def)

lemma wf_dfs_items:
  "i \<in> set (dfs_items now (t, l, key, p)) \<Longrightarrow> wf_ref p \<Longrightarrow>
   l = (case p of None \<Rightarrow> 0 | Some r \<Rightarrow> ch_level r) + (if key = None then 0 else 1) \<Longrightarrow> wf_item now i"
proof (induction t arbitrary: l key p rule: tree_kids_induct)
  case (Tree t)
  let ?e = "(t, l, key, p)"
  let ?q = "snd (pre_visit now ?e)"
  have q: "wf_ref ?q" "(case ?q of None \<Rightarrow> 0 | Some r \<Rightarrow> ch_level r) = l"
    using Tree.prems(2,3)
    by (auto simp: pre_visit_def Let_def wf_ref_def wf_chain_Chained split: option.splits)
  from Tree.prems(1) consider "i \<in> set (fst (pre_visit now ?e))"
    | k u where "(k, u) \<in> set (kids t)" "i \<in> set (dfs_items now (u, Suc l, Some k, ?q))"
    by (subst (asm) dfs_items.simps) (auto simp: next_entries_def)
  then show ?case
  proof cases
    case 1
    then show ?thesis
      using Tree.prems(2,3) by (auto simp: pre_visit_def Let_def wf_item_def wf_chain_Chained split: option.splits)
  next
    case (2 k u)
    from Tree.IH [OF 2 q(1)] q(2) show ?thesis by simp
  qed
qed

lemma wf_post_items: "i \<in> set (post_items now p k t) \<Longrightarrow> wf_ref p \<Longrightarrow> wf_item now i"
proof (induction t arbitrary: p k rule: tree_kids_induct)
  case (Tree t)
  let ?i = "createTraversalItem k ((case p of None \<Rightarrow> 0 | Some r \<Rightarrow> ch_level r) + 1) p t now"
  have here: "wf_item now ?i" using Tree.prems(2) by (simp add: wf_item_def wf_chain_Chained)
  then have "wf_ref (Some (item_ref ?i))" by (simp add: wf_item_def wf_ref_def)
  with Tree.IH Tree.prems(1) here show ?case
    by (subst (asm) post_items.simps) (auto simp: Let_def)
qed

lemma wf_search_items:
  assumes "wf_ref p"
  shows "i \<in> set (fst (treePreOrderDepthFirstSearch t p now)) \<Longrightarrow> wf_item now i"
    and "i \<in> set (fst (treePreOrderBreadthFirstSearch t p now)) \<Longrightarrow> wf_item now i"
    and "i \<in> set (treePostOrderTraversal push t l p now) \<Longrightarrow> wf_item now i"
proof -
  have dfs: "j \<in> set (dfs_items now (start_entry p t)) \<Longrightarrow> wf_item now j" for j
    using wf_dfs_items [of j now t _ None p] assms by simp
  show "i \<in> set (fst (treePreOrderDepthFirstSearch t p now)) \<Longrightarrow> wf_item now i"
    unfolding dfs_order fst_conv set_append using dfs wf_start_items [OF assms] by blast
  show "i \<in> set (fst (treePreOrderBreadthFirstSearch t p now)) \<Longrightarrow> wf_item now i"
    unfolding bfs_order fst_conv set_append mset_eq_setD [OF bfs_same_visits [where now = now and p = p and t = t]]
    using dfs wf_start_items [OF assms] by blast
  show "i \<in> set (treePostOrderTraversal push t l p now) \<Longrightarrow> wf_item now i"
    unfolding post_order set_append using wf_post_items [OF _ assms] wf_start_items [OF assms] by fastforce
qed

section \<open>Nodes of the represented tree\<close>

text \<open>The node a reference stands for, in a storage without history.\<close>

definition stands :: "('v, 's, 'm) cache \<Rightarrow> 's \<Rightarrow> path \<Rightarrow> any_tree \<Rightarrow> bool" where
  "stands c s q t \<longleftrightarrow>
     (case t of
        AsyncTreeRef None \<Rightarrow> q = []
      | AsyncTreeRef (Some (ref, v)) \<Rightarrow>
          q \<noteq> [] \<and> length q < keyLevelNodes c \<and> ref = node_ref q
          \<and> v = map_option Single (st_get (c_storage c) s (join q))
      | SyncRef (PlainTree u) \<Rightarrow>
          keyLevelNodes c \<le> length q \<and>
          (\<exists>b t. st_get (c_storage c) s (join (take (keyLevelNodes c) q)) = Some b \<and> b \<noteq> []
             \<and> ts_deserialize (tser c) b = Inr t \<and> tree_lookup t (drop (keyLevelNodes c) q) = Some u)
      | SyncRef (MultiTree _) \<Rightarrow> False)"

text \<open>The step that stands for a path: what \<open>getNode\<close> returns where there is a value.\<close>

definition path_step :: "('v, 's, 'm) cache \<Rightarrow> int \<Rightarrow> 's \<Rightarrow> path \<Rightarrow> 'v step" where
  "path_step c now s q = mountStep (node_ref q) (Option.bind (raw_at c now s q) (decode c))"

text \<open>The root of the search at a path above the stored trees; the empty path is the whole storage.\<close>

definition search_root :: "('v, 's, 'm) cache \<Rightarrow> 's \<Rightarrow> path \<Rightarrow> any_tree" where
  "search_root c s path = AsyncTreeRef (if path = [] then None
     else Some (node_ref path, map_option Single (st_get (c_storage c) s (join path))))"

abbreviation base_path :: "path \<Rightarrow> path option" where
  "base_path path \<equiv> (if path = [] then None else Some path)"

text \<open>
  The nodes a search can reach: above the stored trees the keys \<open>getChildren\<close> lists for their parent,
  at the level of the trees those that are stored, inside a tree its nodes.
\<close>

definition children_keys :: "('v, 's, 'm) cache \<Rightarrow> 's \<Rightarrow> path \<Rightarrow> key list" where
  "children_keys c s q = (case st_getChildren (c_storage c) of None \<Rightarrow> []
     | Some getChildren \<Rightarrow> getChildren s (if q = [] then None else Some (join q)))"

definition present :: "('v, 's, 'm) cache \<Rightarrow> 's \<Rightarrow> path \<Rightarrow> bool" where
  "present c s q \<longleftrightarrow> length q < keyLevelNodes c \<or>
     (case st_get (c_storage c) s (join (take (keyLevelNodes c) q)) of
        None \<Rightarrow> False
      | Some b \<Rightarrow> (case ts_deserialize (tser c) b of
                     Inl _ \<Rightarrow> False | Inr t \<Rightarrow> tree_lookup t (drop (keyLevelNodes c) q) \<noteq> None))"

fun linked :: "('v, 's, 'm) cache \<Rightarrow> 's \<Rightarrow> path \<Rightarrow> path \<Rightarrow> bool" where
  "linked c s q [] \<longleftrightarrow> True"
| "linked c s q (k # r) \<longleftrightarrow>
     (length q < keyLevelNodes c \<longrightarrow> k \<in> set (children_keys c s q)) \<and> present c s (q @ [k]) \<and> linked c s (q @ [k]) r"

text \<open>
  The result of a search whose nodes are \<open>is\<close>: it ends, leaves the storage alone and has yielded the
  steps of these nodes, or, when a read has failed, of an initial part of them.
\<close>

definition yields ::
  "('v, 's, 'm) cache \<Rightarrow> int \<Rightarrow> ('s, 'm) world \<Rightarrow> path \<Rightarrow> rvalue tree_value item list
   \<Rightarrow> (('v step list \<times> error option) \<times> ('s, 'm) world) option \<Rightarrow> bool" where
  "yields c now w path is result \<longleftrightarrow>
     (\<exists>steps err w'. result = Some ((steps, err), w') \<and> w_store w' = w_store w
        \<and> prefix steps (map (\<lambda>i. path_step c now (w_store w) (item_path i)) is)
        \<and> (err = None \<longrightarrow> steps = map (\<lambda>i. path_step c now (w_store w) (item_path i)) is)
        \<and> (any_readable c (w_store w) now (search_root c (w_store w) path) \<longrightarrow> err = None))"

text \<open>
  A lawful cache without history and memoizer, with key level nodes, whose tree serializer does not
  read the empty string.
\<close>

locale searchable_cache = lawful_cache c for c :: "('v, 's, 'm) cache" +
  assumes plain: "plain_cache c" and levels: "0 < keyLevelNodes c"
    and no_empty: "isl (ts_deserialize (tser c) [])"
begin

lemma read_plain [simp]: "getReadStorageFunction (c_storage c) s k = Buffer (st_get (c_storage c) s k)"
  using plain by (simp add: plain_cache_def getReadStorageFunction_def)

lemma stands_async:
  assumes "stands c s q (AsyncTreeRef nodeRef)"
  shows "length q < keyLevelNodes c" "node_level nodeRef = length q" "map_option fst nodeRef = path_ref q"
    "map_option (buildKey \<circ> fst) nodeRef = (if q = [] then None else Some (join q))"
proof -
  consider "nodeRef = None" "q = []" | ref v where "nodeRef = Some (ref, v)" "q \<noteq> []" "length q < keyLevelNodes c" "ref = node_ref q"
    using assms by (cases nodeRef) (auto simp: stands_def)
  then have "length q < keyLevelNodes c \<and> node_level nodeRef = length q \<and> map_option fst nodeRef = path_ref q
      \<and> map_option (buildKey \<circ> fst) nodeRef = (if q = [] then None else Some (join q))"
    by cases (simp_all add: levels path_ref_node buildKey_node_ref)
  then show "length q < keyLevelNodes c" "node_level nodeRef = length q" "map_option fst nodeRef = path_ref q"
    "map_option (buildKey \<circ> fst) nodeRef = (if q = [] then None else Some (join q))" by auto
qed

lemma childOutcome_read:
  assumes "stands c s q (AsyncTreeRef nodeRef)"
  shows "childOutcome c s now nodeRef k =
      (let b = st_get (c_storage c) s (join (q @ [k])) in
       if Suc (length q) < keyLevelNodes c
       then Inr (Some (AsyncTreeRef (Some (ChainedObject k (Suc (length q)) (path_ref q), map_option Single b))))
       else if b = None then Inr None
       else map_sum id (\<lambda>t. Some (SyncRef (PlainTree t))) (ts_deserialize (tser c) (the b)))"
proof -
  have "buildKey (ChainedObject k (Suc (length q)) (path_ref q)) = join (q @ [k])"
    using buildKey_node_ref [of "q @ [k]"] by simp
  then show ?thesis using stands_async [OF assms] by (simp add: childOutcome_def Let_def)
qed

lemma childOutcome_stands:
  assumes st: "stands c s q (AsyncTreeRef nodeRef)" and out: "childOutcome c s now nodeRef k = Inr (Some u)"
  shows "stands c s (q @ [k]) u"
proof (cases "Suc (length q) < keyLevelNodes c")
  case True
  with out have "u = AsyncTreeRef (Some (ChainedObject k (Suc (length q)) (path_ref q),
      map_option Single (st_get (c_storage c) s (join (q @ [k])))))"
    by (simp add: childOutcome_read [OF st] Let_def)
  with True show ?thesis by (simp add: stands_def)
next
  case False
  then have len: "keyLevelNodes c = Suc (length q)" using stands_async(1) [OF st] by simp
  let ?b = "st_get (c_storage c) s (join (q @ [k]))"
  from out False obtain b t where b: "?b = Some b" "ts_deserialize (tser c) b = Inr t" "u = SyncRef (PlainTree t)"
    by (cases ?b; cases "ts_deserialize (tser c) (the ?b)") (auto simp: childOutcome_read [OF st] Let_def)
  with no_empty have "b \<noteq> []" by auto
  with b len show ?thesis by (simp add: stands_def)
qed

lemma childOutcomes_in:
  "Inr (k, u) \<in> set (childOutcomes c s now nodeRef ks) \<Longrightarrow> k \<in> set ks \<and> childOutcome c s now nodeRef k = Inr (Some u)"
  by (induction ks) (auto split: sum.splits option.splits)

lemma stands_kid:
  assumes "stands c s q t" "(k, u) \<in> set (any_kids c s now t)"
  shows "stands c s (q @ [k]) u"
proof (cases t)
  case (AsyncTreeRef nodeRef)
  with assms(2) have "childOutcome c s now nodeRef k = Inr (Some u)"
    by (auto simp: any_kids_def split: option.splits dest!: oks_in childOutcomes_in)
  with childOutcome_stands assms(1) AsyncTreeRef show ?thesis by blast
next
  case (SyncRef v)
  with assms(1) obtain x b t' where x: "v = PlainTree x" "keyLevelNodes c \<le> length q"
      "st_get (c_storage c) s (join (take (keyLevelNodes c) q)) = Some b" "b \<noteq> []"
      "ts_deserialize (tser c) b = Inr t'" "tree_lookup t' (drop (keyLevelNodes c) q) = Some x"
    by (auto simp: stands_def split: sync_tree.splits)
  have "wf_tree x" using wf_tree_lookup [OF tree_wf [OF x(5)] x(6)] .
  with assms(2) x SyncRef obtain y where "u = SyncRef (PlainTree y)" "tree_child x k = Some y"
    by (auto simp: any_kids_sync tree_child_Some_iff)
  with x show ?thesis
    by (auto simp: stands_def tree_lookup_append)
qed

lemma nodes_storedTree:
  "nodes pfx (storedTree c s now t) =
     concat (map (\<lambda>(k, u). (pfx @ [k], storedTree c s now u) # nodes (pfx @ [k]) (storedTree c s now u)) (any_kids c s now t))"
  by (subst nodes.simps) (simp add: kids_storedTree comp_def case_prod_unfold)

lemma nodes_stand:
  "stands c s pfx t \<Longrightarrow> (q, T) \<in> set (nodes pfx (storedTree c s now t)) \<Longrightarrow>
   \<exists>u. T = storedTree c s now u \<and> stands c s q u"
proof (induction t arbitrary: pfx rule: wf_induct_rule [OF wf_any_less [of c]])
  case (1 t)
  from 1(3) obtain k u where u: "(k, u) \<in> set (any_kids c s now t)"
    "(q, T) = (pfx @ [k], storedTree c s now u) \<or> (q, T) \<in> set (nodes (pfx @ [k]) (storedTree c s now u))"
    by (subst (asm) nodes_storedTree) auto
  from stands_kid [OF 1(2) u(1)] have "stands c s (pfx @ [k]) u" .
  with u(2) 1(1) [OF any_kid_less [OF u(1)]] show ?case by blast
qed

lemma stands_value:
  assumes "stands c s q t" "q \<noteq> []"
  shows "any_value t now = map_option Single (raw_at c now s q)"
proof (cases t)
  case (SyncRef v)
  with assms show ?thesis
    by (auto simp: stands_def raw_at_def tree_at_def Let_def split: sync_tree.splits)
next
  case (AsyncTreeRef nodeRef)
  with assms show ?thesis by (cases nodeRef) (auto simp: stands_def raw_at_def)
qed

lemma items_stand:
  assumes t: "stands c s (opt_path p) t" and ms: "mset (map item_node is) = visited p (storedTree c s now t)"
    and i: "i \<in> set is"
  shows "\<exists>u. it_tree i = storedTree c s now u \<and> stands c s (item_path i) u"
proof -
  have "item_node i \<in> set_mset (visited p (storedTree c s now t))"
    unfolding ms [symmetric] using i by auto
  then have "(item_path i, it_tree i) = (opt_path p, storedTree c s now t)
      \<or> (item_path i, it_tree i) \<in> set (nodes (opt_path p) (storedTree c s now t))"
    by (cases p) (auto simp: item_node_def)
  then show ?thesis
  proof
    assume "(item_path i, it_tree i) = (opt_path p, storedTree c s now t)"
    then have "item_path i = opt_path p" "it_tree i = storedTree c s now t" by (simp_all only: prod.inject)
    with t show ?thesis by metis
  qed (rule nodes_stand [OF t])
qed

lemma item_step:
  assumes "stands c s (opt_path p) t" "mset (map item_node is) = visited p (storedTree c s now t)"
    and "i \<in> set is" "wf_item now i"
  shows "step_outcome c i = Inr (path_step c now s (item_path i))"
proof -
  obtain u where u: "it_tree i = storedTree c s now u" "stands c s (item_path i) u"
    using items_stand [OF assms(1-3)] by blast
  have ref: "item_ref i = node_ref (item_path i)"
    using assms(4) wf_chain_node_ref [of "item_ref i"] unfolding wf_item_def by blast
  have "it_value i = map_option Single (raw_at c now s (item_path i))"
    using assms(4) u(1) stands_value [OF u(2)] by (simp add: wf_item_def)
  then have "step_outcome c i = Inr (mountStep (item_ref i) (Option.bind (raw_at c now s (item_path i)) (decode c)))"
    by (cases "raw_at c now s (item_path i)") (simp_all add: step_outcome_def)
  then show ?thesis unfolding path_step_def by (simp only: ref [symmetric])
qed

lemma emit_steps:
  assumes "stands c s (opt_path p) t" "mset (map item_node is) = visited p (storedTree c s now t)"
    and "\<And>i. i \<in> set is \<Longrightarrow> wf_item now i"
  shows "emit_all (step_outcome c) (map Inr is) out = (out @ map (\<lambda>i. path_step c now s (item_path i)) is, None)"
proof -
  have "emit_all (step_outcome c) (map Inr js) out = (out @ map (\<lambda>i. path_step c now s (item_path i)) js, None)"
    if "set js \<subseteq> set is" for js
    using that
  proof (induction js arbitrary: out)
    case (Cons j js)
    then show ?case using item_step [OF assms(1,2), of j] assms(3) [of j] by simp
  qed simp
  then show ?thesis by simp
qed

section \<open>Where the searches start\<close>

lemma search_root_stands: "length path < keyLevelNodes c \<Longrightarrow> stands c s (opt_path (path_ref path)) (search_root c s path)"
  by (simp add: search_root_def stands_def)

lemma search_start:
  assumes "length path < keyLevelNodes c"
  shows "getTraversalStepsIterable c getAsync getSync (base_path path) now w
    = getAsync (search_root c (w_store w) path) (path_ref path) now (itemStep c) w"
proof (cases "path = []")
  case True
  then show ?thesis by (simp add: getTraversalStepsIterable_def getTraversalIterable_def search_root_def)
next
  case False
  with assms path_ref_node [OF False] getNodeRef_key [OF False assms disjI2 [OF plain]] show ?thesis
    by (simp add: getTraversalStepsIterable_def getTraversalIterable_def search_root_def createSyncItem_def)
qed

lemma path_ref_wf: "wf_ref (path_ref path)"
  using ref_of_wf [of None 0 path] by (auto simp: wf_ref_def split: option.splits)

section \<open>What a search yields\<close>

lemma searched_steps:
  assumes t: "stands c s (opt_path p) t" "mset (map item_node is) = visited p (storedTree c s now t)"
    and wf: "\<And>i. i \<in> set is \<Longrightarrow> wf_item now i" and sr: "searched (step_outcome c) is [] ok (steps, err)"
  shows "prefix steps (map (\<lambda>i. path_step c now s (item_path i)) is)
    \<and> (err = None \<longrightarrow> steps = map (\<lambda>i. path_step c now s (item_path i)) is) \<and> (ok \<longrightarrow> err = None)"
proof -
  let ?f = "\<lambda>i. path_step c now s (item_path i)"
  have step: "emit_all (step_outcome c) os out = (out @ map ?f (oks os), first_fail os)" if "set (oks os) \<subseteq> set is" for os out
    using that
  proof (induction os arbitrary: out rule: oks.induct)
    case (2 x os)
    then show ?case using item_step [OF t, of x] wf [of x] by simp
  qed simp_all
  obtain os where os: "emit_all (step_outcome c) os [] = (steps, err)" "approx (\<lambda>x. x) os is"
    using sr by (auto simp: searched_def)
  then have pre: "prefix (oks os) is" "first_fail os = None \<longrightarrow> oks os = is" by (auto simp: approx_def)
  then have "steps = map ?f (oks os)" "err = first_fail os"
    using step [of os "[]"] os(1) by (auto simp: prefix_def)
  moreover have "ok \<longrightarrow> err = None"
    using sr step [of "map Inr is" "[]"] by (auto simp: searched_def)
  ultimately show ?thesis using pre by (auto simp: prefix_def)
qed

lemma search_result:
  assumes path: "length path < keyLevelNodes c"
    and run: "\<exists>res w'. getAsync (search_root c (w_store w) path) (path_ref path) now (itemStep c) w = Some (res, w')
      \<and> w_store w' = w_store w
      \<and> searched (step_outcome c) is [] (any_readable c (w_store w) now (search_root c (w_store w) path)) res"
    and ms: "mset (map item_node is) = visited (path_ref path) (storedTree c (w_store w) now (search_root c (w_store w) path))"
    and wf: "\<And>i. i \<in> set is \<Longrightarrow> wf_item now i"
  shows "yields c now w path is (getTraversalStepsIterable c getAsync getSync (base_path path) now w)"
proof -
  from run obtain steps err w'
    where r: "getAsync (search_root c (w_store w) path) (path_ref path) now (itemStep c) w = Some ((steps, err), w')"
      "w_store w' = w_store w"
      and sr: "searched (step_outcome c) is [] (any_readable c (w_store w) now (search_root c (w_store w) path)) (steps, err)"
    by auto
  from searched_steps [OF search_root_stands [OF path] ms wf sr] r show ?thesis
    unfolding search_start [OF path] yields_def by blast
qed

text \<open>The tree below the start of a search.\<close>

abbreviation base_tree :: "int \<Rightarrow> ('s, 'm) world \<Rightarrow> path \<Rightarrow> rvalue tree_value tree" where
  "base_tree now w path \<equiv> storedTree c (w_store w) now (search_root c (w_store w) path)"

lemma search_yields:
  assumes "length path < keyLevelNodes c"
  shows "yields c now w path (fst (treePreOrderBreadthFirstSearch (base_tree now w path) (path_ref path) now))
      (preOrderBreadthFirstSearch c (base_path path) now w)"
    and "yields c now w path (fst (treePreOrderDepthFirstSearch (base_tree now w path) (path_ref path) now))
      (preOrderDepthFirstSearch c (base_path path) now w)"
    and "yields c now w path (treePostOrderTraversal push (base_tree now w path) l (path_ref path) now)
      (postOrderBreadthFirstSearch c (base_path path) now w)"
    and "yields c now w path (treePostOrderTraversal push (base_tree now w path) l (path_ref path) now)
      (postOrderDepthFirstSearch c (base_path path) now w)"
proof -
  note wf = wf_search_items [OF path_ref_wf]
  show "yields c now w path (fst (treePreOrderBreadthFirstSearch (base_tree now w path) (path_ref path) now))
      (preOrderBreadthFirstSearch c (base_path path) now w)"
    unfolding preOrderBreadthFirstSearch_def
    by (rule search_result [OF assms _ bfs_visits]) (rule step_consumer.breadth_first_search [OF refl], rule wf)
  show "yields c now w path (fst (treePreOrderDepthFirstSearch (base_tree now w path) (path_ref path) now))
      (preOrderDepthFirstSearch c (base_path path) now w)"
    unfolding preOrderDepthFirstSearch_def
    by (rule search_result [OF assms _ dfs_visits]) (rule step_consumer.depth_first_search [OF refl], rule wf)
  show "yields c now w path (treePostOrderTraversal push (base_tree now w path) l (path_ref path) now)
      (postOrderBreadthFirstSearch c (base_path path) now w)"
    unfolding postOrderBreadthFirstSearch_def
    by (rule search_result [OF assms _ post_visits])
      (simp only: asyncTreePostOrderBreadthFirstSearch_def option.inject,
        rule step_consumer.post_order_search [OF refl], rule wf)
  show "yields c now w path (treePostOrderTraversal push (base_tree now w path) l (path_ref path) now)
      (postOrderDepthFirstSearch c (base_path path) now w)"
    unfolding postOrderDepthFirstSearch_def
    by (rule search_result [OF assms _ post_visits])
      (simp only: asyncTreePostOrderDepthFirstSearch_def option.inject,
        rule step_consumer.post_order_search [OF refl], rule wf)
qed

section \<open>Which nodes a search reaches\<close>

lemma childOutcomes_iff:
  "first_fail (childOutcomes c s now nodeRef ks) = None \<Longrightarrow>
   ((k, u) \<in> set (oks (childOutcomes c s now nodeRef ks)) \<longleftrightarrow> k \<in> set ks \<and> childOutcome c s now nodeRef k = Inr (Some u))
   \<and> (k \<in> set ks \<longrightarrow> \<not> isl (childOutcome c s now nodeRef k))"
  by (induction ks) (auto split: sum.splits option.splits)

lemma kid_exists:
  assumes st: "stands c s q t" and ok: "any_readable c s now t"
  shows "(\<exists>u. (k, u) \<in> set (any_kids c s now t))
    \<longleftrightarrow> (length q < keyLevelNodes c \<longrightarrow> k \<in> set (children_keys c s q)) \<and> present c s (q @ [k])"
proof (cases t)
  case (SyncRef v)
  with st obtain x b t' where x: "v = PlainTree x" "keyLevelNodes c \<le> length q"
      "st_get (c_storage c) s (join (take (keyLevelNodes c) q)) = Some b" "b \<noteq> []"
      "ts_deserialize (tser c) b = Inr t'" "tree_lookup t' (drop (keyLevelNodes c) q) = Some x"
    by (auto simp: stands_def split: sync_tree.splits)
  have wf: "wf_tree x" using wf_tree_lookup [OF tree_wf [OF x(5)] x(6)] .
  have "(\<exists>u. (k, u) \<in> set (any_kids c s now t)) \<longleftrightarrow> (\<exists>y. (k, y) \<in> set (kids x))"
    by (force simp: SyncRef x(1) any_kids_sync)
  also have "\<dots> \<longleftrightarrow> tree_child x k \<noteq> None" using wf by (simp add: tree_child_Some_iff [symmetric])
  finally show ?thesis using x by (auto simp: present_def tree_lookup_append split: option.splits)
next
  case (AsyncTreeRef nodeRef)
  note a = stands_async [OF st [unfolded AsyncTreeRef]] and read = childOutcome_read [OF st [unfolded AsyncTreeRef]]
  from ok AsyncTreeRef obtain gc where gc: "st_getChildren (c_storage c) = Some gc"
    by (subst (asm) any_readable.simps) (auto split: option.splits)
  then have keys: "any_children c s now t = childOutcomes c s now nodeRef (children_keys c s q)"
    by (simp add: AsyncTreeRef a(4) children_keys_def)
  with ok have nf: "first_fail (childOutcomes c s now nodeRef (children_keys c s q)) = None"
    by (subst (asm) any_readable.simps) simp
  let ?b = "st_get (c_storage c) s (join (q @ [k]))"
  have "(\<exists>u. (k, u) \<in> set (any_kids c s now t))
      \<longleftrightarrow> k \<in> set (children_keys c s q) \<and> (\<exists>u. childOutcome c s now nodeRef k = Inr (Some u))"
    using childOutcomes_iff [OF nf] by (simp add: any_kids_def keys)
  also have "\<dots> \<longleftrightarrow> k \<in> set (children_keys c s q) \<and> present c s (q @ [k])"
  proof (rule conj_cong [OF refl])
    assume "k \<in> set (children_keys c s q)"
    then have no_err: "\<not> isl (childOutcome c s now nodeRef k)" using childOutcomes_iff [OF nf] by simp
    show "(\<exists>u. childOutcome c s now nodeRef k = Inr (Some u)) \<longleftrightarrow> present c s (q @ [k])"
    proof (cases "Suc (length q) < keyLevelNodes c")
      case True
      then show ?thesis by (simp add: read Let_def present_def)
    next
      case False
      then have "keyLevelNodes c = Suc (length q)" using a(1) by simp
      with no_err show ?thesis
        by (cases ?b; cases "ts_deserialize (tser c) (the ?b)") (simp_all add: read Let_def present_def)
    qed
  qed
  finally show ?thesis using a(1) by simp
qed

lemma nodes_extend: "(q, T) \<in> set (nodes pfx t) \<Longrightarrow> \<exists>r. r \<noteq> [] \<and> q = pfx @ r"
proof (induction t arbitrary: pfx rule: tree_kids_induct)
  case (Tree t)
  from Tree.prems obtain k u where u: "(k, u) \<in> set (kids t)"
    "(q, T) = (pfx @ [k], u) \<or> (q, T) \<in> set (nodes (pfx @ [k]) u)"
    by (subst (asm) nodes.simps) auto
  from u(2) show ?case
  proof
    assume "(q, T) \<in> set (nodes (pfx @ [k]) u)"
    from Tree.IH [OF u(1) this] show ?thesis by auto
  qed simp
qed

lemma reachable_paths:
  "stands c s q t \<Longrightarrow> any_readable c s now t \<Longrightarrow>
   q @ r \<in> fst ` set (nodes q (storedTree c s now t)) \<longleftrightarrow> r \<noteq> [] \<and> linked c s q r"
proof (induction r arbitrary: q t)
  case Nil
  then show ?case using nodes_extend by (force simp: image_iff)
next
  case (Cons k r)
  let ?below = "\<lambda>u. r = [] \<or> (q @ [k]) @ r \<in> fst ` set (nodes (q @ [k]) (storedTree c s now u))"
  have same: "k' = k" if "(q @ k # r, T) = (q @ [k'], U) \<or> (q @ k # r, T) \<in> set (nodes (q @ [k']) U')" for k' T U U'
    using that nodes_extend by fastforce
  have "q @ k # r \<in> fst ` set (nodes q (storedTree c s now t)) \<longleftrightarrow> (\<exists>u. (k, u) \<in> set (any_kids c s now t) \<and> ?below u)"
    by (subst nodes_storedTree) (use same in \<open>fastforce simp: image_iff\<close>)
  also have "\<dots> \<longleftrightarrow> (\<exists>u. (k, u) \<in> set (any_kids c s now t)) \<and> linked c s (q @ [k]) r"
  proof -
    have "?below u \<longleftrightarrow> linked c s (q @ [k]) r" if "(k, u) \<in> set (any_kids c s now t)" for u
    proof -
      have "any_readable c s now u" using Cons.prems(2) that by (subst (asm) any_readable.simps) (auto simp: list_all_iff)
      with Cons.IH [OF stands_kid [OF Cons.prems(1) that]] show ?thesis by (cases "r = []") auto
    qed
    then show ?thesis by blast
  qed
  also have "\<dots> \<longleftrightarrow> linked c s q (k # r)" using kid_exists [OF Cons.prems, of k] by auto
  finally show ?case by simp
qed

lemma yields_all:
  assumes y: "yields c now w path is result" and path: "length path < keyLevelNodes c"
    and ok: "any_readable c (w_store w) now (search_root c (w_store w) path)"
    and ms: "mset (map item_node is) = visited (path_ref path) (base_tree now w path)"
  shows "\<exists>steps w'. result = Some ((steps, None), w') \<and> w_store w' = w_store w
    \<and> (\<forall>step \<in> set steps. step = path_step c now (w_store w) (chain_path (step_nodeRef step)))
    \<and> (\<lambda>step. chain_path (step_nodeRef step)) ` set steps = {path @ r | r. path @ r \<noteq> [] \<and> linked c (w_store w) path r}"
proof -
  obtain steps w' where r: "result = Some ((steps, None), w')" "w_store w' = w_store w"
    and steps: "steps = map (\<lambda>i. path_step c now (w_store w) (item_path i)) is"
    using y ok by (auto simp: yields_def)
  have nd: "chain_path (step_nodeRef (path_step c now (w_store w) (item_path i))) = item_path i" for i :: "rvalue tree_value item"
    using chain_path_node_ref [of "item_path i"] unfolding path_step_def mountStep_def step.simps by simp
  have "set (map item_node is) = set_mset (visited (path_ref path) (base_tree now w path))"
    using ms by (metis set_mset_mset)
  then have "fst ` set (map item_node is) = fst ` set_mset (visited (path_ref path) (base_tree now w path))" by (rule arg_cong)
  moreover have "fst ` set (map item_node is) = item_path ` set is" by (force simp: item_node_def)
  moreover have "fst ` set_mset (visited (path_ref path) (base_tree now w path))
      = (if path = [] then {} else {path}) \<union> fst ` set (nodes path (base_tree now w path))"
    by (cases "path_ref path") (auto simp: chain_path_path_ref)
  moreover have "\<dots> = {path @ r | r. path @ r \<noteq> [] \<and> linked c (w_store w) path r}"
  proof -
    have "stands c (w_store w) path (search_root c (w_store w) path)"
      using search_root_stands [OF path] by simp
    note reach = reachable_paths [OF this ok]
    have "fst ` set (nodes path (base_tree now w path)) = {path @ r | r. r \<noteq> [] \<and> linked c (w_store w) path r}"
    proof (rule set_eqI, rule iffI)
      fix x assume x: "x \<in> fst ` set (nodes path (base_tree now w path))"
      then obtain T where "(x, T) \<in> set (nodes path (base_tree now w path))" by auto
      from nodes_extend [OF this] obtain r where r: "x = path @ r" by blast
      then have "r \<noteq> [] \<and> linked c (w_store w) path r" using reach [of r] x by simp
      with r show "x \<in> {path @ r | r. r \<noteq> [] \<and> linked c (w_store w) path r}" by blast
    next
      fix x assume "x \<in> {path @ r | r. r \<noteq> [] \<and> linked c (w_store w) path r}"
      then show "x \<in> fst ` set (nodes path (base_tree now w path))" using reach by blast
    qed
    then show ?thesis by auto
  qed
  ultimately have "item_path ` set is = {path @ r | r. path @ r \<noteq> [] \<and> linked c (w_store w) path r}" by simp
  moreover have "(\<lambda>step. chain_path (step_nodeRef step)) ` set steps = item_path ` set is"
    by (simp add: steps image_image nd)
  ultimately show ?thesis using r by (intro exI [of _ steps] exI [of _ w']) (auto simp: steps nd)
qed

end

section \<open>Every search ends\<close>

lemma getTraversalSteps_ends:
  assumes "\<And>t p w'. \<exists>r. getAsync t p now (itemStep c) w' = Some r"
  shows "\<exists>r. getTraversalStepsIterable c getAsync getSync basePath now w = Some r"
  using assms unfolding getTraversalStepsIterable_def getTraversalIterable_def
  by (auto split: option.splits sum.splits prod.splits)

lemma async_searches_end:
  "\<exists>r. asyncTreePreOrderBreadthFirstSearch c t p now (itemStep c) w = Some r"
  "\<exists>r. asyncTreePreOrderDepthFirstSearch c t p now (itemStep c) w = Some r"
  "\<exists>r. asyncTreePostOrderBreadthFirstSearch c t p now (itemStep c) w = Some r"
  "\<exists>r. asyncTreePostOrderDepthFirstSearch c t p now (itemStep c) w = Some r"
  using step_consumer.breadth_first_search [OF refl, of c t p now w] step_consumer.depth_first_search [OF refl, of c t p now w]
  by (auto simp: asyncTreePostOrderBreadthFirstSearch_def asyncTreePostOrderDepthFirstSearch_def)

section \<open>Searches inside a stored tree\<close>

lemma yieldAll_single:
  "\<exists>w'. yieldAll (itemStep c) (map sync_any_item (map single_item is)) out w
     = ((out @ map (\<lambda>i. mountStep (item_ref i) (Option.bind (it_value i) (decode c))) is, None), w') \<and> w_store w' = w_store w"
proof (induction "is" arbitrary: out w)
  case (Cons i "is")
  obtain w1 where w1: "itemStep c (sync_any_item (single_item i)) w
      = (Inr (mountStep (item_ref i) (Option.bind (it_value i) (decode c))), w1)" "w_store w1 = w_store w"
    using getStep_single [of c "the (it_value i)" "item_ref i" None w]
    by (cases "it_value i") (auto simp: itemStep_def sync_any_item_def single_item_def getStep_def)
  from Cons.IH [where w = w1 and out = "out @ [mountStep (item_ref i) (Option.bind (it_value i) (decode c))]"] w1
  show ?case by simp
qed simp

lemma tree_item_step:
  assumes k: "0 < keyLevelNodes c" "keyLevelNodes c \<le> length path"
    and t: "str_truthy (st_get (c_storage c) s (join (take (keyLevelNodes c) path)))"
      "ts_deserialize (tser c) (the (st_get (c_storage c) s (join (take (keyLevelNodes c) path)))) = Inr t" "wf_tree t"
    and u: "tree_lookup t (drop (keyLevelNodes c) path) = Some u"
    and ms: "mset (map item_node is) = visited (Some (node_ref path)) u"
    and i: "i \<in> set is" "wf_item now i"
  shows "mountStep (item_ref i) (Option.bind (it_value i) (decode c)) = path_step c now s (item_path i)"
proof -
  have "path \<noteq> []" "item_node i \<in> set (map item_node is)" using k i(1) by auto
  with visited_paths(1) [OF wf_tree_lookup [OF t(3) u] ms] obtain q
    where q: "item_path i = path @ q" "tree_lookup u q = Some (it_tree i)"
    by (auto simp: item_node_def)
  then have "raw_at c now s (item_path i) = it_value i"
    using i(2) k t u by (simp add: raw_at_def tree_at_def tree_lookup_append wf_item_def Let_def)
  moreover have "item_ref i = node_ref (item_path i)"
    using i(2) wf_chain_node_ref [of "item_ref i"] unfolding wf_item_def by blast
  ultimately show ?thesis unfolding path_step_def by simp
qed

lemma tree_search:
  assumes c: "plain_cache c" and k: "0 < keyLevelNodes c" "keyLevelNodes c \<le> length path"
    and tr: "str_truthy (store_get c w (join (take (keyLevelNodes c) path)))"
    and t: "ts_deserialize (tser c) (the (store_get c w (join (take (keyLevelNodes c) path)))) = Inr t" "wf_tree t"
    and u: "tree_lookup t (drop (keyLevelNodes c) path) = Some u"
    and sync: "getSync (PlainTree u) (Some (node_ref path)) now = (map single_item is, None)"
    and ms: "mset (map item_node is) = visited (Some (node_ref path)) u"
    and wf: "\<And>i. i \<in> set is \<Longrightarrow> wf_item now i"
  shows "\<exists>w'. getTraversalStepsIterable c getAsync getSync (Some path) now w
    = Some ((map (\<lambda>i. path_step c now (w_store w) (item_path i)) is, None), w') \<and> w_store w' = w_store w"
proof -
  have ne: "path \<noteq> []" using k by auto
  note step = tree_item_step [OF k tr t u ms _ wf]
  from getNodeRef_tree_level [OF c k tr t(1), of now] u obtain w1
    where "getNodeRef c path False now w
      = (Inr (Some (createSyncItem (last path) (length path) (path_ref (butlast path)) (PlainTree u) now)), w1)"
      and w1: "w_store w1 = w_store w" by auto
  then have "getTraversalStepsIterable c getAsync getSync (Some path) now w
      = (case yieldAll (itemStep c) (map sync_any_item (map single_item is)) [] w1 of
           ((out, None), w) \<Rightarrow> Some ((out, None), w) | ((out, Some e), w) \<Rightarrow> Some ((out, Some e), w))"
    using k by (simp add: getTraversalStepsIterable_def getTraversalIterable_def sync)
  moreover from yieldAll_single [of c "is" "[]" w1] obtain w2
    where "yieldAll (itemStep c) (map sync_any_item (map single_item is)) [] w1
      = ((map (\<lambda>i. mountStep (item_ref i) (Option.bind (it_value i) (decode c))) is, None), w2)" "w_store w2 = w_store w1"
    by auto
  ultimately show ?thesis using w1 step by (auto cong: map_cong)
qed

lemma search_in_tree_result:
  assumes "lawful_cache c" "plain_cache c" "0 < keyLevelNodes c" "keyLevelNodes c \<le> length path"
    and "store_get c w (join (take (keyLevelNodes c) path)) = Some r" "r \<noteq> []"
    and "ts_deserialize (tser c) r = Inr t" "tree_lookup t (drop (keyLevelNodes c) path) = Some u"
    and "(search, items) \<in> {(preOrderBreadthFirstSearch c, fst (treePreOrderBreadthFirstSearch u (Some (node_ref path)) now)),
      (preOrderDepthFirstSearch c, fst (treePreOrderDepthFirstSearch u (Some (node_ref path)) now)),
      (postOrderBreadthFirstSearch c, treePostOrderBreadthFirstSearch u (Some (node_ref path)) now),
      (postOrderDepthFirstSearch c, treePostOrderDepthFirstSearch u (Some (node_ref path)) now)}"
  shows "\<exists>w'. search (Some path) now w
    = Some ((map (\<lambda>i. path_step c now (w_store w) (item_path i)) items, None), w') \<and> w_store w' = w_store w"
proof -
  have wf: "wf_tree t" using serializer_laws.tree_wf [of "vser c"] assms(1,7) by (auto simp: lawful_cache_def)
  have tr: "str_truthy (store_get c w (join (take (keyLevelNodes c) path)))"
      "ts_deserialize (tser c) (the (store_get c w (join (take (keyLevelNodes c) path)))) = Inr t"
    using assms(5-7) by simp_all
  have ref: "wf_ref (Some (node_ref path))"
    using path_ref_node [of path] assms(3,4) ref_of_wf [of None 0 path "node_ref path"] by (force simp: wf_ref_def)
  note s = tree_search [OF assms(2-4) tr wf assms(8)] and i = wf_search_items [OF ref]
  have "search (Some path) now w = getTraversalStepsIterable c ga gs (Some path) now w
      \<Longrightarrow> gs (PlainTree u) (Some (node_ref path)) now = (map single_item items, None)
      \<Longrightarrow> mset (map item_node items) = visited (Some (node_ref path)) u \<Longrightarrow> (\<And>i. i \<in> set items \<Longrightarrow> wf_item now i) \<Longrightarrow> ?thesis"
    for ga gs using s [of gs now items ga] by simp
  note r = this
  from assms(9) consider 
     "search = preOrderBreadthFirstSearch c" "items = fst (treePreOrderBreadthFirstSearch u (Some (node_ref path)) now)"
   | "search = preOrderDepthFirstSearch c" "items = fst (treePreOrderDepthFirstSearch u (Some (node_ref path)) now)"
   | "search = postOrderBreadthFirstSearch c" "items = treePostOrderBreadthFirstSearch u (Some (node_ref path)) now"
   | "search = postOrderDepthFirstSearch c" "items = treePostOrderDepthFirstSearch u (Some (node_ref path)) now" by auto
  then show ?thesis
  proof cases
    case 1
    show ?thesis
    proof (rule r [of "asyncTreePreOrderBreadthFirstSearch c" syncBreadthFirst])
      show "syncBreadthFirst (PlainTree u) (Some (node_ref path)) now = (map single_item items, None)"
        by (simp add: 1 syncBreadthFirst_def bfs_order)
    qed (simp_all only: 1 preOrderBreadthFirstSearch_def bfs_visits i(2))
  next
    case 2
    show ?thesis
    proof (rule r [of "asyncTreePreOrderDepthFirstSearch c" syncDepthFirst])
      show "syncDepthFirst (PlainTree u) (Some (node_ref path)) now = (map single_item items, None)"
        by (simp add: 2 syncDepthFirst_def dfs_order)
    qed (simp_all only: 2 preOrderDepthFirstSearch_def dfs_visits i(1))
  next
    case 3
    show ?thesis
      by (rule r [of "asyncTreePostOrderBreadthFirstSearch c" syncPostBreadthFirst])
        (simp_all only: 3 postOrderBreadthFirstSearch_def syncPostBreadthFirst_def sync_tree.case
          treePostOrderBreadthFirstSearch_def post_visits i(3))
  next
    case 4
    show ?thesis
      by (rule r [of "asyncTreePostOrderDepthFirstSearch c" syncPostDepthFirst])
        (simp_all only: 4 postOrderDepthFirstSearch_def syncPostDepthFirst_def sync_tree.case
          treePostOrderDepthFirstSearch_def post_visits i(3))
  qed
qed

section \<open>Random iteration\<close>

text \<open>The items of one enumerated key, and the steps they give.\<close>

definition random_items :: "('v, 's, 'm) cache \<Rightarrow> int \<Rightarrow> 's \<Rightarrow> key \<Rightarrow> rvalue sync_item list" where
  "random_items c now s k =
     (let path = splitKey k in
      if length path < keyLevelNodes c
      then [(createSyncItem (last path) (length path) (path_ref (butlast path)) no_tree now)
              \<lparr>si_value := map_option Single (st_get (c_storage c) s k)\<rparr>]
      else map single_item (fst (treePreOrderBreadthFirstSearch (stored_tree c s path) (Some (node_ref path)) now)))"

definition random_steps :: "('v, 's, 'm) cache \<Rightarrow> int \<Rightarrow> 's \<Rightarrow> key \<Rightarrow> 'v step list" where
  "random_steps c now s k =
     (let path = splitKey k in
      if length path < keyLevelNodes c then [path_step c now s path]
      else map (\<lambda>i. path_step c now s (item_path i))
        (fst (treePreOrderBreadthFirstSearch (stored_tree c s path) (Some (node_ref path)) now)))"

text \<open>The keys the cache writes: values above the trees, and trees that can be deserialized.\<close>

definition iterable :: "('v, 's, 'm) cache \<Rightarrow> 's \<Rightarrow> key \<Rightarrow> bool" where
  "iterable c s k \<longleftrightarrow> length (splitKey k) < keyLevelNodes c
     \<or> length (splitKey k) = keyLevelNodes c \<and> str_truthy (st_get (c_storage c) s k)
       \<and> (\<exists>t. ts_deserialize (tser c) (the (st_get (c_storage c) s k)) = Inr t)"

lemma iterable_tree:
  assumes "iterable c s k" "\<not> length (splitKey k) < keyLevelNodes c"
  obtains "length (splitKey k) = keyLevelNodes c" "str_truthy (st_get (c_storage c) s k)"
    "ts_deserialize (tser c) (the (st_get (c_storage c) s k)) = Inr (stored_tree c s (splitKey k))"
  using assms by (auto simp: iterable_def stored_tree_def join_splitKey)

lemma randomKeys_items:
  assumes c: "plain_cache c"
  shows "\<forall>k \<in> set ks. iterable c (w_store w) k \<Longrightarrow>
    \<exists>w'. randomKeys c True False now ks out w = ((out @ concat (map (random_items c now (w_store w)) ks), None), w')
      \<and> w_store w' = w_store w"
proof (induction ks arbitrary: out w)
  case (Cons k ks)
  let ?path = "splitKey k"
  have "\<exists>w1. randomKeys c True False now (k # ks) out w = randomKeys c True False now ks (out @ random_items c now (w_store w) k) w1
      \<and> w_store w1 = w_store w"
  proof (cases "length ?path < keyLevelNodes c")
    case True
    with getNodeRef_key [OF splitKey_neq_Nil True disjI2 [OF c], where now = now and w = w and lastValue = False]
    show ?thesis by (intro exI [of _ w]) (simp add: random_items_def Let_def join_splitKey)
  next
    case False
    with Cons.prems obtain n: "length ?path = keyLevelNodes c" and t: "str_truthy (store_get c w k)"
      "ts_deserialize (tser c) (the (store_get c w k)) = Inr (stored_tree c (w_store w) ?path)"
      by (auto elim: iterable_tree)
    then have "0 < keyLevelNodes c" using splitKey_neq_Nil [of k] by (cases "keyLevelNodes c") auto
    with getNodeRef_tree_level [of c ?path w "stored_tree c (w_store w) ?path" now] c n t obtain w1
      where w1: "getNodeRef c ?path False now w = (Inr (Some (createSyncItem (last ?path) (length ?path)
          (path_ref (butlast ?path)) (PlainTree (stored_tree c (w_store w) ?path)) now)), w1)" "w_store w1 = w_store w"
      by (auto simp: join_splitKey)
    with n path_ref_node [OF splitKey_neq_Nil, of k] show ?thesis
      by (intro exI [of _ w1]) (simp add: random_items_def syncBreadthFirst_def bfs_order Let_def)
  qed
  then obtain w1 where "randomKeys c True False now (k # ks) out w
      = randomKeys c True False now ks (out @ random_items c now (w_store w) k) w1" "w_store w1 = w_store w" by blast
  with Cons.IH [where w = w1 and out = "out @ random_items c now (w_store w) k"] Cons.prems show ?case by simp
qed simp

lemma getSteps_single:
  "\<forall>i \<in> set is. si_value i \<in> range (map_option Single) \<Longrightarrow>
   \<exists>w'. getSteps c is None out w = ((out @ map (\<lambda>i. mountStep (si_ref i)
       (case si_value i of Some (Single r) \<Rightarrow> decode c r | _ \<Rightarrow> None)) is, None), w') \<and> w_store w' = w_store w"
proof (induction "is" arbitrary: out w)
  case (Cons i "is")
  then obtain v where v: "si_value i = map_option Single v" by auto
  then obtain w1 where "getStep c (map_option TreeValue (si_value i)) (si_ref i) None w
      = (Inr (mountStep (si_ref i) (Option.bind v (decode c))), w1)" "w_store w1 = w_store w"
    using getStep_single [of c "the v" "si_ref i" None w] by (cases v) (auto simp: getStep_def)
  with Cons.IH [where w = w1 and out = "out @ [mountStep (si_ref i) (Option.bind v (decode c))]"] Cons.prems v
  show ?case by (cases v) simp_all
qed simp

context lawful_cache
begin

lemma random_items_steps:
  assumes "iterable c s k"
  shows "map (\<lambda>i. mountStep (si_ref i) (case si_value i of Some (Single r) \<Rightarrow> decode c r | _ \<Rightarrow> None))
      (random_items c now s k) = random_steps c now s k"
    and "\<forall>i \<in> set (random_items c now s k). si_value i \<in> range (map_option Single)"
proof -
  let ?path = "splitKey k"
  show "\<forall>i \<in> set (random_items c now s k). si_value i \<in> range (map_option Single)"
    by (auto simp: random_items_def single_item_def Let_def)
  show "map (\<lambda>i. mountStep (si_ref i) (case si_value i of Some (Single r) \<Rightarrow> decode c r | _ \<Rightarrow> None))
      (random_items c now s k) = random_steps c now s k"
  proof (cases "length ?path < keyLevelNodes c")
    case True
    then show ?thesis
      by (cases "st_get (c_storage c) s k")
        (simp_all add: random_items_def random_steps_def path_step_def raw_at_def join_splitKey Let_def)
  next
    case False
    let ?t = "stored_tree c s ?path" and ?is = "fst (treePreOrderBreadthFirstSearch (stored_tree c s ?path) (Some (node_ref ?path)) now)"
    from assms False obtain n: "length ?path = keyLevelNodes c" and t: "str_truthy (st_get (c_storage c) s k)"
      "ts_deserialize (tser c) (the (st_get (c_storage c) s k)) = Inr ?t" by (rule iterable_tree)
    have k: "0 < keyLevelNodes c" using n splitKey_neq_Nil [of k] by (cases "keyLevelNodes c") auto
    have ref: "wf_ref (Some (node_ref ?path))"
      using path_ref_node [of ?path] ref_of_wf [of None 0 ?path "node_ref ?path"] by (simp add: wf_ref_def)
    have "mountStep (item_ref i) (Option.bind (it_value i) (decode c)) = path_step c now s (item_path i)" if "i \<in> set ?is" for i
      by (rule tree_item_step [OF k _ _ _ tree_wf [OF t(2)] _ bfs_visits that wf_search_items(2) [OF ref that]])
        (use n t in \<open>simp_all add: join_splitKey\<close>)
    moreover have "(case map_option Single v of Some (Single r) \<Rightarrow> decode c r | _ \<Rightarrow> None) = Option.bind v (decode c)" for v
      by (cases v) simp_all
    ultimately show ?thesis
      using False by (simp add: random_items_def random_steps_def single_item_def Let_def)
  qed
qed

lemma randomIterate_result:
  assumes c: "plain_cache c" and iter: "st_randomIterate (c_storage c) = Some iter"
    and ks: "\<And>k. k \<in> set (iter (w_store w) pattern) \<Longrightarrow> iterable c (w_store w) k"
  shows "\<exists>w'. randomIterate c pattern now w
      = ((concat (map (random_steps c now (w_store w)) (iter (w_store w) pattern)), None), w')
    \<and> w_store w' = w_store w"
proof -
  let ?ks = "iter (w_store w) pattern" and ?items = "random_items c now (w_store w)"
  from randomKeys_items [OF c, of ?ks w now "[]"] ks obtain w1
    where w1: "randomKeys c True False now ?ks [] w = ((concat (map ?items ?ks), None), w1)" "w_store w1 = w_store w" by auto
  have "map (\<lambda>i. mountStep (si_ref i) (case si_value i of Some (Single r) \<Rightarrow> decode c r | _ \<Rightarrow> None)) (concat (map ?items ?ks))
      = concat (map (random_steps c now (w_store w)) ?ks)"
    unfolding map_concat map_map comp_def using random_items_steps(1) [OF ks] by (simp cong: map_cong)
  moreover have "\<forall>i \<in> set (concat (map ?items ?ks)). si_value i \<in> range (map_option Single)"
    using random_items_steps(2) [OF ks] by auto
  ultimately show ?thesis
    using getSteps_single [of "concat (map ?items ?ks)" c "[]" w1] w1
    by (simp add: randomIterate_def internalRandomIterate_def iter)
qed

end

section \<open>Searches of a storage without \<open>getChildren\<close>\<close>

lemma storedTree_leaf:
  "st_getChildren (c_storage c) = None \<Longrightarrow> node_count (storedTree c s now (AsyncTreeRef nodeRef)) = 1"
  by (subst storedTree.simps) (simp add: any_kids_def node_count.simps kids_def kids_of_def)

lemma no_children_breadth:
  assumes "st_getChildren (c_storage c) = None"
  shows "asyncTreePreOrderBreadthFirstSearch c (AsyncTreeRef nodeRef) p now f w =
    (case yieldAll f (any_start_items p (AsyncTreeRef nodeRef) now) [] w of
       ((out, err), w1) \<Rightarrow> Some ((out, if err = None then Some NoGetChildren else err), w1))"
  unfolding asyncTreePreOrderBreadthFirstSearch_def asyncTreePreOrderTraversal_def Let_def storedTree_leaf [OF assms]
  by (auto simp: asyncQueue_ops_def asyncQueue_push_def link_node_def queue_new_def asyncQueue_pop_def removeNode_def
      any_visit_def pushChildren_def set_next_def childIterator_def pushIterable_next_def pushIterable_def asyncKeys_def assms
      split: prod.splits option.splits)

lemma no_children_depth:
  assumes "st_getChildren (c_storage c) = None"
  shows "asyncTreePreOrderDepthFirstSearch c (AsyncTreeRef nodeRef) p now f w =
    (case yieldAll f (any_start_items p (AsyncTreeRef nodeRef) now) [] w of
       ((out, err), w1) \<Rightarrow> Some ((out, if err = None then Some NoGetChildren else err), w1))"
  unfolding asyncTreePreOrderDepthFirstSearch_def asyncTreePreOrderTraversal_def Let_def storedTree_leaf [OF assms]
  by (auto simp: asyncStack_ops_def asyncStack_push_def asyncStack_pop_def array_push_def array_pop_def
      any_visit_def pushChildren_def childIterator_def pushIterable_next_def pushIterable_def asyncKeys_def assms
      split: prod.splits option.splits)

lemma no_children_post:
  assumes "st_getChildren (c_storage c) = None"
  shows "asyncTreePostOrderTraversal c push (AsyncTreeRef nodeRef) l p now f w = (([], Some NoGetChildren), w)"
  by (simp add: asyncTreePostOrderTraversal_def asyncTreePostOrderTraversalRecursive.simps [of c push now f "AsyncTreeRef nodeRef"]
      asyncKeys_def assms Let_def)

context searchable_cache
begin

lemma start_step:
  assumes "length path < keyLevelNodes c"
  shows "\<exists>w'. yieldAll (itemStep c) (any_start_items (path_ref path) (search_root c (w_store w) path) now) [] w
     = ((if path = [] then [] else [path_step c now (w_store w) path], None), w') \<and> w_store w' = w_store w"
proof (cases "path = []")
  case False
  from path_ref_node [OF this] have p: "path_ref path = Some (node_ref path)" .
  let ?i = "createTraversalItem (last path) (length path) (path_ref (butlast path)) (base_tree now w path) now"
  have "step_outcome c ?i = Inr (path_step c now (w_store w) path)"
    using False assms by (cases "store_get c w (join path)")
      (simp_all add: step_outcome_def path_step_def raw_at_def search_root_def)
  moreover from step_consumer.yield_start [OF refl, where c = c and w = w and p = "path_ref path" and t = "search_root c (w_store w) path"
      and now = now and out = "[]"] obtain w'
    where "yieldAll (itemStep c) (any_start_items (path_ref path) (search_root c (w_store w) path) now) [] w
      = (emit_all (step_outcome c) [Inr ?i] [], w')" "w_store w' = w_store w"
    unfolding p by auto
  ultimately show ?thesis using False by simp
qed simp

lemma search_no_children:
  assumes "st_getChildren (c_storage c) = None" "length path < keyLevelNodes c"
  shows "\<exists>w'. preOrderBreadthFirstSearch c (base_path path) now w
      = Some ((if path = [] then [] else [path_step c now (w_store w) path], Some NoGetChildren), w')"
    and "\<exists>w'. preOrderDepthFirstSearch c (base_path path) now w
      = Some ((if path = [] then [] else [path_step c now (w_store w) path], Some NoGetChildren), w')"
    and "postOrderBreadthFirstSearch c (base_path path) now w = Some (([], Some NoGetChildren), w)"
    and "postOrderDepthFirstSearch c (base_path path) now w = Some (([], Some NoGetChildren), w)"
proof -
  obtain nodeRef where root: "search_root c (w_store w) path = AsyncTreeRef nodeRef" by (simp add: search_root_def)
  note start = search_start [OF assms(2), where w = w, unfolded root] and step = start_step [OF assms(2), of w now, unfolded root]
  show "\<exists>w'. preOrderBreadthFirstSearch c (base_path path) now w
      = Some ((if path = [] then [] else [path_step c now (w_store w) path], Some NoGetChildren), w')"
    unfolding preOrderBreadthFirstSearch_def start no_children_breadth [OF assms(1)] using step by auto
  show "\<exists>w'. preOrderDepthFirstSearch c (base_path path) now w
      = Some ((if path = [] then [] else [path_step c now (w_store w) path], Some NoGetChildren), w')"
    unfolding preOrderDepthFirstSearch_def start no_children_depth [OF assms(1)] using step by auto
  show "postOrderBreadthFirstSearch c (base_path path) now w = Some (([], Some NoGetChildren), w)"
    "postOrderDepthFirstSearch c (base_path path) now w = Some (([], Some NoGetChildren), w)"
    unfolding postOrderBreadthFirstSearch_def postOrderDepthFirstSearch_def start
      asyncTreePostOrderBreadthFirstSearch_def asyncTreePostOrderDepthFirstSearch_def no_children_post [OF assms(1)]
    by simp_all
qed

end

end
