(* ===== verification/Cache_Utils.thy ===== *)
theory Cache_Utils
  imports Cache_Writes Cache_Traversals
begin

text \<open>
  The exported helpers on trees in memory: \<open>deepTreeSet\<close> of \<open>src/utils/deep-tree-set.ts\<close>, which
  creates the nodes of a path and lets its caller edit them, and \<open>deserializeWholeTree\<close> of
  \<open>src/utils/deserialize-whole-tree.ts\<close>.

  Both change a tree in place. Nodes are never removed and a node is reached by one path only, so a
  reference to a node is represented by its path from the root.
\<close>

section \<open>deepTreeSet\<close>

text \<open>
  \<open>StepRef\<close> reads and writes the value of its node. What the body of the caller's loop does with a
  step is the value it leaves there, and whether it leaves the loop.
\<close>

type_synonym 'v editor = "'v step list \<Rightarrow> 'v step \<Rightarrow> 'v option \<times> halt option"

definition next_node :: "(nat \<Rightarrow> 'v option) option \<Rightarrow> nat \<Rightarrow> key \<Rightarrow> 'v tree \<Rightarrow> 'v tree" where
  "next_node createValue level key tree = (case tree_child tree key of
     Some t \<Rightarrow> t | None \<Rightarrow> Tree (Option.bind createValue (\<lambda>f. f level)) None None)"

fun utils_deepTreeSet ::
  "(nat \<Rightarrow> 'v option) option \<Rightarrow> 'v editor \<Rightarrow> path \<Rightarrow> nat \<Rightarrow> chained option \<Rightarrow> 'v tree \<Rightarrow> 'v step list
   \<Rightarrow> halt option \<times> 'v tree \<times> 'v step list" where
  "utils_deepTreeSet createValue body [] level nodeRef tree out = (None, tree, out)"
| "utils_deepTreeSet createValue body (key # path) level nodeRef tree out =
     (let level = level + 1;
          newTree = next_node createValue level key tree;
          nodeRef = ChainedObject key level nodeRef;
          step = mountStep nodeRef (tvalue newTree);
          (v, halt) = body out step;
          newTree = set_value v newTree;
          out = out @ [step\<lparr>step_value := v\<rparr>]
      in
      case halt of
        Some h \<Rightarrow> (Some h, put_child key newTree tree, out)
      | None \<Rightarrow>
          (case utils_deepTreeSet createValue body path level (Some nodeRef) newTree out of
             (h, t, out) \<Rightarrow> (h, put_child key t tree, out)))"

section \<open>deserializeWholeTree\<close>

text \<open>Changing the node at a path.\<close>

fun tree_modify :: "path \<Rightarrow> ('a tree \<Rightarrow> 'a tree) \<Rightarrow> 'a tree \<Rightarrow> 'a tree" where
  "tree_modify [] f t = f t"
| "tree_modify (k # ks) f t = (case tree_child t k of None \<Rightarrow> t | Some u \<Rightarrow> put_child k (tree_modify ks f u) t)"

text \<open>\<open>while (currentLevel > node.level)\<close>.\<close>

fun unwind :: "nat \<Rightarrow> nat \<Rightarrow> path list \<Rightarrow> error + path list" where
  "unwind level currentLevel stack =
     (if currentLevel > level then
        (if stack = [] then Inl StackLost else unwind level (currentLevel - 1) (butlast stack))
      else Inr stack)"

declare unwind.simps [simp del]

text \<open>\<open>currentNode[TreeKeys.children] ??= {}\<close> and \<open>map[node.key] ??= {}\<close>.\<close>

definition ensure_child :: "key \<Rightarrow> 'a tree \<Rightarrow> 'a tree" where
  "ensure_child key t = (case tree_child t key of
     Some _ \<Rightarrow> t | None \<Rightarrow> put_child key empty_tree t)"

definition wholeItem ::
  "'v valueSerializer \<Rightarrow> rvalue item \<Rightarrow> 'v tree \<times> path list \<times> nat \<Rightarrow> error + 'v tree \<times> path list \<times> nat" where
  "wholeItem V node = (\<lambda>(newTree, stack, currentLevel).
     let currentLevel = currentLevel + 1 in
     if currentLevel < it_level node then Inl PathLost
     else
       (case unwind (it_level node) currentLevel stack of
          Inl e \<Rightarrow> Inl e
        | Inr stack \<Rightarrow>
            if stack = [] then Inl TypeError
            else
              (let currentNode = last stack;
                   newTree = tree_modify currentNode (ensure_child (it_key node)) newTree;
                   current = currentNode @ [it_key node]
               in
               case it_value node of
                 None \<Rightarrow> Inr (newTree, stack @ [current], it_level node)
               | Some value \<Rightarrow>
                   (case vs_deserialize V value of
                      Inl e \<Rightarrow> Inl e
                    | Inr v \<Rightarrow> Inr (tree_modify current (set_value v) newTree, stack @ [current], it_level node)))))"

fun wholeLoop ::
  "'v valueSerializer \<Rightarrow> rvalue item list \<Rightarrow> 'v tree \<times> path list \<times> nat \<Rightarrow> error + 'v tree" where
  "wholeLoop V [] st = Inr (fst st)"
| "wholeLoop V (i # is) st = (case wholeItem V i st of Inl e \<Rightarrow> Inl e | Inr st' \<Rightarrow> wholeLoop V is st')"

text \<open>The traversal reads the clock again, so it may see a later time than the root did.\<close>

definition deserializeWholeTree ::
  "rvalue \<Rightarrow> treeSerializer \<Rightarrow> 'v valueSerializer \<Rightarrow> int \<Rightarrow> int \<Rightarrow> error + 'v tree" where
  "deserializeWholeTree data T V now later =
     (case ts_deserialize T data of
        Inl e \<Rightarrow> Inl e
      | Inr tree \<Rightarrow>
          (let rootValue = getTreeCurrentSerializedValue tree now in
           if isUndefinedOrNull (tchildren tree) \<and> isUndefinedOrNull rootValue then Inl EmptyTree
           else
             (case (if str_truthy rootValue then vs_deserialize V (the rootValue) else Inr None) of
                Inl e \<Rightarrow> Inl e
              | Inr v \<Rightarrow>
                  (case treePreOrderDepthFirstSearch tree None later of
                     (items, err) \<Rightarrow>
                       (case wholeLoop V items (Tree v None None, [[]], 0) of
                          Inl e \<Rightarrow> Inl e
                        | Inr newTree \<Rightarrow> (case err of None \<Rightarrow> Inr newTree | Some e \<Rightarrow> Inl e))))))"

section \<open>Editing the nodes of a path\<close>

text \<open>The value stored at a node, whatever its deadline.\<close>

definition node_val :: "'a tree \<Rightarrow> path \<Rightarrow> 'a option" where
  "node_val t q = Option.bind (tree_lookup t q) tvalue"

lemma node_val_simps [simp]:
  "node_val t [] = tvalue t"
  "node_val t (k # q) = (case tree_child t k of None \<Rightarrow> None | Some u \<Rightarrow> node_val u q)"
  by (simp_all add: node_val_def split: option.splits)

text \<open>The value the step of a node is created with.\<close>

definition offered :: "(nat \<Rightarrow> 'v option) option \<Rightarrow> nat \<Rightarrow> 'v tree \<Rightarrow> path \<Rightarrow> 'v option" where
  "offered createValue level t q =
     (case tree_lookup t q of Some u \<Rightarrow> tvalue u | None \<Rightarrow> Option.bind createValue (\<lambda>f. f level))"

lemma offered_Cons:
  "offered c l t (k # q) =
     (case tree_child t k of None \<Rightarrow> Option.bind c (\<lambda>f. f l) | Some u \<Rightarrow> offered c l u q)"
  by (simp add: offered_def split: option.splits)

text \<open>The node the loop goes on with, seen from the tree it started with.\<close>

lemma next_node_below:
  "q \<noteq> [] \<Longrightarrow> node_val (set_value v (next_node c l key t)) q = node_val t (key # q)"
  "q \<noteq> [] \<Longrightarrow> tree_lookup (set_value v (next_node c l key t)) q = None \<longleftrightarrow> tree_lookup t (key # q) = None"
  "q \<noteq> [] \<Longrightarrow> offered c n (set_value v (next_node c l key t)) q = offered c n t (key # q)"
  by (cases q; simp add: next_node_def offered_def tree_child_def [of "Tree _ _ _"] split: option.split)+

lemma offered_next_node: "offered c l t [key] = tvalue (next_node c l key t)"
  by (simp add: next_node_def offered_def split: option.splits)

abbreviation same_at :: "'a tree \<Rightarrow> 'a tree \<Rightarrow> path \<Rightarrow> bool" where
  "same_at t u q \<equiv> node_val t q = node_val u q \<and> (tree_lookup t q = None \<longleftrightarrow> tree_lookup u q = None)"

lemma put_next_node_frame:
  assumes "q \<noteq> [key]" "\<And>r. r \<noteq> [] \<Longrightarrow> q = key # r \<Longrightarrow> same_at t1 (set_value v (next_node c l key t)) r"
  shows "same_at (put_child key t1 t) t q"
proof (cases q)
  case (Cons k r)
  show ?thesis
  proof (cases "k = key")
    case True
    with assms Cons next_node_below(1,2) [of r _ c l key t] show ?thesis by simp
  qed (simp add: Cons)
qed simp

text \<open>
  The steps of a run: step \<open>i\<close> stands for the prefix of \<open>i + 1\<close> keys, the body has seen the steps
  before it, and only the last one left the loop, if any did.
\<close>

definition edited ::
  "(nat \<Rightarrow> 'v option) option \<Rightarrow> 'v editor \<Rightarrow> path \<Rightarrow> nat \<Rightarrow> chained option \<Rightarrow> 'v tree \<Rightarrow> 'v step list
   \<Rightarrow> halt option \<Rightarrow> 'v tree \<Rightarrow> 'v step list \<Rightarrow> nat \<Rightarrow> bool" where
  "edited c body path l p t out h t' steps i \<longleftrightarrow>
     (let q = take (Suc i) path; ref = the (ref_of p l q);
          (v, hi) = body (out @ take i steps) (mountStep ref (offered c (l + Suc i) t q))
      in steps ! i = mountStep ref v \<and> hi = (if Suc i = length steps then h else None)
         \<and> node_val t' q = v)"

lemma utils_deepTreeSet_run:
  assumes "utils_deepTreeSet c body path l p t out = (h, t', out')"
  obtains steps where "out' = out @ steps" "length steps \<le> length path"
    "if h = None then length steps = length path else steps \<noteq> []"
    "\<And>i. i < length steps \<Longrightarrow> edited c body path l p t out h t' steps i"
    "\<And>q. (\<And>i. i < length steps \<Longrightarrow> q \<noteq> take (Suc i) path) \<Longrightarrow>
       same_at t' t q"
  using assms
proof (induction path arbitrary: l p t out h t' out' thesis)
  case Nil
  then show ?case by simp
next
  case (Cons key path)
  define ref where "ref = ChainedObject key (Suc l) p"
  let ?n = "next_node c (Suc l) key t"
  obtain v halt where body: "body out (mountStep ref (tvalue ?n)) = (v, halt)" by fastforce
  let ?u = "set_value v ?n" and ?s = "mountStep ref v"
  have s: "(mountStep ref (tvalue ?n))\<lparr>step_value := v\<rparr> = ?s" by (simp add: mountStep_def)
  note [simp] = next_node_below offered_next_node
  show ?case
  proof (cases halt)
    case (Some hh)
    with Cons.prems(2) body s have run: "h = Some hh" "t' = put_child key ?u t" "out' = out @ [?s]"
      by (simp_all add: Let_def ref_def)
    show ?thesis
    proof (rule Cons.prems(1) [of "[?s]"])
      show "edited c body (key # path) l p t out h t' [?s] i" if "i < length [?s]" for i
        using that body Some run by (simp add: edited_def ref_def)
      show "same_at t' t q" if "\<And>i. i < length [?s] \<Longrightarrow> q \<noteq> take (Suc i) (key # path)" for q
        unfolding run by (rule put_next_node_frame [where v = v]) (use that [of 0] in auto)
    qed (use run in auto)
  next
    case None
    obtain h1 t1 out1 where rec: "utils_deepTreeSet c body path (Suc l) (Some ref) ?u (out @ [?s]) = (h1, t1, out1)"
      by (metis prod_cases3)
    with Cons.prems(2) body s None have run: "h = h1" "t' = put_child key t1 t" "out' = out1"
      by (simp_all add: Let_def ref_def)
    obtain steps where st: "out1 = (out @ [?s]) @ steps" "length steps \<le> length path"
        "if h1 = None then length steps = length path else steps \<noteq> []"
        "\<And>i. i < length steps \<Longrightarrow> edited c body path (Suc l) (Some ref) ?u (out @ [?s]) h1 t1 steps i"
        "\<And>q. (\<And>i. i < length steps \<Longrightarrow> q \<noteq> take (Suc i) path) \<Longrightarrow>
           same_at t1 ?u q"
      by (rule Cons.IH [OF _ rec]) blast
    have top: "node_val t1 [] = v" using st(2) by (subst st(5) [THEN conjunct1]) auto
    show ?thesis
    proof (rule Cons.prems(1) [of "?s # steps"])
      show "edited c body (key # path) l p t out h t' (?s # steps) i" if "i < length (?s # steps)" for i
      proof (cases i)
        case 0
        with body None run top st(3) show ?thesis by (auto simp: edited_def ref_def split: if_splits)
      next
        case (Suc j)
        with that st(2) have "take (Suc j) path \<noteq> []" by auto
        with Suc that st(4) [of j] show ?thesis
          by (auto simp: edited_def ref_def run Let_def split: prod.splits)
      qed
      show "same_at t' t q"
        if other: "\<And>i. i < length (?s # steps) \<Longrightarrow> q \<noteq> take (Suc i) (key # path)" for q
        unfolding run
      proof (rule put_next_node_frame [where v = v])
        show "q \<noteq> [key]" using other [of 0] by simp
        show "same_at t1 ?u r" if "r \<noteq> []" "q = key # r" for r
          using other [of "Suc _"] that by (intro st(5)) auto
      qed
    qed (use run st in auto)
  qed
qed

section \<open>Nodes changed in place\<close>

lemma lookup_ensure_child [simp]:
  "tree_lookup t p \<noteq> None \<Longrightarrow>
   tree_lookup (tree_modify p (ensure_child k) t) q = None \<longleftrightarrow> tree_lookup t q = None \<and> q \<noteq> p @ [k]"
proof (induction p arbitrary: t q)
  case Nil
  show ?case by (cases q; cases "tl q") (auto simp: ensure_child_def split: option.splits)
next
  case (Cons j p)
  then show ?case by (cases q) (auto split: option.splits)
qed

lemma node_val_ensure_child [simp]:
  "node_val (tree_modify p (ensure_child k) t) q = node_val t q"
proof (induction p arbitrary: t q)
  case Nil
  have "node_val empty_tree r = None" for r :: path by (cases r) simp_all
  then show ?case by (cases q) (auto simp: ensure_child_def split: option.splits)
next
  case (Cons j p)
  then show ?case by (cases q) (auto split: option.splits)
qed

lemma lookup_modify_value [simp]:
  "tree_lookup (tree_modify p (set_value v) t) q = None \<longleftrightarrow> tree_lookup t q = None"
proof (induction p arbitrary: t q)
  case Nil
  show ?case by (cases q) (auto split: option.splits)
next
  case (Cons j p)
  then show ?case by (cases q) (auto split: option.splits)
qed

lemma node_val_modify_value [simp]:
  "tree_lookup t p \<noteq> None \<Longrightarrow> node_val (tree_modify p (set_value v) t) q = (if q = p then v else node_val t q)"
proof (induction p arbitrary: t q)
  case Nil
  show ?case by (cases q) (auto split: option.splits)
next
  case (Cons j p)
  then show ?case by (cases q) (auto split: option.splits)
qed

section \<open>The loop of deserializeWholeTree\<close>

text \<open>The stack that belongs to a path: one entry per prefix.\<close>

definition path_stack :: "path \<Rightarrow> path list" where
  "path_stack P = map (\<lambda>n. take n P) [0..<Suc (length P)]"

lemma path_stack_snoc: "path_stack (P @ [k]) = path_stack P @ [P @ [k]]"
  by (simp add: path_stack_def)

lemma path_stack_simps [simp]: "path_stack P \<noteq> []" "last (path_stack P) = P" "path_stack [] = [[]]"
  by (simp_all add: path_stack_def)

lemma unwind_path_stack:
  "unwind (Suc (length P)) (Suc (length (P @ R))) (path_stack (P @ R)) = Inr (path_stack P)"
proof (induction R rule: rev_induct)
  case (snoc r R)
  have "path_stack (P @ R @ [r]) = path_stack (P @ R) @ [P @ R @ [r]]"
    using path_stack_snoc [of "P @ R" r] by simp
  with snoc show ?case
    by (simp add: unwind.simps [of _ "Suc (Suc _)"])
qed (simp add: unwind.simps)

text \<open>
  Items in an order the loop can follow: the parent of each one is the previous item or one of its
  ancestors.
\<close>

fun follows :: "path \<Rightarrow> 'a item list \<Rightarrow> bool" where
  "follows P [] \<longleftrightarrow> True"
| "follows P (i # is) \<longleftrightarrow> it_level i = length (item_path i) \<and> (\<exists>R. P = opt_path (it_parentRef i) @ R)
     \<and> follows (item_path i) is"

lemma follows_append:
  "follows P (is @ js) \<longleftrightarrow> follows P is \<and> follows (if is = [] then P else item_path (last is)) js"
  by (induction "is" arbitrary: P) auto

lemma follows_concat:
  assumes "\<And>js P R. js \<in> set jss \<Longrightarrow> P = B @ R \<Longrightarrow> follows P js"
    and "\<And>js i. js \<in> set jss \<Longrightarrow> i \<in> set js \<Longrightarrow> \<exists>R. item_path i = B @ R"
  shows "follows (B @ R) (concat jss)"
  using assms
proof (induction jss arbitrary: R)
  case (Cons js jss)
  have "\<exists>R'. (if js = [] then B @ R else item_path (last js)) = B @ R'"
    using Cons.prems(2) [of js "last js"] by auto
  moreover have "follows (B @ R') (concat jss)" for R'
    by (rule Cons.IH) (simp_all add: Cons.prems(1) Cons.prems(2) [OF list.set_intros(2)])
  ultimately show ?case
    using Cons.prems(1) [of js "B @ R" R] by (auto simp: follows_append)
qed simp

lemma dfs_items_follow:
  "l = length (opt_path p) + (if key = None then 0 else 1) \<Longrightarrow>
   follows (opt_path p @ R) (dfs_items now (t, l, key, p))"
proof (induction t arbitrary: l key p R rule: tree_kids_induct)
  case (Tree t)
  let ?e = "(t, l, key, p)"
  let ?B = "opt_path (snd (pre_visit now ?e))"
  have B: "length ?B = l" "?B = opt_path p @ (case key of None \<Rightarrow> [] | Some k \<Rightarrow> [k])"
    using Tree.prems by (auto simp: pre_visit_def Let_def split: option.splits if_splits)
  have kids: "follows (?B @ R') (concat (map (dfs_items now) (rev (next_entries now ?e))))" for R'
  proof (rule follows_concat)
    fix js P R assume "js \<in> set (map (dfs_items now) (rev (next_entries now ?e)))" "P = ?B @ R"
    with B(1) show "follows P js"
      by (auto simp: next_entries_def simp del: opt_path_ref_of intro!: Tree.IH)
  next
    fix js i assume "js \<in> set (map (dfs_items now) (rev (next_entries now ?e)))" "i \<in> set js"
    then obtain k u where "i \<in> set (dfs_items now (u, Suc l, Some k, snd (pre_visit now ?e)))"
      by (auto simp: next_entries_def)
    from dfs_items_path [OF this] show "\<exists>R. item_path i = ?B @ R" by auto
  qed
  show ?case
  proof (cases key)
    case None
    with kids [of R] B show ?thesis
      by (simp add: dfs_items.simps [of now "(t, l, None, p)"] pre_visit_def)
  next
    case (Some k)
    with kids [of "[]"] B Tree.prems show ?thesis
      by (subst dfs_items.simps) (simp add: pre_visit_def Let_def)
  qed
qed

text \<open>One item: its node is created below its parent and gets the decoded value.\<close>

definition item_decoded :: "'v valueSerializer \<Rightarrow> rvalue item \<Rightarrow> error + 'v option" where
  "item_decoded V i = (case it_value i of None \<Rightarrow> Inr None | Some s \<Rightarrow> vs_deserialize V s)"

definition add_node :: "path \<Rightarrow> key \<Rightarrow> 'a option option \<Rightarrow> 'a tree \<Rightarrow> 'a tree" where
  "add_node p k v t =
     (case v of None \<Rightarrow> id | Some v \<Rightarrow> tree_modify (p @ [k]) (set_value v)) (tree_modify p (ensure_child k) t)"

lemma lookup_add_node:
  "tree_lookup t p \<noteq> None \<Longrightarrow> tree_lookup (add_node p k v t) q = None \<longleftrightarrow> tree_lookup t q = None \<and> q \<noteq> p @ [k]"
  by (simp add: add_node_def split: option.splits)

lemma node_val_add_node:
  "tree_lookup t p \<noteq> None \<Longrightarrow> node_val (add_node p k v t) q
   = (case v of Some v' \<Rightarrow> if q = p @ [k] then v' else node_val t q | None \<Rightarrow> node_val t q)"
  by (simp add: add_node_def split: option.splits)

lemma wholeItem_follow:
  assumes "it_level i = length (item_path i)" "P = opt_path (it_parentRef i) @ R"
  shows "wholeItem V i (t, path_stack P, length P) =
     (case item_decoded V i of
        Inl e \<Rightarrow> Inl e
      | Inr v \<Rightarrow> Inr (add_node (opt_path (it_parentRef i)) (it_key i) (map_option (\<lambda>_. v) (it_value i)) t,
                       path_stack (item_path i), length (item_path i)))"
proof -
  define p where "p = opt_path (it_parentRef i)"
  have path: "item_path i = p @ [it_key i]" by (simp add: item_ref_def p_def)
  have level: "it_level i = Suc (length p)" "length p \<le> length P" and P: "P = p @ R"
    using assms by (simp_all add: path p_def)
  have "unwind (it_level i) (Suc (length P)) (path_stack P) = Inr (path_stack p)"
    unfolding level(1) P by (rule unwind_path_stack)
  with level show ?thesis
    unfolding p_def [symmetric] path
    by (cases "it_value i") (auto simp: wholeItem_def Let_def path_stack_snoc item_decoded_def add_node_def
        split: sum.splits)
qed

lemma wholeLoop_follows:
  assumes "follows P is" "distinct (map item_path is)"
    and "\<And>q R. P = q @ R \<Longrightarrow> tree_lookup t q \<noteq> None"
    and "\<And>i. i \<in> set is \<Longrightarrow> tree_lookup t (item_path i) = None"
  shows "case wholeLoop V is (t, path_stack P, length P) of
      Inl e \<Rightarrow> \<exists>i \<in> set is. item_decoded V i = Inl e
    | Inr u \<Rightarrow> (\<forall>q. tree_lookup u q = None \<longleftrightarrow> tree_lookup t q = None \<and> q \<notin> item_path ` set is)
        \<and> (\<forall>i \<in> set is. Inr (node_val u (item_path i)) = item_decoded V i)
        \<and> (\<forall>q. q \<notin> item_path ` set is \<longrightarrow> node_val u q = node_val t q)"
  using assms
proof (induction "is" arbitrary: P t)
  case (Cons i "is")
  let ?p = "opt_path (it_parentRef i)" and ?Q = "item_path i"
  have Q: "?Q = ?p @ [it_key i]" by (simp add: item_ref_def)
  from Cons.prems(1) obtain R where R: "P = ?p @ R" and lev: "it_level i = length ?Q" by auto
  show ?case
  proof (cases "item_decoded V i")
    case (Inl e)
    then show ?thesis by (simp add: wholeItem_follow [OF lev R])
  next
    case (Inr v)
    let ?t = "add_node ?p (it_key i) (map_option (\<lambda>_. v) (it_value i)) t"
    have parent: "tree_lookup t ?p \<noteq> None" using Cons.prems(3) [OF R] .
    note look = lookup_add_node [OF parent, of "it_key i" "map_option (\<lambda>_. v) (it_value i)", folded Q]
    have fresh: "node_val t ?Q = None" using Cons.prems(4) [of i] by (simp add: node_val_def)
    have val: "node_val ?t q = (if q = ?Q then v else node_val t q)" for q
      using node_val_add_node [OF parent, of "it_key i" _ q, folded Q] fresh Inr
      by (auto simp: item_decoded_def split: option.splits)
    have "tree_lookup ?t q \<noteq> None" if "?Q = q @ R'" for q R'
    proof (cases R' rule: rev_cases)
      case Nil
      with that look [of q] show ?thesis by simp
    next
      case (snoc R'' k)
      with that Q have "?p = q @ R''" by simp
      with R Cons.prems(3) [of q "R'' @ R"] look [of q] show ?thesis by simp
    qed
    moreover have "tree_lookup ?t (item_path j) = None" if "j \<in> set is" for j
      using that Cons.prems(2) Cons.prems(4) [of j] by (subst look) (auto simp: image_iff)
    ultimately have IH: "case wholeLoop V is (?t, path_stack ?Q, length ?Q) of
        Inl e \<Rightarrow> \<exists>i \<in> set is. item_decoded V i = Inl e
      | Inr u \<Rightarrow> (\<forall>q. tree_lookup u q = None \<longleftrightarrow> tree_lookup ?t q = None \<and> q \<notin> item_path ` set is)
          \<and> (\<forall>i \<in> set is. Inr (node_val u (item_path i)) = item_decoded V i)
          \<and> (\<forall>q. q \<notin> item_path ` set is \<longrightarrow> node_val u q = node_val ?t q)"
      using Cons.prems(1,2) by (intro Cons.IH) auto
    have "?Q \<notin> item_path ` set is" using Cons.prems(2) by auto
    with IH Inr show ?thesis
      by (auto simp: wholeItem_follow [OF lev R] look val split: sum.splits)
  qed
qed (simp add: image_iff)


lemma dfs_item_value:
  "i \<in> set (dfs_items now (t, l, key, p)) \<Longrightarrow> it_value i = getTreeCurrentSerializedValue (it_tree i) now"
proof (induction t arbitrary: l key p rule: tree_kids_induct)
  case (Tree t)
  then show ?case
    by (subst (asm) dfs_items.simps)
      (fastforce simp: pre_visit_def next_entries_def Let_def split: option.splits)
qed

text \<open>What a node of the decoded tree holds.\<close>

definition decoded_at :: "'v valueSerializer \<Rightarrow> int \<Rightarrow> int \<Rightarrow> rvalue tree \<Rightarrow> path \<Rightarrow> error + 'v option" where
  "decoded_at V now later t q =
     (case tree_at (if q = [] then now else later) t q of
        None \<Rightarrow> Inr None
      | Some s \<Rightarrow> if q = [] \<and> s = [] then Inr None else vs_deserialize V s)"

lemma whole_tree_items:
  assumes "wf_tree t" "treePreOrderDepthFirstSearch t None later = (items, err)"
  shows "err = None" "follows [] items" "distinct (map item_path items)"
    "item_path ` set items = {q. q \<noteq> [] \<and> tree_lookup t q \<noteq> None}"
    "i \<in> set items \<Longrightarrow> item_decoded V i = decoded_at V now later t (item_path i)"
proof -
  have items: "items = dfs_items later (t, 0, None, None)" and err: "err = None"
    using assms(2) by (simp_all add: dfs_order)
  show "err = None" by (fact err)
  show "follows [] items"
    using dfs_items_follow [of 0 None None "[]" later t] by (simp add: items)
  have vis: "mset (map item_node items) = visited None t"
    using dfs_visits [of t None later] assms(2) by simp
  from visited_paths(2) [OF assms(1) vis] show "distinct (map item_path items)" by (simp add: comp_def)
  note nodes = visited_paths(1) [OF assms(1) vis]
  show "item_path ` set items = {q. q \<noteq> [] \<and> tree_lookup t q \<noteq> None}"
    using arg_cong [OF nodes, of "image fst"] by (force simp: item_node_def image_image image_iff)
  assume i: "i \<in> set items"
  with nodes have "tree_lookup t (item_path i) = Some (it_tree i)" "item_path i \<noteq> []"
    by (auto simp: item_node_def image_iff set_eq_iff)
  moreover have "it_value i = getTreeCurrentSerializedValue (it_tree i) later"
    using i dfs_item_value unfolding items by blast
  ultimately show "item_decoded V i = decoded_at V now later t (item_path i)"
    by (auto simp: item_decoded_def decoded_at_def tree_at_def split: option.splits)
qed

lemma deserializeWholeTree_decodes:
  assumes "ts_deserialize T data = Inr t" "wf_tree t"
    and "\<not> (tchildren t = None \<and> getTreeCurrentSerializedValue t now = None)"
  shows "case deserializeWholeTree data T V now later of
      Inl e \<Rightarrow> \<exists>q. decoded_at V now later t q = Inl e
    | Inr u \<Rightarrow> \<forall>q. (tree_lookup u q = None \<longleftrightarrow> tree_lookup t q = None)
        \<and> Inr (node_val u q) = decoded_at V now later t q"
proof -
  obtain items err where dfs: "treePreOrderDepthFirstSearch t None later = (items, err)" by fastforce
  note it = whole_tree_items [OF assms(2) dfs]
  let ?root = "getTreeCurrentSerializedValue t now"
  let ?r = "if str_truthy ?root then vs_deserialize V (the ?root) else Inr None"
  have root: "decoded_at V now later t [] = ?r"
    by (auto simp: decoded_at_def str_truthy_def split: option.splits)
  show ?thesis
  proof (cases ?r)
    case (Inl e)
    with root assms(1,3) show ?thesis
      by (auto simp: deserializeWholeTree_def Let_def split: if_splits)
  next
    case (Inr v)
    have run: "deserializeWholeTree data T V now later
        = wholeLoop V items (Tree v None None, path_stack [], length ([] :: path))"
      using Inr assms(1,3) dfs it(1)
      by (auto simp: deserializeWholeTree_def Let_def split: sum.splits)
    have fresh: "tree_lookup (Tree v None None) q = None \<longleftrightarrow> q \<noteq> []"
      "node_val (Tree v None None) q = (if q = [] then v else None)" for q
      by (cases q; simp add: tree_child_def)+
    have gone: "decoded_at V now later t q = Inr None" if "tree_lookup t q = None" for q
      using that by (simp add: decoded_at_def tree_at_def)
    have inside: "q \<notin> item_path ` set items \<longleftrightarrow> q = [] \<or> tree_lookup t q = None" for q
      by (subst it(4)) auto
    have paths: "tree_lookup (Tree v None None) (item_path i) = None" if "i \<in> set items" for i
      using that inside [of "item_path i"] fresh by blast
    note loop = wholeLoop_follows [OF it(2,3) _ paths, of V, folded run]
    show ?thesis
    proof (cases "deserializeWholeTree data T V now later")
      case (Inl e)
      with loop fresh(1) obtain i where "i \<in> set items" "item_decoded V i = Inl e" by auto
      with Inl it(5) [of i V now] show ?thesis by (auto intro: exI [of _ "item_path i"])
    next
      case (Inr u)
      with loop fresh(1) have look: "tree_lookup u q = None \<longleftrightarrow> tree_lookup t q = None" for q
        using inside [of q] by auto
      have val: "node_val u q = (if q = [] then v else None)" if "q = [] \<or> tree_lookup t q = None" for q
        using that Inr loop fresh inside [of q] by auto
      have "Inr (node_val u q) = decoded_at V now later t q" for q
      proof (cases "q = [] \<or> tree_lookup t q = None")
        case True
        with val [of q] gone [of q] root \<open>?r = Inr v\<close> show ?thesis by (cases "q = []") simp_all
      next
        case False
        with inside [of q] obtain i where i: "i \<in> set items" "q = item_path i" by blast
        with Inr loop fresh(1) it(5) [OF i(1), of V now] show ?thesis by auto
      qed
      with look Inr show ?thesis by simp
    qed
  qed
qed

end
