(* ===== verification/Cache_FullSet.thy ===== *)
theory Cache_FullSet
  imports Cache_Stored Cache_Utils
begin

text \<open>
  What \<open>fullTreeSet\<close> does to the stored values. The items it yields are described by \<open>full_order\<close>
  (which nodes of the given tree, in which order) and \<open>full_offer\<close> (what the caller sees for a node,
  in terms of the storage before the call); \<open>stored_at\<close> reads the value stored for a path, whatever
  its deadline. \<open>saveFullTreeValue\<close> is followed with the same notion of an order that can be walked
  as \<open>deserializeWholeTree\<close>, so that its stack always holds the parent of the current node.
\<close>

section \<open>Values and deadlines of nodes\<close>

definition node_at :: "'a tree \<Rightarrow> path \<Rightarrow> ('a option \<times> int option) option" where
  "node_at t q = map_option (\<lambda>u. (tvalue u, tdeadline u)) (tree_lookup t q)"

lemma node_at_simps [simp]:
  "node_at t [] = Some (tvalue t, tdeadline t)"
  "node_at t (k # q) = (case tree_child t k of None \<Rightarrow> None | Some u \<Rightarrow> node_at u q)"
  by (simp_all add: node_at_def split: option.splits)

lemma node_val_at: "node_val t q = Option.bind (node_at t q) fst"
  by (cases "tree_lookup t q") (simp_all add: node_val_def node_at_def)

lemma node_at_None_iff: "node_at t q = None \<longleftrightarrow> tree_lookup t q = None"
  by (simp add: node_at_def)

lemma tree_replace_modify:
  "tree_lookup t p = Some u \<Longrightarrow> tree_replace p (f u) t = tree_modify p f t"
  by (induction p arbitrary: t) (auto split: option.splits)

lemma node_at_modify_value:
  "node_at (tree_modify p (set_value v) t) q
   = (if q = p then map_option (\<lambda>(_, d). (v, d)) (node_at t p) else node_at t q)"
proof (induction p arbitrary: t q)
  case Nil
  show ?case by (cases q) auto
next
  case (Cons j p)
  then show ?case by (cases q) (auto split: option.splits)
qed

lemma node_at_modify_put:
  "tree_lookup t p = Some u \<Longrightarrow> tree_child u k = None \<Longrightarrow>
   node_at (tree_modify p (put_child k (Tree v d None)) t) q = (if q = p @ [k] then Some (v, d) else node_at t q)"
proof (induction p arbitrary: t q)
  case Nil
  have "node_at (Tree v d None) r = (if r = [] then Some (v, d) else None)" for r
    by (cases r) (simp_all add: tree_child_def)
  with Nil show ?case by (cases q) auto
next
  case (Cons j p)
  then show ?case by (cases q) (auto split: option.splits)
qed

lemma wf_tree_modify:
  "wf_tree t \<Longrightarrow> (\<And>u. wf_tree u \<Longrightarrow> wf_tree (f u)) \<Longrightarrow> wf_tree (tree_modify p f t)"
  by (induction p arbitrary: t) (auto split: option.splits intro: wf_tree_put dest: wf_tree_child)

definition live :: "int \<Rightarrow> 'a option \<times> int option \<Rightarrow> 'a option" where
  "live now = (\<lambda>(v, d). if \<not> num_truthy d \<or> the d > now then v else None)"

lemma current_value_live: "getTreeCurrentSerializedValue t now = live now (tvalue t, tdeadline t)"
  by (simp add: getTreeCurrentSerializedValue_def live_def)

section \<open>What the caller sees and answers\<close>

definition full_resuming :: "'v fullArgs \<Rightarrow> bool" where
  "full_resuming a \<longleftrightarrow> (\<forall>out s. \<exists>v. f_body a out s = Resume v)"

definition full_replied :: "'v fullArgs \<Rightarrow> 'v fullSetItem list \<Rightarrow> 'v fullSetItem \<Rightarrow> 'v fullSetItem" where
  "full_replied a out s = s\<lparr>step_value := (case f_body a out s of Resume v \<Rightarrow> v | _ \<Rightarrow> None)\<rparr>"

fun full_steps :: "'v fullArgs \<Rightarrow> 'v fullSetItem list \<Rightarrow> 'v fullSetItem list \<Rightarrow> 'v fullSetItem list" where
  "full_steps a out [] = []"
| "full_steps a out (s # ss) = full_replied a out s # full_steps a (out @ [full_replied a out s]) ss"

lemma length_full_steps [simp]: "length (full_steps a out ss) = length ss"
  by (induction ss arbitrary: out) auto

lemma full_steps_append:
  "full_steps a out (xs @ ys) = full_steps a out xs @ full_steps a (out @ full_steps a out xs) ys"
  by (induction xs arbitrary: out) auto

lemma yield_resuming:
  "full_resuming a \<Longrightarrow>
   yield_item (f_body a) s (out, w) = (Inr (full_replied a out s), out @ [full_replied a out s], w)"
proof -
  assume "full_resuming a"
  then obtain v where "f_body a out s = Resume v" by (auto simp: full_resuming_def)
  then show ?thesis by (simp add: yield_item_def full_replied_def)
qed

text \<open>The value \<open>createValue\<close> gives a node that is missing in its tree, in serialized form.\<close>

definition created :: "('v, 's, 'm) cache \<Rightarrow> 'v fullArgs \<Rightarrow> 'v item \<Rightarrow> rvalue option" where
  "created c a i = map_option (vs_serialize (vser c)) (Option.bind (f_createValue a) (\<lambda>f. f (item_ref i)))"

definition tree_node :: "('v, 's, 'm) cache \<Rightarrow> 'v fullArgs \<Rightarrow> rvalue tree \<Rightarrow> 'v item \<Rightarrow> path \<Rightarrow> rvalue option \<times> int option" where
  "tree_node c a t i q = (case node_at t q of Some n \<Rightarrow> n | None \<Rightarrow> (created c a i, None))"

text \<open>The item for a node of a stored tree.\<close>

definition tree_offer :: "('v, 's, 'm) cache \<Rightarrow> 'v fullArgs \<Rightarrow> rvalue tree \<Rightarrow> 'v item \<Rightarrow> path \<Rightarrow> 'v fullSetItem" where
  "tree_offer c a t i q =
     (let current = live (f_now a) (tree_node c a t i q) in
      \<lparr>step_key = it_key i, step_value = it_value i, step_level = it_level i, step_nodeRef = item_ref i,
       fs_oldValue = (if str_truthy current then decode c (the current) else None),
       fs_currentSerialized = current\<rparr>)"

text \<open>The value a node has after its item has been handled.\<close>

definition written :: "('v, 's, 'm) cache \<Rightarrow> rvalue option \<Rightarrow> 'v fullSetItem \<Rightarrow> rvalue option" where
  "written c old s = (case step_value s of None \<Rightarrow> old | Some v \<Rightarrow> Some (vs_serialize (vser c) v))"

lemma getFullSetItem_offer:
  "\<exists>w'. getFullSetItem c u i (f_now a) w =
     (Inr \<lparr>step_key = it_key i, step_value = it_value i, step_level = it_level i, step_nodeRef = item_ref i,
        fs_oldValue = (let current = getTreeCurrentSerializedValue u (f_now a)
                       in if str_truthy current then decode c (the current) else None),
        fs_currentSerialized = getTreeCurrentSerializedValue u (f_now a)\<rparr>, w') \<and> w_store w' = w_store w"
  by (auto simp: getFullSetItem_def Let_def decode_def item_ref_def split: sum.splits)

section \<open>One node of a stored tree\<close>

text \<open>
  The path of an item below the root of its tree, and the state of the loop when the last node has
  path \<open>P\<close>: the stack holds the prefixes of \<open>P\<close>, which are nodes of the tree.
\<close>

abbreviation below_root :: "nat \<Rightarrow> 'v item \<Rightarrow> path" where
  "below_root n i \<equiv> drop n (item_path i)"

definition stack_ok :: "nat \<Rightarrow> path \<Rightarrow> saveState \<Rightarrow> bool" where
  "stack_ok n P st \<longleftrightarrow> (\<forall>j \<le> length P. map_of (sv_stack st) (n + j) = Some (take j P)
     \<and> tree_lookup (sv_rootTree st) (take j P) \<noteq> None)"

text \<open>Going to a node: it is created when it is missing, and the stack holds its path.\<close>

lemma nextOrCreate_node:
  assumes "tree_lookup t p = Some u" "nextOrCreate c a i u ch = (u', ch')" "k = it_key i"
  shows "node_at (tree_replace p u' t) q
      = (if q = p @ [k] then Some (tree_node c a t i q) else node_at t q)"
    and "wf_tree t \<Longrightarrow> wf_tree (tree_replace p u' t)"
    and "\<not> ch' \<Longrightarrow> \<not> ch \<and> node_val (tree_replace p u' t) q = node_val t q"
proof -
  have child: "tree_child u k = None \<longleftrightarrow> node_at t (p @ [k]) = None"
    using assms(1) by (simp add: node_at_None_iff tree_lookup_append split: option.splits)
  show node: "node_at (tree_replace p u' t) q
      = (if q = p @ [k] then Some (tree_node c a t i q) else node_at t q)" for q
  proof (cases "tree_child u k")
    case None
    then have "u' = put_child k (Tree (created c a i) None None) u"
      using assms(2,3) by (auto simp: nextOrCreate_def created_def empty_tree_def set_value_def split: option.splits)
    with None child show ?thesis
      using node_at_modify_put [OF assms(1) None] tree_replace_modify [OF assms(1), of "put_child k _"]
      by (simp add: tree_node_def)
  next
    case (Some x)
    then have "u' = u" using assms(2,3) by (simp add: nextOrCreate_def)
    moreover have "node_at (tree_replace p u t) q = node_at t q" for q
      using assms(1)
    proof (induction p arbitrary: t q)
      case (Cons j p)
      then show ?case by (cases q) (auto split: option.splits)
    qed simp
    ultimately show ?thesis using Some child by (auto simp: tree_node_def)
  qed
  show "\<not> ch \<and> node_val (tree_replace p u' t) q = node_val t q" if "\<not> ch'"
    using that node [of q] assms(2,3) child unfolding node_val_at
    by (auto simp: nextOrCreate_def tree_node_def created_def split: option.splits)
  assume wf: "wf_tree t"
  have "wf_tree u" using wf_tree_lookup [OF wf assms(1)] .
  then have "wf_tree u'"
    using assms(2) by (auto simp: nextOrCreate_def split: option.splits)
  then show "wf_tree (tree_replace p u' t)"
    using wf_tree_modify [OF wf, of "\<lambda>_. u'" p] tree_replace_modify [OF assms(1), of "\<lambda>_. u'"] by simp
qed

lemma enterNode_follow:
  assumes ok: "stack_ok n P st" and lev: "it_level i = length (item_path i)" and n: "n \<le> it_level i"
    and par: "it_level i \<noteq> n \<Longrightarrow> \<exists>R. P = drop n (opt_path (it_parentRef i)) @ R"
  obtains st1 where "enterNode c a n i st = Inr (below_root n i, st1)"
    "\<And>q. node_at (sv_rootTree st1) q
       = (if q = below_root n i then Some (tree_node c a (sv_rootTree st) i q) else node_at (sv_rootTree st) q)"
    "wf_tree (sv_rootTree st) \<Longrightarrow> wf_tree (sv_rootTree st1)"
    "\<And>q. \<not> sv_changed st1 \<Longrightarrow> \<not> sv_changed st \<and> node_val (sv_rootTree st1) q = node_val (sv_rootTree st) q"
    "stack_ok n (below_root n i) st1"
proof (cases "it_level i = n")
  case True
  then have Q: "below_root n i = []" using lev by simp
  show ?thesis
  proof (rule that [of st])
    show "stack_ok n (below_root n i) st" using ok unfolding Q by (auto simp: stack_ok_def dest: spec [of _ 0])
  qed (use True Q in \<open>auto simp: enterNode_def tree_node_def\<close>)
next
  case False
  let ?t = "sv_rootTree st" and ?k = "it_key i"
  define p where "p = drop n (opt_path (it_parentRef i))"
  have path: "item_path i = opt_path (it_parentRef i) @ [?k]" by (simp add: item_ref_def)
  with False n lev have len: "n \<le> length (opt_path (it_parentRef i))" "it_level i = n + Suc (length p)"
    by (simp_all add: p_def)
  then have Q: "below_root n i = p @ [?k]" by (simp add: path p_def)
  obtain R where P: "P = p @ R" using par [OF False] by (auto simp: p_def)
  then have st: "map_of (sv_stack st) (n + length p) = Some p" "tree_lookup ?t p \<noteq> None"
    using ok by (auto simp: stack_ok_def dest!: spec [of _ "length p"])
  then obtain u where u: "tree_lookup ?t p = Some u" by auto
  obtain u' ch where new: "nextOrCreate c a i u (sv_changed st) = (u', ch)" by fastforce
  let ?st = "st\<lparr>sv_rootTree := tree_replace p u' ?t, sv_changed := ch,
      sv_stack := AList.update (it_level i) (p @ [?k]) (sv_stack st)\<rparr>"
  note node = nextOrCreate_node [OF u new refl]
  show ?thesis
  proof (rule that [of ?st])
    show "enterNode c a n i st = Inr (below_root n i, ?st)"
      using False len st(1) u new by (simp add: enterNode_def Q)
    show "node_at (sv_rootTree ?st) q
       = (if q = below_root n i then Some (tree_node c a ?t i q) else node_at ?t q)" for q
      using node(1) [of q] by (simp add: Q)
    show "stack_ok n (below_root n i) ?st"
      unfolding stack_ok_def Q
    proof (intro allI impI conjI)
      fix j assume j: "j \<le> length (p @ [?k])"
      show "map_of (sv_stack ?st) (n + j) = Some (take j (p @ [?k]))"
        using ok j len P by (cases "j = Suc (length p)") (auto simp: stack_ok_def update_conv')
      have "tree_lookup ?t (take j p) \<noteq> None" using ok P j
        by (cases "j \<le> length p") (auto simp: stack_ok_def st(2) dest!: spec [of _ j])
      then have "node_at ?t (take j p) \<noteq> None" by (simp add: node_at_None_iff)
      with j show "tree_lookup (sv_rootTree ?st) (take j (p @ [?k])) \<noteq> None"
        unfolding node_at_None_iff [symmetric] by (cases "j = Suc (length p)") (auto simp: node(1))
    qed
  qed (use node in auto)
qed

text \<open>One round of the loop: the caller sees the node, and what it leaves in the item is written.\<close>

lemma saveItem_follow:
  assumes a: "full_resuming a" and ok: "stack_ok n P st" and lev: "it_level i = length (item_path i)" "n \<le> it_level i"
    and par: "it_level i \<noteq> n \<Longrightarrow> \<exists>R. P = drop n (opt_path (it_parentRef i)) @ R"
    and wft: "wf_tree (sv_rootTree st)" and s: "s = full_replied a out (tree_offer c a (sv_rootTree st) i (below_root n i))"
  obtains st' w' where "saveItem c a n i st (out, w) = (Inr st', out @ [s], w')" "w_store w' = w_store w"
    "stack_ok n (below_root n i) st'"
    "wf_tree (sv_rootTree st')"
    "node_val (sv_rootTree st') (below_root n i)
       = written c (fst (tree_node c a (sv_rootTree st) i (below_root n i))) s"
    "\<forall>q. q \<noteq> below_root n i \<longrightarrow> node_at (sv_rootTree st') q = node_at (sv_rootTree st) q"
    "\<not> sv_changed st' \<longrightarrow> \<not> sv_changed st \<and> (\<forall>q. node_val (sv_rootTree st') q = node_val (sv_rootTree st) q)"
proof -
  let ?Q = "below_root n i" and ?t = "sv_rootTree st"
  obtain st1 where e: "enterNode c a n i st = Inr (?Q, st1)"
    and node: "\<And>q. node_at (sv_rootTree st1) q = (if q = ?Q then Some (tree_node c a ?t i q) else node_at ?t q)"
    and wf: "wf_tree (sv_rootTree st1)"
    and un: "\<And>q. \<not> sv_changed st1 \<Longrightarrow> \<not> sv_changed st \<and> node_val (sv_rootTree st1) q = node_val ?t q"
    and ok1: "stack_ok n ?Q st1"
    by (rule enterNode_follow [OF ok lev par]) (use wft in \<open>blast+\<close>)
  obtain u where u: "tree_lookup (sv_rootTree st1) ?Q = Some u" "tree_node c a ?t i ?Q = (tvalue u, tdeadline u)"
    using node [of ?Q] by (auto simp: node_at_def)
  let ?o = "tree_offer c a ?t i ?Q"
  have live: "getTreeCurrentSerializedValue u (f_now a) = live (f_now a) (tree_node c a ?t i ?Q)"
    by (simp add: u(2) current_value_live)
  obtain w1 where item: "getFullSetItem c u i (f_now a) w = (Inr ?o, w1)" and w1: "w_store w1 = w_store w"
    using getFullSetItem_offer [of c u i a w] unfolding live by (auto simp: tree_offer_def Let_def)
  obtain ch u' where chk: "checkFullSetItemChange c s u = (ch, u')" by fastforce
  have u': "u' = set_value (written c (tvalue u) s) u" "ch \<or> u' = u"
  proof -
    have cur: "fs_currentSerialized s = live (f_now a) (tvalue u, tdeadline u)"
      by (simp add: s full_replied_def tree_offer_def Let_def u(2))
    have "set_value (tvalue u) u = u" by (cases u) (simp add: set_value_def)
    with chk cur show "u' = set_value (written c (tvalue u) s) u" "ch \<or> u' = u"
      by (auto simp: checkFullSetItemChange_def written_def live_def Let_def split: option.splits if_splits)
  qed
  define mt where "mt = (if ch then snd (getTtl (f_ttl a) (step.truncate s) (sv_maxTtl st1)) else sv_maxTtl st1)"
  let ?st = "st1\<lparr>sv_rootTree := tree_replace ?Q u' (sv_rootTree st1), sv_maxTtl := mt,
      sv_changed := ch \<or> sv_changed st1\<rparr>"
  have mod: "tree_replace ?Q u' (sv_rootTree st1) = tree_modify ?Q (set_value (written c (tvalue u) s)) (sv_rootTree st1)"
    unfolding u'(1) by (rule tree_replace_modify [OF u(1)])
  have at: "node_at (sv_rootTree ?st) q = (if q = ?Q then Some (written c (tvalue u) s, tdeadline u)
      else node_at (sv_rootTree st1) q)" for q
    using u(1) by (simp add: mod node_at_modify_value, simp add: node_at_def)
  show thesis
  proof (rule that [of ?st w1])
    show "saveItem c a n i st (out, w) = (Inr ?st, out @ [s], w1)"
      using e u(1) item chk s
      by (simp add: saveItem_def call_def yield_resuming [OF a] mt_def)
    show "stack_ok n ?Q ?st"
      using ok1 at unfolding stack_ok_def node_at_None_iff [symmetric] by auto
    show "wf_tree (sv_rootTree ?st)"
      using wf_tree_modify [OF wf] by (simp add: mod)
    show "node_val (sv_rootTree ?st) ?Q = written c (fst (tree_node c a ?t i ?Q)) s"
      using at [of ?Q] by (simp add: node_val_at u(2))
    show "\<forall>q. q \<noteq> ?Q \<longrightarrow> node_at (sv_rootTree ?st) q = node_at ?t q"
      using at node by simp
    have "\<not> sv_changed st \<and> node_val (sv_rootTree ?st) q = node_val ?t q" if "\<not> sv_changed ?st" for q
    proof -
      have c1: "\<not> ch" "\<not> sv_changed st1" using that by simp_all
      then have "written c (tvalue u) s = tvalue u" using u' by (metis tree_field_simps(1))
      with at [of q] u(1) have "node_val (sv_rootTree ?st) q = node_val (sv_rootTree st1) q"
        by (auto simp: node_val_at node_at_def)
      with un [OF c1(2)] show ?thesis by simp
    qed
    then show "\<not> sv_changed ?st \<longrightarrow> \<not> sv_changed st \<and> (\<forall>q. node_val (sv_rootTree ?st) q = node_val ?t q)" by blast
  qed (simp add: w1)
qed

section \<open>The nodes of a stored tree\<close>

lemma follows_parent:
  assumes "A @ P = opt_path (it_parentRef i) @ R" "it_level i = length (item_path i)" "length A < it_level i"
  shows "\<exists>R. P = drop (length A) (opt_path (it_parentRef i)) @ R"
proof -
  have "length A \<le> length (opt_path (it_parentRef i))" using assms(2,3) by (simp add: item_ref_def)
  with arg_cong [OF assms(1), of "drop (length A)"] show ?thesis by auto
qed

lemma follows_level: "follows P is \<Longrightarrow> i \<in> set is \<Longrightarrow> it_level i = length (item_path i)"
  by (induction P "is" rule: follows.induct) auto

lemma saveItems_follow:
  assumes a: "full_resuming a" and A: "length A = n"
  shows "follows (A @ P) is \<Longrightarrow> stack_ok n P st \<Longrightarrow> distinct (map item_path is) \<Longrightarrow>
    \<forall>i \<in> set is. take n (item_path i) = A \<Longrightarrow> wf_tree (sv_rootTree st) \<Longrightarrow>
    outs = full_steps a out (map (\<lambda>i. tree_offer c a (sv_rootTree st) i (below_root n i)) is) \<Longrightarrow>
    \<exists>st' w'. saveItems c a n is st (out, w) = (Inr st', out @ outs, w') \<and> w_store w' = w_store w
      \<and> wf_tree (sv_rootTree st')
      \<and> (\<forall>(i, s) \<in> set (zip is outs). node_val (sv_rootTree st') (below_root n i)
            = written c (fst (tree_node c a (sv_rootTree st) i (below_root n i))) s)
      \<and> (\<forall>q. q \<notin> below_root n ` set is \<longrightarrow> node_at (sv_rootTree st') q = node_at (sv_rootTree st) q)
      \<and> (\<not> sv_changed st' \<longrightarrow> \<not> sv_changed st \<and> (\<forall>q. node_val (sv_rootTree st') q = node_val (sv_rootTree st) q))"
proof (induction "is" arbitrary: P st out outs w)
  case (Cons i "is")
  let ?t = "sv_rootTree st" and ?Q = "below_root n i"
  define s where "s = full_replied a out (tree_offer c a ?t i ?Q)"
  have path: "item_path j = A @ below_root n j" if "j \<in> set (i # is)" for j
    using Cons.prems(4) that by (metis append_take_drop_id)
  have "length A \<le> length (item_path i)" by (subst path [of i]) simp_all
  then have lev: "it_level i = length (item_path i)" "n \<le> it_level i" using Cons.prems(1) A by simp_all
  obtain R where "A @ P = opt_path (it_parentRef i) @ R" using Cons.prems(1) by auto
  then have par: "\<exists>R. P = drop n (opt_path (it_parentRef i)) @ R" if "it_level i \<noteq> n"
    using follows_parent [of A P i R] that lev A by simp
  obtain st1 w1 where one: "saveItem c a n i st (out, w) = (Inr st1, out @ [s], w1)" "w_store w1 = w_store w"
    and ok1: "stack_ok n ?Q st1" and wf1: "wf_tree (sv_rootTree st1)"
    and val: "node_val (sv_rootTree st1) ?Q = written c (fst (tree_node c a ?t i ?Q)) s"
    and same': "\<forall>q. q \<noteq> ?Q \<longrightarrow> node_at (sv_rootTree st1) q = node_at ?t q"
    and un: "\<not> sv_changed st1 \<longrightarrow> \<not> sv_changed st \<and> (\<forall>q. node_val (sv_rootTree st1) q = node_val ?t q)"
    by (rule saveItem_follow [OF a Cons.prems(2) lev par Cons.prems(5) s_def, where w = w], assumption) (rule that)
  note same = same' [rule_format]
  have other: "below_root n j \<noteq> ?Q" if "j \<in> set is" for j
  proof
    assume "below_root n j = ?Q"
    then have "item_path j = item_path i" using path [of i] path [of j] that by simp
    with that Cons.prems(3) show False by (auto simp: image_iff)
  qed
  have node: "tree_node c a (sv_rootTree st1) j (below_root n j) = tree_node c a ?t j (below_root n j)"
    if "j \<in> set is" for j
    using same [OF other [OF that]] by (simp add: tree_node_def)
  define outs' where "outs' = full_steps a (out @ [s]) (map (\<lambda>i. tree_offer c a (sv_rootTree st1) i (below_root n i)) is)"
  have outs: "outs = s # outs'"
    using node unfolding Cons.prems(6) outs'_def s_def by (simp add: tree_offer_def cong: map_cong)
  have fol: "follows (A @ ?Q) is" using Cons.prems(1) path [of i] by simp
  have d: "distinct (map item_path is)" and start: "\<forall>j \<in> set is. take n (item_path j) = A"
    using Cons.prems(3,4) by simp_all
  obtain st2 w2 where rec: "saveItems c a n is st1 (out @ [s], w1) = (Inr st2, (out @ [s]) @ outs', w2)"
      "w_store w2 = w_store w1" "wf_tree (sv_rootTree st2)"
    and val2: "\<forall>(i, s) \<in> set (zip is outs'). node_val (sv_rootTree st2) (below_root n i)
            = written c (fst (tree_node c a (sv_rootTree st1) i (below_root n i))) s"
    and same2: "\<forall>q. q \<notin> below_root n ` set is \<longrightarrow> node_at (sv_rootTree st2) q = node_at (sv_rootTree st1) q"
    and un2: "\<not> sv_changed st2 \<longrightarrow> \<not> sv_changed st1 \<and> (\<forall>q. node_val (sv_rootTree st2) q = node_val (sv_rootTree st1) q)"
    using Cons.IH [OF fol ok1 d start wf1 outs'_def, where w = w1]
    by (elim exE conjE) (rule that)
  have "?Q \<notin> below_root n ` set is"
  proof
    assume "?Q \<in> below_root n ` set is"
    then obtain j where j: "j \<in> set is" "?Q = below_root n j" by (rule imageE)
    from other [OF j(1)] j(2) show False by simp
  qed
  then have "node_val (sv_rootTree st2) ?Q = node_val (sv_rootTree st1) ?Q"
    using same2 by (simp add: node_val_at)
  with val have "node_val (sv_rootTree st2) ?Q = written c (fst (tree_node c a ?t i ?Q)) s" by simp
  moreover have "\<forall>(j, s) \<in> set (zip is outs'). node_val (sv_rootTree st2) (below_root n j)
            = written c (fst (tree_node c a ?t j (below_root n j))) s"
  proof clarify
    fix j o' assume j: "(j, o') \<in> set (zip is outs')"
    with val2 node [OF set_zip_leftD [OF j]]
    show "node_val (sv_rootTree st2) (below_root n j) = written c (fst (tree_node c a ?t j (below_root n j))) o'"
      by auto
  qed
  ultimately show ?case
    unfolding outs using one rec same same2 un un2
    by (intro exI [of _ st2] exI [of _ w2] conjI) simp_all
qed simp

text \<open>The value stored for a path, whatever its deadline.\<close>

definition stored_at :: "('v, 's, 'm) cache \<Rightarrow> 's \<Rightarrow> path \<Rightarrow> rvalue option" where
  "stored_at c s q = (if length q < keyLevelNodes c then st_get (c_storage c) s (join q)
     else node_val (stored_tree c s q) (drop (keyLevelNodes c) q))"

lemma stored_tree_cong:
  "st_get (c_storage c) s (join (take (keyLevelNodes c) q)) = st_get (c_storage c) s' (join (take (keyLevelNodes c) q))
   \<Longrightarrow> stored_tree c s q = stored_tree c s' q"
  by (simp add: stored_tree_def)

lemma stored_at_cong:
  "st_get (c_storage c) s (join (take (keyLevelNodes c) q)) = st_get (c_storage c) s' (join (take (keyLevelNodes c) q))
   \<Longrightarrow> stored_at c s q = stored_at c s' q"
  by (auto simp: stored_at_def dest: stored_tree_cong)

lemma node_val_strip: "wf_tree t \<Longrightarrow> node_val (strip t) q = node_val t q"
  by (simp add: node_val_def tree_lookup_strip split: option.splits)
    (cases "tree_lookup t q", simp_all)

text \<open>The nodes of the sub-tree of an item, in the order of the loop.\<close>

lemma start_dfs_items:
  assumes "wf_tree (it_tree r)" "it_level r = length (item_path r)"
    and "treePreOrderDepthFirstSearch (it_tree r) (Some (item_ref r)) now = (items, err)"
  shows "err = None" "follows (item_path r) items" "distinct (map item_path items)"
    "item_path ` set items = {item_path r @ q | q. tree_lookup (it_tree r) q \<noteq> None}"
proof -
  let ?p = "Some (item_ref r)"
  have items: "items = start_items ?p (it_tree r) now @ dfs_items now (start_entry ?p (it_tree r))" and err: "err = None"
    using assms(3) by (simp_all add: dfs_order)
  show "err = None" by (fact err)
  have lev: "ch_level (item_ref r) = length (item_path r)" using assms(2) by (simp add: item_ref_def)
  have "follows (opt_path ?p @ []) (dfs_items now (start_entry ?p (it_tree r)))"
    by (rule dfs_items_follow) (simp add: lev)
  moreover have "item_path r = opt_path (ch_parentRef (item_ref r)) @ [ch_key (item_ref r)]" by (rule chain_path_eq)
  ultimately show "follows (item_path r) items"
    unfolding items using lev by (auto simp: item_ref_def)
  have vis: "mset (map item_node items) = visited ?p (it_tree r)"
    using dfs_visits [of "it_tree r" ?p now] assms(3) by simp
  from visited_paths(2) [OF assms(1) vis] show "distinct (map item_path items)" by (simp add: comp_def)
  show "item_path ` set items = {item_path r @ q | q. tree_lookup (it_tree r) q \<noteq> None}"
    using arg_cong [OF visited_paths(1) [OF assms(1) vis], of "image fst"]
    by (force simp: item_node_def image_image image_iff)
qed

section \<open>The items of \<open>fullTreeSet\<close>\<close>

text \<open>What a node shows to the caller, in terms of the storage as it is before the call.\<close>

definition full_offer :: "('v, 's, 'm) cache \<Rightarrow> 'v fullArgs \<Rightarrow> 's \<Rightarrow> 'v item \<Rightarrow> 'v fullSetItem" where
  "full_offer c a s i =
     (if it_level i < keyLevelNodes c then
        (let old = (case st_get (c_storage c) s (join (item_path i)) of
                 None \<Rightarrow> Option.bind (f_createValue a) (\<lambda>f. f (item_ref i)) | Some r \<Rightarrow> decode c r)
         in \<lparr>step_key = it_key i, step_value = (case it_value i of None \<Rightarrow> old | Some v \<Rightarrow> Some v),
             step_level = it_level i, step_nodeRef = item_ref i, fs_oldValue = old, fs_currentSerialized = None\<rparr>)
      else tree_offer c a (stored_tree c s (item_path i)) i (below_root (keyLevelNodes c) i))"

text \<open>
  The value a node keeps when the caller leaves it without one: the stored value, or the one
  \<open>createValue\<close> gives a node that its tree does not have yet.
\<close>

definition kept :: "('v, 's, 'm) cache \<Rightarrow> 'v fullArgs \<Rightarrow> 's \<Rightarrow> 'v item \<Rightarrow> rvalue option" where
  "kept c a s i =
     (if it_level i < keyLevelNodes c then st_get (c_storage c) s (join (item_path i))
      else fst (tree_node c a (stored_tree c s (item_path i)) i (below_root (keyLevelNodes c) i)))"

definition block :: "nat \<Rightarrow> int \<Rightarrow> 'v item \<Rightarrow> 'v item list" where
  "block n now i = (if it_level i = n
     then fst (treePreOrderDepthFirstSearch (it_tree i) (Some (item_ref i)) now) else [i])"

definition full_order :: "nat \<Rightarrow> int \<Rightarrow> 'v item list \<Rightarrow> 'v item list" where
  "full_order n now is = concat (map (block n now) (takeWhile (\<lambda>i. it_level i \<le> n) is))"

definition handled :: "('v, 's, 'm) cache \<Rightarrow> 'v fullArgs \<Rightarrow> 's \<Rightarrow> 's \<Rightarrow> 'v item list \<Rightarrow> 'v fullSetItem list \<Rightarrow> bool" where
  "handled c a s s' is outs \<longleftrightarrow>
     (\<forall>(i, o') \<in> set (zip is outs). stored_at c s' (item_path i) = written c (kept c a s i) o')"

lemma block_take:
  assumes "it_level i \<le> n" "it_level i = length (item_path i)" "wf_tree (it_tree i)" "x \<in> set (block n now i)"
  shows "take n (item_path x) = item_path i"
proof (cases "it_level i = n")
  case True
  obtain items err where dfs: "treePreOrderDepthFirstSearch (it_tree i) (Some (item_ref i)) now = (items, err)" by fastforce
  have "item_path x \<in> item_path ` set items" using assms(4) True dfs by (simp add: block_def)
  then show ?thesis
    unfolding start_dfs_items(4) [OF assms(3,2) dfs] using True assms(2) by auto
qed (use assms in \<open>simp add: block_def\<close>)

text \<open>Offers and kept values of a node depend on one key of the storage.\<close>

lemma offer_cong:
  assumes "st_get (c_storage c) s (join (take (keyLevelNodes c) (item_path x)))
      = st_get (c_storage c) s' (join (take (keyLevelNodes c) (item_path x)))" "it_level x = length (item_path x)"
  shows "full_offer c a s x = full_offer c a s' x" "kept c a s x = kept c a s' x"
  using assms stored_tree_cong [OF assms(1)]
  by (cases "length (item_path x) < keyLevelNodes c"; simp add: full_offer_def kept_def)+

lemma item_ref_sel [simp, item_simps]:
  "ch_key (item_ref i) = it_key i" "ch_level (item_ref i) = it_level i" "ch_parentRef (item_ref i) = it_parentRef i"
  by (simp_all add: item_ref_def)

lemma getStep_created:
  "\<exists>w'. getStep c (single cs) ref f w
     = (Inr (mountStep ref (case cs of None \<Rightarrow> Option.bind f (\<lambda>f. f ref) | Some r \<Rightarrow> decode c r)), w')
     \<and> w_store w' = w_store w"
  by (cases cs) (auto simp: getStep_def single_def decode_def split: sum.splits)

context lawful_cache
begin

lemma get_registerKeyLevelChildren [simp]:
  "st_get (c_storage c) (w_store (registerKeyLevelChildren c i k w)) = store_get c w"
proof -
  have "st_get (c_storage c) (w_store (fold (registerChild c p) ks w)) = store_get c w" for p ks
    by (induction ks arbitrary: w) auto
  then show ?thesis by (simp add: registerKeyLevelChildren_def split: option.splits)
qed

lemma fullSetStep_result:
  assumes a: "full_resuming a" and i: "it_level i < keyLevelNodes c" "item_path i \<noteq> []"
    and o: "o' = full_replied a out (full_offer c a (w_store w) i)" and lev: "it_level i = length (item_path i)"
  shows "\<exists>w'. fullSetStep c a i (join (item_path i)) (out, w) = (Inr (), out @ [o'], w')
    \<and> (\<forall>k. k \<noteq> join (item_path i) \<longrightarrow> store_get c w' k = store_get c w k)
    \<and> handled c a (w_store w) (w_store w') [i] [o']"
proof -
  let ?k = "join (item_path i)"
  let ?w = "registerKeyLevelChildren c i ?k w" and ?cs = "store_get c w (join (item_path i))"
  let ?old = "case ?cs of None \<Rightarrow> Option.bind (f_createValue a) (\<lambda>f. f (item_ref i)) | Some r \<Rightarrow> decode c r"
  obtain w1 where g: "getStep c (single ?cs) (item_ref i) (f_createValue a) ?w = (Inr (mountStep (item_ref i) ?old), w1)"
    "w_store w1 = w_store ?w"
    using getStep_created [of c ?cs "item_ref i" "f_createValue a" ?w] by blast
  let ?w2 = "persistStep c (step.truncate o') ?cs ?k (f_ttl a) w1"
  have off: "full_offer c a (w_store w) i = \<lparr>step_key = it_key i, step_value = (case it_value i of None \<Rightarrow> ?old | Some v \<Rightarrow> Some v),
      step_level = it_level i, step_nodeRef = item_ref i, fs_oldValue = ?old, fs_currentSerialized = None\<rparr>"
    using i by (simp add: full_offer_def Let_def)
  have run: "fullSetStep c a i ?k (out, w) = (Inr (), out @ [o'], ?w2)"
    using g off o by (cases "it_value i") (simp_all add: fullSetStep_def Let_def call_def yield_resuming [OF a] mountStep_def)
  have get: "store_get c ?w2 k = (if k = ?k then written c ?cs o' else store_get c w k)" for k
    using g(2) by (auto simp: persistStep_def written_def Let_def get_store_set step.truncate_def split: option.splits)
  have "stored_at c (w_store ?w2) (item_path i) = written c (kept c a (w_store w) i) o'"
    using i get [of ?k] lev by (simp add: stored_at_def kept_def)
  with run get show ?thesis by (auto simp: handled_def)
qed

lemma persisted_vals:
  assumes wf: "wf_tree t" and w1: "w_store w1 = w_store w" and A: "take (keyLevelNodes c) A = A"
    and w2: "w2 = (if changed then persistTree c (join A) m t w1 else w1)"
    and un: "\<not> changed \<longrightarrow> (\<forall>q. node_val t q = node_val (stored_tree c (w_store w) A) q)"
  shows "k \<noteq> join A \<Longrightarrow> store_get c w2 k = store_get c w k"
    and "node_val (stored_tree c (w_store w2) A) q = node_val t q"
proof -
  have get: "store_get c w2 k = (if k = join A \<and> changed then Some (ts_serialize (tser c) t) else store_get c w k)" for k
    using w1 by (auto simp: w2 persistTree_def Let_def get_store_set)
  then show "k \<noteq> join A \<Longrightarrow> store_get c w2 k = store_get c w k" by simp
  show "node_val (stored_tree c (w_store w2) A) q = node_val t q"
  proof (cases changed)
    case True
    then have "stored_tree c (w_store w2) A = strip t"
      using get [of "join A"] tree_nonempty tree_roundtrip [OF wf] by (simp add: stored_tree_def A)
    then show ?thesis using node_val_strip [OF wf] by simp
  next
    case False
    then have "stored_tree c (w_store w2) A = stored_tree c (w_store w) A" using get [of "join A"] by (simp add: stored_tree_def A)
    with un False show ?thesis by simp
  qed
qed

lemma saveFullTreeValue_result:
  assumes a: "full_resuming a" and lev: "it_level r = keyLevelNodes c" "it_level r = length (item_path r)"
    and wf: "wf_tree (it_tree r)" and rd: "tree_readable c (w_store w) (item_path r)"
    and items: "items = block (keyLevelNodes c) (f_now a) r"
    and outs: "outs = full_steps a out (map (full_offer c a (w_store w)) items)"
  shows "\<exists>w'. saveFullTreeValue c a r (join (item_path r)) (out, w) = (Inr (), out @ outs, w')
    \<and> (\<forall>k. k \<noteq> join (item_path r) \<longrightarrow> store_get c w' k = store_get c w k)
    \<and> handled c a (w_store w) (w_store w') items outs
    \<and> (\<forall>q. take (keyLevelNodes c) q = item_path r \<and> q \<notin> item_path ` set items \<longrightarrow>
          stored_at c (w_store w') q = stored_at c (w_store w) q)"
proof -
  let ?n = "keyLevelNodes c" and ?A = "item_path r" and ?k = "join (item_path r)"
  let ?t = "stored_tree c (w_store w) ?A"
  obtain err where dfs: "treePreOrderDepthFirstSearch (it_tree r) (Some (item_ref r)) (f_now a) = (items, err)"
    using lev(1) items by (metis block_def prod.collapse)
  note it = start_dfs_items [OF wf lev(2) dfs]
  have key: "take ?n ?A = ?A" using lev by simp
  have below: "take ?n (item_path i) = ?A" if "i \<in> set items" for i
  proof -
    have "item_path i \<in> item_path ` set items" using that by (rule imageI)
    then obtain q where "item_path i = ?A @ q" unfolding it(4) by blast
    with lev show ?thesis by simp
  qed
  have at: "stored_tree c s q = stored_tree c s ?A" if "take ?n q = ?A" for q s
    using that key by (simp add: stored_tree_def)
  have buf: "(if str_truthy (store_get c w ?k) then ts_deserialize (tser c) (the (store_get c w ?k)) else Inr empty_tree)
      = Inr ?t"
    using rd lev by (auto simp: tree_readable_def stored_tree_def Let_def key)
  then have wft: "wf_tree ?t" using tree_wf by (auto split: if_splits)
  have level: "\<not> it_level i < ?n" if "i \<in> set items" for i
    using follows_level [OF it(2) that] below [OF that] lev by (metis length_take less_irrefl min.absorb3)
  let ?st = "\<lparr>sv_rootTree = ?t, sv_stack = [(it_level r, [])], sv_changed = False, sv_maxTtl = None\<rparr>"
  have outs': "outs = full_steps a out (map (\<lambda>i. tree_offer c a (sv_rootTree ?st) i (below_root ?n i)) items)"
    unfolding outs using level at [OF below] by (simp add: full_offer_def cong: map_cong)
  have ok: "stack_ok ?n [] ?st" using lev by (simp add: stack_ok_def)
  have pre: "length ?A = ?n" "follows (?A @ []) items" "\<forall>i \<in> set items. take ?n (item_path i) = ?A"
      "wf_tree (sv_rootTree ?st)"
    using lev it(2) below wft by simp_all
  obtain st' w1 where run: "saveItems c a ?n items ?st (out, w) = (Inr st', out @ outs, w1)" "w_store w1 = w_store w"
      "wf_tree (sv_rootTree st')"
    and val: "\<forall>(i, s) \<in> set (zip items outs). node_val (sv_rootTree st') (below_root ?n i)
            = written c (fst (tree_node c a (sv_rootTree ?st) i (below_root ?n i))) s"
    and same: "\<forall>q. q \<notin> below_root ?n ` set items \<longrightarrow> node_at (sv_rootTree st') q = node_at (sv_rootTree ?st) q"
    and un: "\<not> sv_changed st' \<longrightarrow> \<not> sv_changed ?st \<and> (\<forall>q. node_val (sv_rootTree st') q = node_val (sv_rootTree ?st) q)"
    using saveItems_follow [OF a pre(1,2) ok it(3) pre(3,4) outs', where w = w]
    by (elim exE conjE) (rule that)
  define w2 where "w2 = (if sv_changed st' then persistTree c ?k (sv_maxTtl st') (sv_rootTree st') w1 else w1)"
  have "saveFullTreeValue c a r ?k (out, w) = (Inr (), out @ outs, w2)"
    using run(1) lev(1) dfs it(1) by (simp add: saveFullTreeValue_def Let_def buf w2_def)
  moreover have "\<not> sv_changed st' \<longrightarrow> (\<forall>q. node_val (sv_rootTree st') q = node_val ?t q)" using un by simp
  note vals = persisted_vals [OF run(3) run(2) key w2_def this]
  moreover have stored: "stored_at c (w_store w2) q = node_val (sv_rootTree st') (drop ?n q)"
    "stored_at c (w_store w) q = node_val ?t (drop ?n q)" if "take ?n q = ?A" for q
    using that at [OF that] vals(2) lev by (auto simp: stored_at_def)
  moreover have "handled c a (w_store w) (w_store w2) items outs"
    unfolding handled_def
  proof clarify
    fix i o' assume i: "(i, o') \<in> set (zip items outs)"
    then have "i \<in> set items" by (rule set_zip_leftD)
    with val i stored(1) [OF below] level at [OF below]
    show "stored_at c (w_store w2) (item_path i) = written c (kept c a (w_store w) i) o'"
      by (auto simp: kept_def)
  qed
  moreover have "stored_at c (w_store w2) q = stored_at c (w_store w) q"
    if q: "take ?n q = ?A" "q \<notin> item_path ` set items" for q
  proof -
    have "drop ?n q \<notin> below_root ?n ` set items"
      using q below by (metis (no_types, lifting) append_take_drop_id imageE imageI)
    with same stored [OF q(1)] show ?thesis by (simp add: node_val_at)
  qed
  ultimately show ?thesis using vals(1) by (intro exI [of _ w2]) auto
qed

text \<open>One round of the loop over the breadth-first search.\<close>

lemma block_result:
  assumes a: "full_resuming a" and lev: "it_level i \<le> keyLevelNodes c" "it_level i = length (item_path i)"
    and wf: "wf_tree (it_tree i)" and rd: "tree_readable c (w_store w) (item_path i)"
    and outs: "outs = full_steps a out (map (full_offer c a (w_store w)) (block (keyLevelNodes c) (f_now a) i))"
  shows "\<exists>w'. guarded cond (join (item_path i)) w (\<lambda>w.
        if it_level i = keyLevelNodes c then saveFullTreeValue c a i (join (item_path i)) (out, w)
        else fullSetStep c a i (join (item_path i)) (out, w)) = (Inr (), out @ outs, w')
    \<and> (\<forall>k. k \<noteq> join (item_path i) \<longrightarrow> store_get c w' k = store_get c w k)
    \<and> handled c a (w_store w) (w_store w') (block (keyLevelNodes c) (f_now a) i) outs
    \<and> (\<forall>q. take (keyLevelNodes c) q = item_path i \<and> q \<notin> item_path ` set (block (keyLevelNodes c) (f_now a) i) \<longrightarrow>
          stored_at c (w_store w') q = stored_at c (w_store w) q)"
proof -
  let ?n = "keyLevelNodes c" and ?k = "join (item_path i)"
  let ?w = "if cond then emit (Acquire ?k) w else w"
  let ?run = "\<lambda>w. if it_level i = ?n then saveFullTreeValue c a i ?k (out, w) else fullSetStep c a i ?k (out, w)"
  have w: "w_store ?w = w_store w" by simp
  have "\<exists>w'. ?run ?w = (Inr (), out @ outs, w')
    \<and> (\<forall>k. k \<noteq> ?k \<longrightarrow> store_get c w' k = store_get c ?w k)
    \<and> handled c a (w_store ?w) (w_store w') (block ?n (f_now a) i) outs
    \<and> (\<forall>q. take ?n q = item_path i \<and> q \<notin> item_path ` set (block ?n (f_now a) i) \<longrightarrow>
          stored_at c (w_store w') q = stored_at c (w_store ?w) q)"
  proof (cases "it_level i = ?n")
    case True
    then show ?thesis
      using saveFullTreeValue_result [OF a True lev(2) wf _ refl, of ?w outs out] rd outs unfolding w by simp
  next
    case False
    then have lt: "it_level i < ?n" using lev(1) by simp
    then have b: "block ?n (f_now a) i = [i]" by (simp add: block_def)
    have "q = item_path i" if "take ?n q = item_path i" for q
    proof -
      have "length (take ?n q) < ?n" unfolding that using lt lev(2) by simp
      then have "take ?n q = q" by simp
      with that show ?thesis by simp
    qed
    moreover have "outs = [full_replied a out (full_offer c a (w_store ?w) i)]" using outs b w by simp
    ultimately show ?thesis
      using fullSetStep_result [OF a lt _ refl lev(2), of out ?w] False by (auto simp: b)
  qed
  then obtain w' where w': "?run ?w = (Inr (), out @ outs, w')"
    and rest: "\<forall>k. k \<noteq> ?k \<longrightarrow> store_get c w' k = store_get c ?w k"
      "handled c a (w_store ?w) (w_store w') (block ?n (f_now a) i) outs"
      "\<forall>q. take ?n q = item_path i \<and> q \<notin> item_path ` set (block ?n (f_now a) i) \<longrightarrow>
          stored_at c (w_store w') q = stored_at c (w_store ?w) q"
    by (elim exE conjE)
  let ?w' = "if cond then emit (ScheduleRelease ?k) w' else w'"
  have "guarded cond ?k w ?run = (Inr (), out @ outs, ?w')"
    using w' by (simp add: guarded_eq)
  moreover have "w_store ?w' = w_store w'" by simp
  ultimately show ?thesis using rest unfolding w by (intro exI [of _ ?w']) simp
qed

text \<open>What is shown and written later does not depend on an earlier round, and the other way round.\<close>

lemma handled_append:
  assumes h1: "handled c a s s1 is1 outs1" and h2: "handled c a s1 s2 is2 outs2" and len: "length outs1 = length is1"
    and off: "\<And>i. i \<in> set is2 \<Longrightarrow> kept c a s1 i = kept c a s i"
    and same: "\<And>i. i \<in> set is1 \<Longrightarrow> stored_at c s2 (item_path i) = stored_at c s1 (item_path i)"
  shows "handled c a s s2 (is1 @ is2) (outs1 @ outs2)"
  unfolding handled_def
proof clarify
  fix i o' assume "(i, o') \<in> set (zip (is1 @ is2) (outs1 @ outs2))"
  then consider "(i, o') \<in> set (zip is1 outs1)" | "(i, o') \<in> set (zip is2 outs2)" using len by auto
  then show "stored_at c s2 (item_path i) = written c (kept c a s i) o'"
  proof cases
    case 1
    with h1 same [OF set_zip_leftD [OF 1]] show ?thesis by (auto simp: handled_def)
  next
    case 2
    with h2 off [OF set_zip_leftD [OF 2]] show ?thesis by (auto simp: handled_def)
  qed
qed

lemma later_blocks:
  assumes "x \<in> set (full_order n now is)" "\<forall>i \<in> set is. it_level i = length (item_path i) \<and> wf_tree (it_tree i)"
  obtains j where "j \<in> set is" "take n (item_path x) = item_path j"
proof -
  obtain j where j: "j \<in> set is" "it_level j \<le> n" "x \<in> set (block n now j)"
    using assms(1) unfolding full_order_def by (auto dest: set_takeWhileD)
  with block_take [OF j(2) _ _ j(3)] assms(2) that show ?thesis by simp
qed

lemma fullTreeItems_result:
  assumes a: "full_resuming a" and n: "0 < keyLevelNodes c"
  shows "order = full_order (keyLevelNodes c) (f_now a) is \<Longrightarrow>
    \<forall>i \<in> set is. it_level i = length (item_path i) \<and> wf_tree (it_tree i) \<and> valid_path (item_path i)
      \<and> (it_level i \<le> keyLevelNodes c \<longrightarrow> tree_readable c (w_store w) (item_path i)) \<Longrightarrow>
    \<forall>x \<in> set order. valid_path (item_path x) \<and> it_level x = length (item_path x) \<Longrightarrow>
    distinct (map item_path is) \<Longrightarrow> distinct (map item_path order) \<Longrightarrow>
    outs = full_steps a out (map (full_offer c a (w_store w)) order) \<Longrightarrow>
    \<exists>w'. fullTreeItems c a is None (out, w) = (Inr (), out @ outs, w')
      \<and> handled c a (w_store w) (w_store w') order outs
      \<and> (\<forall>q. valid_path q \<and> q \<notin> item_path ` set order \<longrightarrow> stored_at c (w_store w') q = stored_at c (w_store w) q)"
proof (induction "is" arbitrary: w out outs order)
  case (Cons i "is")
  let ?n = "keyLevelNodes c" and ?A = "item_path i" and ?B = "block (keyLevelNodes c) (f_now a) i"
  show ?case
  proof (cases "it_level i \<le> ?n")
    case False
    then have "order = []" using Cons.prems(1) by (simp add: full_order_def)
    with False Cons.prems(6) show ?thesis by (simp add: handled_def)
  next
    case True
    define rest where "rest = full_order ?n (f_now a) is"
    have order: "order = ?B @ rest" using Cons.prems(1) True by (simp add: full_order_def rest_def)
    have i: "it_level i = length ?A" "wf_tree (it_tree i)" "valid_path ?A" "tree_readable c (w_store w) ?A"
      using Cons.prems(2) True by simp_all
    define outs1 where "outs1 = full_steps a out (map (full_offer c a (w_store w)) ?B)"
    obtain w1 where run1: "guarded (f_minLevelSemaphore a \<le> it_level i) (join ?A) w (\<lambda>w.
        if it_level i = ?n then saveFullTreeValue c a i (join ?A) (out, w) else fullSetStep c a i (join ?A) (out, w))
        = (Inr (), out @ outs1, w1)"
      and get1: "\<forall>k. k \<noteq> join ?A \<longrightarrow> store_get c w1 k = store_get c w k"
      and h1: "handled c a (w_store w) (w_store w1) ?B outs1"
      and same1: "\<forall>q. take ?n q = ?A \<and> q \<notin> item_path ` set ?B \<longrightarrow> stored_at c (w_store w1) q = stored_at c (w_store w) q"
      using block_result [OF a True i(1,2,4) outs1_def, of "f_minLevelSemaphore a \<le> it_level i"]
      by (elim exE conjE) (rule that)
    have apart: "store_get c w1 (join (take ?n q)) = store_get c w (join (take ?n q))"
      if "valid_path q" "take ?n q \<noteq> ?A" for q
      using get1 that storage_key_eq [of q ?A "length ?A" ?n] i True n by (auto simp: valid_path_def)
    have distinct_path: "item_path j \<noteq> ?A" if "j \<in> set is" for j
      using that Cons.prems(4) by (auto simp: image_iff)
    have later: "valid_path (item_path x) \<and> take ?n (item_path x) \<noteq> ?A \<and> it_level x = length (item_path x)"
      if x: "x \<in> set rest" for x
    proof -
      obtain j where j: "j \<in> set is" "take ?n (item_path x) = item_path j"
        using later_blocks [OF x [unfolded rest_def]] Cons.prems(2) by auto
      with distinct_path [OF j(1)] x Cons.prems(3) order show ?thesis by simp
    qed
    have off: "full_offer c a (w_store w1) x = full_offer c a (w_store w) x" "kept c a (w_store w1) x = kept c a (w_store w) x"
      if "x \<in> set rest" for x
      using offer_cong [OF apart] later [OF that] by blast+
    define outs2 where "outs2 = full_steps a (out @ outs1) (map (full_offer c a (w_store w1)) rest)"
    have outs: "outs = outs1 @ outs2"
      using off(1) unfolding Cons.prems(6) order outs1_def outs2_def by (simp add: full_steps_append cong: map_cong)
    have pre: "\<forall>j \<in> set is. it_level j = length (item_path j) \<and> wf_tree (it_tree j) \<and> valid_path (item_path j)
        \<and> (it_level j \<le> ?n \<longrightarrow> tree_readable c (w_store w1) (item_path j))"
    proof (intro ballI conjI impI)
      fix j assume j: "j \<in> set is"
      then show here: "it_level j = length (item_path j)" "wf_tree (it_tree j)" "valid_path (item_path j)"
        using Cons.prems(2) by simp_all
      assume "it_level j \<le> ?n"
      with j Cons.prems(2) have "tree_readable c (w_store w) (item_path j)" "take ?n (item_path j) = item_path j" by simp_all
      with apart [of "item_path j"] here distinct_path [OF j]
      show "tree_readable c (w_store w1) (item_path j)" by (simp add: tree_readable_def)
    qed
    have pre2: "\<forall>x \<in> set rest. valid_path (item_path x) \<and> it_level x = length (item_path x)"
      "distinct (map item_path is)" "distinct (map item_path rest)"
      using later Cons.prems(4,5) order by simp_all
    obtain w2 where run2: "fullTreeItems c a is None (out @ outs1, w1) = (Inr (), (out @ outs1) @ outs2, w2)"
      and h2: "handled c a (w_store w1) (w_store w2) rest outs2"
      and same2: "\<forall>q. valid_path q \<and> q \<notin> item_path ` set rest \<longrightarrow> stored_at c (w_store w2) q = stored_at c (w_store w1) q"
      using Cons.IH [OF rest_def pre pre2 outs2_def] by (elim exE conjE) (rule that)
    have key: "buildKey (item_ref i) = join ?A" by (simp add: buildKey_eq)
    have "fullTreeItems c a (i # is) None (out, w) = (Inr (), out @ outs, w2)"
      using True run1 run2 by (simp add: key outs Let_def cong: if_cong)
    moreover have "handled c a (w_store w) (w_store w2) order outs"
      unfolding order outs
    proof (rule handled_append [OF h1 h2 _ off(2)])
      fix x assume x: "x \<in> set ?B"
      then have "item_path x \<notin> item_path ` set rest" using Cons.prems(5) order by auto
      with x Cons.prems(3) order same2 show "stored_at c (w_store w2) (item_path x) = stored_at c (w_store w1) (item_path x)"
        by simp
    qed (simp add: outs1_def)
    moreover have "stored_at c (w_store w2) q = stored_at c (w_store w) q"
      if q: "valid_path q" "q \<notin> item_path ` set order" for q
    proof -
      have "stored_at c (w_store w1) q = stored_at c (w_store w) q"
        using q order same1 stored_at_cong [OF apart [OF q(1)]] by (cases "take ?n q = ?A") auto
      with same2 q order show ?thesis by (simp add: image_Un)
    qed
    ultimately show ?thesis by blast
  qed
qed (simp add: full_order_def handled_def)

end

section \<open>The order of the items\<close>

lemma takeWhile_sorted:
  fixes f :: "'x \<Rightarrow> 'n :: linorder"
  shows "sorted (map f xs) \<Longrightarrow> takeWhile (\<lambda>x. f x \<le> n) xs = filter (\<lambda>x. f x \<le> n) xs"
proof (induction xs)
  case (Cons x xs)
  show ?case
  proof (cases "f x \<le> n")
    case False
    with Cons.prems have "filter (\<lambda>x. f x \<le> n) xs = []" by (auto simp: filter_empty_conv)
    with False show ?thesis by simp
  qed (use Cons in simp)
qed simp

lemma distinct_blocks:
  "distinct (map item_path is) \<Longrightarrow>
   \<forall>i \<in> set is. distinct (map item_path (f i)) \<and> (\<forall>x \<in> set (f i). take n (item_path x) = item_path i) \<Longrightarrow>
   distinct (map item_path (concat (map f is)))"
proof (induction "is")
  case (Cons i "is")
  have "item_path x \<noteq> item_path y" if "x \<in> set (f i)" "j \<in> set is" "y \<in> set (f j)" for x y j
  proof
    assume "item_path x = item_path y"
    with that Cons.prems(2) have "item_path i = item_path j" by (metis list.set_intros)
    with that(2) Cons.prems(1) show False by (auto simp: image_iff)
  qed
  with Cons show ?case by auto
qed simp

lemma full_order_nodes:
  fixes tree :: "'v tree"
  assumes wf: "wf_tree tree" and "is = fst (treePreOrderBreadthFirstSearch tree None now)" "order = full_order n now is"
  shows "\<forall>i \<in> set is. it_level i = length (item_path i) \<and> wf_tree (it_tree i)
      \<and> item_path i \<noteq> [] \<and> tree_lookup tree (item_path i) = Some (it_tree i)"
    and "distinct (map item_path is)" "distinct (map item_path order)"
    and "\<forall>x \<in> set order. it_level x = length (item_path x)"
    and "0 < n \<Longrightarrow> item_path ` set order = {q. q \<noteq> [] \<and> tree_lookup tree q \<noteq> None}"
proof -
  have vis: "mset (map item_node is) = visited None tree" using bfs_visits assms(2) by metis
  note nodes = visited_paths(1) [OF wf vis]
  show d: "distinct (map item_path is)" using visited_paths(2) [OF wf vis] by (simp add: comp_def)
  have "it_level i = length (item_path i)" if "i \<in> set is" for i
    using wf_search_items(2) [of None i tree now] that assms(2) wf_chain_level [of "item_ref i"]
    by (simp add: wf_ref_def wf_item_def)
  moreover have at: "item_path i \<noteq> [] \<and> tree_lookup tree (item_path i) = Some (it_tree i)" if "i \<in> set is" for i
  proof -
    have "item_node i \<in> set (map item_node is)" using that by simp
    then show ?thesis unfolding nodes by (auto simp: item_node_def)
  qed
  ultimately show top: "\<forall>i \<in> set is. it_level i = length (item_path i) \<and> wf_tree (it_tree i)
      \<and> item_path i \<noteq> [] \<and> tree_lookup tree (item_path i) = Some (it_tree i)"
    using wf_tree_lookup [OF wf] by blast
  have sorted: "sorted (map it_level is)" using bfs_order_sorted assms(2) by metis
  let ?top = "filter (\<lambda>i. it_level i \<le> n) is"
  have order: "order = concat (map (block n now) ?top)"
    using takeWhile_sorted [OF sorted, of n] assms(3) by (simp add: full_order_def)
  have block: "distinct (map item_path (block n now i)) \<and> (\<forall>x \<in> set (block n now i). take n (item_path x) = item_path i
        \<and> it_level x = length (item_path x))
      \<and> item_path ` set (block n now i) = (if it_level i = n then {item_path i @ q | q. tree_lookup (it_tree i) q \<noteq> None} else {item_path i})"
    if i: "i \<in> set ?top" for i
  proof -
    have p: "it_level i \<le> n" "it_level i = length (item_path i)" "wf_tree (it_tree i)" using top i by auto
    obtain items err where dfs: "treePreOrderDepthFirstSearch (it_tree i) (Some (item_ref i)) now = (items, err)" by fastforce
    note it = start_dfs_items [OF p(3,2) dfs]
    show ?thesis
      using it follows_level [OF it(2)] block_take [OF p] p(2) dfs by (simp add: block_def)
  qed
  show "distinct (map item_path order)"
    unfolding order using d block by (intro distinct_blocks [where n = n]) (auto simp: distinct_map_filter)
  show "\<forall>x \<in> set order. it_level x = length (item_path x)" unfolding order using block by auto
  show "item_path ` set order = {q. q \<noteq> [] \<and> tree_lookup tree q \<noteq> None}" if n: "0 < n"
  proof (intro equalityI subsetI)
    fix q assume "q \<in> item_path ` set order"
    then obtain i where i: "i \<in> set ?top" "q \<in> item_path ` set (block n now i)" unfolding order by auto
    then obtain r where "q = item_path i @ r" "tree_lookup (it_tree i) r \<noteq> None"
      using block [OF i(1)] by (cases "it_level i = n") (auto intro: that [of "[]"])
    with at [of i] i(1) show "q \<in> {q. q \<noteq> [] \<and> tree_lookup tree q \<noteq> None}"
      by (simp add: tree_lookup_append)
  next
    fix q assume "q \<in> {q. q \<noteq> [] \<and> tree_lookup tree q \<noteq> None}"
    then have q: "q \<noteq> []" "tree_lookup tree (take n q @ drop n q) \<noteq> None" by simp_all
    then obtain u where u: "tree_lookup tree (take n q) = Some u" "tree_lookup u (drop n q) \<noteq> None"
      unfolding tree_lookup_append by (auto split: option.splits)
    have "(take n q, u) \<in> set (map item_node is)" unfolding nodes using u(1) q(1) n by auto
    then obtain i where i: "i \<in> set is" "item_path i = take n q" "it_tree i = u" by (auto simp: item_node_def)
    then have top_i: "i \<in> set ?top" using top by simp
    have "q \<in> item_path ` set (block n now i)"
    proof (cases "it_level i = n")
      case True
      with block [OF top_i] i u(2) show ?thesis by (auto intro: exI [of _ "drop n q"])
    next
      case False
      with top i have "take n q = q" by auto
      with block [OF top_i] False i show ?thesis by simp
    qed
    with top_i show "q \<in> item_path ` set order" unfolding order by auto
  qed
qed

context lawful_cache
begin

lemma fullTreeSet_result:
  assumes a: "full_resuming a" and n: "0 < keyLevelNodes c" and wf: "wf_tree tree"
    and valid: "\<And>q. q \<noteq> [] \<Longrightarrow> tree_lookup tree q \<noteq> None \<Longrightarrow> valid_path q"
    and rd: "\<And>q. length q = keyLevelNodes c \<Longrightarrow> tree_lookup tree q \<noteq> None \<Longrightarrow> tree_readable c (w_store w) q"
    and order: "order = full_order (keyLevelNodes c) (f_now a) (fst (treePreOrderBreadthFirstSearch tree None (f_now a)))"
    and outs: "outs = full_steps a [] (map (full_offer c a (w_store w)) order)"
  shows "\<exists>w'. fullTreeSet c a tree ([], w) = (Inr (), outs, w')
    \<and> handled c a (w_store w) (w_store w') order outs
    \<and> (\<forall>q. valid_path q \<and> tree_lookup tree q = None \<longrightarrow> stored_at c (w_store w') q = stored_at c (w_store w) q)"
proof -
  let ?n = "keyLevelNodes c"
  obtain "is" err where bfs: "treePreOrderBreadthFirstSearch tree None (f_now a) = (is, err)" by fastforce
  then have err: "err = None" by (simp add: bfs_order)
  have items: "is = fst (treePreOrderBreadthFirstSearch tree None (f_now a))" and order': "order = full_order ?n (f_now a) is"
    using bfs order by simp_all
  note nodes = full_order_nodes [OF wf items order']
  have pre: "\<forall>i \<in> set is. it_level i = length (item_path i) \<and> wf_tree (it_tree i) \<and> valid_path (item_path i)
      \<and> (it_level i \<le> ?n \<longrightarrow> tree_readable c (w_store w) (item_path i))"
  proof (intro ballI conjI impI)
    fix i assume "i \<in> set is"
    with nodes(1) have i: "it_level i = length (item_path i)" "wf_tree (it_tree i)" "item_path i \<noteq> []"
      "tree_lookup tree (item_path i) \<noteq> None" by auto
    then show "it_level i = length (item_path i)" "wf_tree (it_tree i)" "valid_path (item_path i)"
      using valid by simp_all
    assume "it_level i \<le> ?n"
    with i rd [of "item_path i"] show "tree_readable c (w_store w) (item_path i)"
      by (cases "it_level i = ?n") (simp_all add: tree_readable_def)
  qed
  have "valid_path (item_path x)" if "x \<in> set order" for x
  proof -
    have "item_path x \<in> item_path ` set order" using that by (rule imageI)
    then show ?thesis unfolding nodes(5) [OF n] using valid by blast
  qed
  then have pre2: "\<forall>x \<in> set order. valid_path (item_path x) \<and> it_level x = length (item_path x)" using nodes(4) by blast
  obtain w' where "fullTreeItems c a is None ([], w) = (Inr (), [] @ outs, w')"
    "handled c a (w_store w) (w_store w') order outs"
    "\<forall>q. valid_path q \<and> q \<notin> item_path ` set order \<longrightarrow> stored_at c (w_store w') q = stored_at c (w_store w) q"
    using fullTreeItems_result [OF a n order' pre pre2 nodes(2,3) outs] by (elim exE conjE) (rule that)
  then show ?thesis
    unfolding nodes(5) [OF n] by (intro exI [of _ w']) (auto simp: fullTreeSet_def bfs err)
qed

end

end
