(* ===== verification/Cache_Generators.thy ===== *)
theory Cache_Generators
  imports Cache_Writes
begin

text \<open>
  Relations between the world before and after a run of a generator. A run may end in any way: by
  itself, by an error, or because the caller's loop body leaves it. The locale \<open>world_rel\<close> has the
  rules that follow the composition of generators for every relation that is reflexive and
  transitive. The locale \<open>reading_rel\<close> adds that reporting a deserialization error is allowed; the
  parts of \<open>deepTreeSet\<close> and \<open>fullTreeSet\<close> that work on a tree in memory do nothing else to the
  world, so they keep every such relation.
\<close>

definition gen_rel :: "('w \<Rightarrow> 'w \<Rightarrow> bool) \<Rightarrow> 'w \<Rightarrow> ('x, 'i, 'w) gen \<Rightarrow> bool" where
  "gen_rel R w r \<longleftrightarrow> R w (snd (snd r))"

lemma gen_rel_pair [simp]: "gen_rel R w (r, out, w') \<longleftrightarrow> R w w'"
  by (simp add: gen_rel_def)

lemma gen_rel_mono: "gen_rel R w r \<Longrightarrow> (\<And>w'. R w w' \<Longrightarrow> S w w') \<Longrightarrow> gen_rel S w r"
  by (simp add: gen_rel_def)

lemma keyStep_key: "keyStep c a level ck ref g = (Inr (ck', ref'), g') \<Longrightarrow> \<exists>k. getChainedKey (a_path a) level ck = Inr (ck', k)"
  by (cases g; cases "getChainedKey (a_path a) level ck")
    (auto simp: keyStep_def guarded_eq Let_def and_then_def split: prod.splits sum.splits)

locale world_rel =
  fixes R :: "'w \<Rightarrow> 'w \<Rightarrow> bool"
  assumes rel_refl: "R w w" and rel_trans: "R w w1 \<Longrightarrow> R w1 w2 \<Longrightarrow> R w w2"
begin

lemma rel_bind:
  assumes "gen_rel R w r" "\<And>x out w'. r = (Inr x, out, w') \<Longrightarrow> gen_rel R w' (f x (out, w'))"
  shows "gen_rel R w (and_then r f)"
proof -
  obtain h out w' where r: "r = (h, out, w')" by (cases r)
  show ?thesis
  proof (cases h)
    case (Inr x)
    with r assms rel_trans [of w w' "snd (snd (f x (out, w')))"] show ?thesis
      by (auto simp: gen_rel_def)
  qed (use r assms(1) in simp)
qed

lemma rel_yielded: "R w w' \<Longrightarrow> gen_rel R w (yield_item body step (out, w'))"
  by (auto simp: yield_item_def split: reply.splits)

lemma rel_called: "R w (snd r) \<Longrightarrow> gen_rel R w (call r out)"
  by (auto simp: call_def split: prod.splits sum.splits)

end

locale reading_rel = world_rel R
  for R :: "('s, 'm) world \<Rightarrow> ('s, 'm) world \<Rightarrow> bool" +
  assumes rel_report: "R w (emit (DeserializeError e k) w)"
begin

lemma rel_deserializeValue: "R w (snd (deserializeValue c sv w))"
  by (cases "(c, sv, w)" rule: deserializeValue.cases)
    (auto simp: deserializeAsyncList_def deserializeList_def rel_report rel_refl
      split: option.splits sum.splits)

lemma rel_getStep: "R w (snd (getStep c sv ref f w))"
  using rel_deserializeValue [of w c "the sv"]
  by (cases "deserializeValue c (the sv) w"; cases "fst (deserializeValue c (the sv) w)")
    (auto simp: getStep_def rel_refl split: option.splits)

lemma rel_visitNode: "gen_rel R (snd g) (visitNode c a ref cs g)"
  unfolding visitNode_def by (intro rel_bind rel_called rel_getStep rel_yielded rel_refl)

lemma rel_treeLoop: "gen_rel R (snd g) (treeLoop c a level key ref t ch m g)"
proof (induction "length (a_path a) - level" arbitrary: level key ref t ch m g rule: less_induct)
  case less
  show ?case
    unfolding treeLoop.simps [of c a level key ref t ch m g] Let_def
  proof (rule rel_bind [OF rel_visitNode], goal_cases)
    case (1 step out w)
    have rec: "gen_rel R w (treeLoop c a (Suc level) key' ref' t' ch' m' (out, w))"
      if "getKey (a_path a) level = Inr key'" for key' ref' t' ch' m'
      using less [of "Suc level" "(out, w)" key' ref' t' ch' m'] that by (auto simp: getKey_Inr_iff)
    show ?case
      by (auto split: prod.splits sum.splits intro!: rel_refl rel_bind rec)
  qed
qed

lemma rel_getFullSetItem: "R w (snd (getFullSetItem c t i now w))"
proof -
  let ?r = "if str_truthy (getTreeCurrentSerializedValue t now)
     then deserializeValue c (TreeValue (Single (the (getTreeCurrentSerializedValue t now)))) w else (Inr None, w)"
  have "R w (snd ?r)"
    by (simp add: rel_deserializeValue rel_refl del: deserializeValue.simps)
  then show ?thesis
    unfolding getFullSetItem_def Let_def
    by (cases ?r; cases "fst ?r") (auto simp del: deserializeValue.simps)
qed

lemma rel_saveItem: "gen_rel R (snd g) (saveItem c a l i st g)"
  unfolding saveItem_def
  by (cases g) (auto intro!: rel_refl rel_bind rel_called rel_getFullSetItem rel_yielded
      split: prod.splits sum.splits option.splits)

lemma rel_saveItems: "gen_rel R (snd g) (saveItems c a l ns st g)"
proof (induction ns arbitrary: st g)
  case (Cons i ns)
  then show ?case by (auto intro!: rel_bind rel_saveItem)
qed (auto simp: gen_rel_def rel_refl)

end

end
