(* ===== verification/Cache_Invariant.thy ===== *)
theory Cache_Invariant
  imports Cache_FullSet Cache_Generators
begin

text \<open>
  An invariant of the storage under every sequence of writing and maintenance operations, whatever
  the callers' loop bodies do and whichever errors occur: what is stored under the key of a tree can
  be deserialized. It is the hypothesis of the theorems on single operations. Every operation is
  shown to change such keys only by storing the serialization of a well-formed tree; the rules of
  \<open>world_rel\<close> carry this along the composition of the generators.
\<close>

section \<open>Changes at the keys of trees\<close>

definition tree_write :: "('v, 's, 'm) cache \<Rightarrow> ('s, 'm) world \<Rightarrow> ('s, 'm) world \<Rightarrow> bool" where
  "tree_write c w w' \<longleftrightarrow> (\<forall>p. valid_path p \<and> length p = keyLevelNodes c \<longrightarrow>
     store_get c w' (join p) = store_get c w (join p)
     \<or> (\<exists>t. wf_tree t \<and> store_get c w' (join p) = Some (ts_serialize (tser c) t)))"

interpretation tree_writes: reading_rel "tree_write c" for c
proof
  fix w w1 w2 assume "tree_write c w w1" "tree_write c w1 w2"
  then show "tree_write c w w2" by (simp add: tree_write_def) metis
qed (simp_all add: tree_write_def)

lemma tree_write_same: "(\<And>k. store_get c w' k = store_get c w k) \<Longrightarrow> tree_write c w w'"
  by (simp add: tree_write_def)

lemma tree_write_emit [simp]: "tree_write c w (emit e w)"
  by (simp add: tree_write_def)

lemma tree_write_guarded:
  assumes "\<And>w. gen_rel (tree_write c) w (body w)"
  shows "gen_rel (tree_write c) w (guarded cond k w body)"
proof -
  let ?w = "if cond then emit (Acquire k) w else w"
  obtain r out w' where b: "body ?w = (r, out, w')" by (cases "body ?w")
  with assms [of ?w] have "tree_write c ?w w'" by simp
  then have "tree_write c w (if cond then emit (ScheduleRelease k) w' else w')"
    by (cases cond) (simp_all add: tree_write_def)
  with b show ?thesis by (simp add: guarded_eq)
qed

section \<open>The trees that are written are well formed\<close>

lemma enrichTree_wf: "enrichTree c step cs t ttl now m = (t', ch, m') \<Longrightarrow> wf_tree t' = wf_tree t"
  by (auto simp: enrichTree_def Let_def split: option.splits if_splits prod.splits)

lemma treeLoop_wf:
  "treeLoop c a level key ref t ch m g = (Inr (t', ch', m'), g') \<Longrightarrow> wf_tree t \<Longrightarrow> wf_tree t'"
proof (induction "length (a_path a) - level" arbitrary: level key ref t ch m g t' ch' m' g' rule: less_induct)
  case less
  let ?cs = "getTreeCurrentSerializedValue t (a_now a)"
  obtain r g1 where v: "visitNode c a (ChainedObject key level ref) ?cs g = (r, g1)" by (rule prod.exhaust)
  then obtain step where r: "r = Inr step"
    using less.prems(1) by (subst (asm) treeLoop.simps) (cases r; simp add: Let_def)
  show ?case
  proof (cases "level \<le> length (a_path a) - 1")
    case False
    obtain cur m1 where tt: "getTtl (a_ttl a) step m = (cur, m1)" by fastforce
    obtain t1 c1 m2 where e: "enrichTree c step ?cs t (map_option TtlNumber cur) (a_now a) m1 = (t1, c1, m2)"
      by (metis prod_cases3)
    have "t' = t1"
      using less.prems(1) False v r tt e by (subst (asm) treeLoop.simps) (simp add: Let_def)
    then show ?thesis using enrichTree_wf [OF e] less.prems(2) by simp
  next
    case True
    obtain t1 c1 m1 where e: "enrichTree c step ?cs t None (a_now a) m = (t1, c1, m1)" by (metis prod_cases3)
    have wf1: "wf_tree t1" using enrichTree_wf [OF e] less.prems(2) by simp
    obtain k where k: "getKey (a_path a) level = Inr k"
      using less.prems(1) True v r e
      by (subst (asm) treeLoop.simps) (cases "getKey (a_path a) level"; simp add: Let_def)
    let ?next = "case tree_child t1 k of None \<Rightarrow> empty_tree | Some t \<Rightarrow> t"
    obtain h g2 where rec: "treeLoop c a (Suc level) k (Some (ChainedObject key level ref)) ?next
        (ch \<or> c1 \<or> tree_child t1 k = None) m1 g1 = (h, g2)" by (rule prod.exhaust)
    then obtain sub c2 m2 where h: "h = Inr (sub, c2, m2)" and t': "t' = put_child k sub t1"
      using less.prems(1) True v r e k by (subst (asm) treeLoop.simps) (cases h; auto simp: Let_def)
    have "wf_tree ?next" using wf1 by (auto dest: wf_tree_child split: option.splits)
    then have "wf_tree sub"
      using less.hyps [of "Suc level", OF _ rec [unfolded h]] k by (auto simp: getKey_Inr_iff)
    with wf1 t' show ?thesis by simp
  qed
qed

lemma wf_tree_replace: "wf_tree t \<Longrightarrow> wf_tree u \<Longrightarrow> wf_tree (tree_replace p u t)"
  by (induction p arbitrary: t) (auto split: option.splits intro!: wf_tree_put dest: wf_tree_child)

lemma check_wf: "checkFullSetItemChange c s u = (ch, u') \<Longrightarrow> wf_tree u \<Longrightarrow> wf_tree u'"
  by (auto simp: checkFullSetItemChange_def Let_def split: option.splits if_splits)

lemma enterNode_wf:
  "enterNode c a n i st = Inr (p, st') \<Longrightarrow> wf_tree (sv_rootTree st) \<Longrightarrow> wf_tree (sv_rootTree st')"
  by (auto simp: enterNode_def intro: nextOrCreate_node(2) split: if_splits option.splits prod.splits)

lemma saveItem_wf:
  assumes "saveItem c a n i st g = (Inr st', g')" "wf_tree (sv_rootTree st)"
  shows "wf_tree (sv_rootTree st')"
proof -
  obtain p st1 where e: "enterNode c a n i st = Inr (p, st1)"
    using assms(1) by (cases "enterNode c a n i st") (auto simp: saveItem_def)
  obtain u where u: "tree_lookup (sv_rootTree st1) p = Some u"
    using assms(1) e by (cases "tree_lookup (sv_rootTree st1) p") (auto simp: saveItem_def)
  obtain s ch u' where "checkFullSetItemChange c s u = (ch, u')" "sv_rootTree st' = tree_replace p u' (sv_rootTree st1)"
    using assms(1) e u
    by (auto simp: saveItem_def and_then_def split: sum.splits prod.splits)
  moreover have wf1: "wf_tree (sv_rootTree st1)" using enterNode_wf [OF e assms(2)] .
  ultimately show ?thesis by (simp add: wf_tree_replace check_wf [OF _ wf_tree_lookup [OF wf1 u]])
qed

lemma saveItems_wf:
  "saveItems c a n is st g = (Inr st', g') \<Longrightarrow> wf_tree (sv_rootTree st) \<Longrightarrow> wf_tree (sv_rootTree st')"
proof (induction "is" arbitrary: st g)
  case (Cons i "is")
  obtain r g1 where one: "saveItem c a n i st g = (r, g1)" by (rule prod.exhaust)
  with Cons.prems(1) obtain st1 where r: "r = Inr st1" by (cases r) auto
  from Cons.prems one r have "saveItems c a n is st1 g1 = (Inr st', g')" by simp
  from Cons.IH [OF this] saveItem_wf [OF one [unfolded r]] Cons.prems(2) show ?case by simp
qed simp

section \<open>Every operation\<close>

context lawful_cache
begin

lemma tree_write_register [simp]: "tree_write c w (registerChild c p k w)"
  by (rule tree_write_same) simp

lemma tree_write_persistTree: "wf_tree t \<Longrightarrow> tree_write c w (persistTree c k ttl t w)"
  by (auto simp: tree_write_def get_persistTree)

lemma tree_write_persistStep:
  assumes "valid_path q" "0 < l" "l \<le> length q" "l < keyLevelNodes c"
  shows "tree_write c w (persistStep c st cs (join (take l q)) ttl w)"
  unfolding tree_write_def
proof (intro allI impI disjI1)
  fix p assume p: "valid_path p \<and> length p = keyLevelNodes c"
  have "take (keyLevelNodes c) p \<noteq> take l q"
  proof
    assume "take (keyLevelNodes c) p = take l q"
    then have "length (take (keyLevelNodes c) p) = length (take l q)" by simp
    with p assms(3,4) show False by simp
  qed
  then have "join (take (keyLevelNodes c) p) \<noteq> join (take l q)"
    using storage_key_eq [of p q l "keyLevelNodes c"] assms p by (simp add: valid_path_def)
  then show "store_get c (persistStep c st cs (join (take l q)) ttl w) (join p) = store_get c w (join p)"
    using p by (intro persistStep_get(2)) simp
qed

lemma tree_write_keyStep:
  assumes "valid_path (a_path a)" "l < length (a_path a)" "Suc l < keyLevelNodes c"
  shows "gen_rel (tree_write c) (snd g) (keyStep c a l (chained_key (a_path a) l) ref g)"
proof -
  obtain out w where g: "g = (out, w)" by (cases g)
  let ?k = "join (take (Suc l) (a_path a))"
  have next_key: "getChainedKey (a_path a) l (chained_key (a_path a) l) = Inr (?k, a_path a ! l)"
    using assms by (intro getChainedKey_next) (auto simp: valid_path_def)
  have "gen_rel (tree_write c) w1 (and_then (visitNode c a r cs (out, w1)) (\<lambda>step (out, w).
      (Inr (?k, r), out, persistStep c step cs ?k (a_ttl a) w)))" for w1 r cs
    using assms tree_write_persistStep
    by (intro tree_writes.rel_bind tree_writes.rel_visitNode [where g = "(out, w1)", simplified])
      (auto split: prod.splits)
  then have "gen_rel (tree_write c) w1 (guarded b ?k w1 (\<lambda>w. let currentSerialized = store_get c w ?k;
        ref = ChainedObject (a_path a ! l) (l + 1) ref
      in and_then (visitNode c a ref currentSerialized (out, w)) (\<lambda>step (out, w).
           (Inr (?k, ref), out, persistStep c step currentSerialized ?k (a_ttl a) w))))" for b w1
    by (intro tree_write_guarded) (simp add: Let_def)
  then show ?thesis
    using tree_writes.rel_trans [OF tree_write_register]
    unfolding keyStep_def g prod.case next_key sum.case gen_rel_def snd_conv by blast
qed

lemma tree_write_keyLoop:
  assumes p: "valid_path (a_path a)" and u: "upTo \<le> length (a_path a)" "upTo < keyLevelNodes c"
  shows "gen_rel (tree_write c) (snd g) (keyLoop c a upTo l (chained_key (a_path a) l) ref g)"
proof (induction "upTo - l" arbitrary: l ref g)
  case 0
  then show ?case by (subst keyLoop.simps) (simp add: gen_rel_def tree_writes.rel_refl)
next
  case (Suc n)
  then have l: "l < upTo" "l < length (a_path a)" "Suc l < keyLevelNodes c" "n = upTo - Suc l" using u by auto
  have "gen_rel (tree_write c) (snd g) (and_then (keyStep c a l (chained_key (a_path a) l) ref g)
      (\<lambda>(ck, ref) g. keyLoop c a upTo (Suc l) (Some ck) (Some ref) g))"
  proof (rule tree_writes.rel_bind [OF tree_write_keyStep [OF p l(2,3)]], goal_cases)
    case (1 x out w)
    obtain ck r where x: "x = (ck, r)" by (cases x)
    from 1 x obtain k where "getChainedKey (a_path a) l (chained_key (a_path a) l) = Inr (ck, k)"
      by (auto dest: keyStep_key)
    with getChainedKey_next [OF l(2)] p have "Some ck = chained_key (a_path a) (Suc l)"
      by (auto simp: valid_path_def)
    with Suc.hyps(1) [OF l(4), of "(out, w)" "Some r"] x show ?case by simp
  qed
  then show ?case using l(1) by (subst keyLoop.simps) simp
qed

lemma tree_write_treePart:
  "gen_rel (tree_write c) w
     (let buffer = store_get c w ck in
      case (if str_truthy buffer then ts_deserialize (tser c) (the buffer) else Inr empty_tree) of
        Inl e \<Rightarrow> (Inl (Threw e), out, w)
      | Inr rootTree \<Rightarrow>
          and_then (treeLoop c a l key nodeRef rootTree False None (out, w))
            (\<lambda>(tree, changed, maxTtl) (out, w). (Inr (), out, if changed then persistTree c ck maxTtl tree w else w)))"
proof (cases "if str_truthy (store_get c w ck) then ts_deserialize (tser c) (the (store_get c w ck)) else Inr empty_tree")
  case (Inl e)
  then show ?thesis by (simp add: Let_def tree_writes.rel_refl split del: if_split)
next
  case (Inr t)
  then have wf: "wf_tree t" using tree_wf by (auto split: if_splits)
  have "gen_rel (tree_write c) w (and_then (treeLoop c a l key nodeRef t False None (out, w))
      (\<lambda>(tree, changed, maxTtl) (out, w). (Inr (), out, if changed then persistTree c ck maxTtl tree w else w)))"
    by (rule tree_writes.rel_bind [OF tree_writes.rel_treeLoop [where g = "(out, w)", simplified]])
      (auto intro!: tree_write_persistTree tree_writes.rel_refl treeLoop_wf [OF _ wf] split: prod.splits)
  with Inr show ?thesis by (simp add: Let_def split del: if_split)
qed

lemma tree_write_deepTreeSet:
  assumes "valid_path (a_path a)" "0 < keyLevelNodes c"
  shows "gen_rel (tree_write c) (snd g) (deepTreeSet c a [] g)"
  unfolding deepTreeSet_def Let_def
proof (rule tree_writes.rel_bind, goal_cases)
  case 1
  show ?case using tree_write_keyLoop [OF assms(1), of "min (keyLevelNodes c - 1) (length (a_path a))" g 0] assms(2) by simp
next
  case (2 x out w)
  show ?case
    by (auto intro!: tree_writes.rel_refl tree_write_guarded tree_write_treePart [unfolded Let_def]
        split: prod.splits sum.splits)
qed

lemma tree_write_setNode:
  "valid_path path \<Longrightarrow> 0 < keyLevelNodes c \<Longrightarrow> tree_write c w (snd (setNode c path value ttl now w))"
  using tree_write_deepTreeSet [of "setNodeArgs path value ttl now" "([], w)"]
  by (auto simp: setNode_def gen_rel_def setNodeArgs_def tree_writes.rel_refl
      split: nodeValue.splits option.splits prod.splits sum.splits halt.splits)

lemma tree_write_fullSetStep:
  assumes "valid_path (item_path i)" "length (item_path i) < keyLevelNodes c"
  shows "gen_rel (tree_write c) w (fullSetStep c a i (join (item_path i)) (out, w))"
proof -
  let ?k = "join (item_path i)"
  have reg: "tree_write c w (registerKeyLevelChildren c i ?k w)" by (rule tree_write_same) simp
  have "tree_write c w1 (persistStep c st cs ?k ttl w1)" for w1 st cs ttl
    using tree_write_persistStep [of "item_path i" "length (item_path i)"] assms by (simp add: valid_path_def)
  then show ?thesis
    unfolding fullSetStep_def Let_def prod.case
    by (intro tree_writes.rel_bind tree_writes.rel_called tree_writes.rel_trans [OF reg tree_writes.rel_getStep])
      (auto intro!: tree_writes.rel_yielded tree_writes.rel_refl)
qed

lemma tree_write_saveFullTreeValue: "gen_rel (tree_write c) w (saveFullTreeValue c a i k (out, w))"
proof (cases "if str_truthy (store_get c w k) then ts_deserialize (tser c) (the (store_get c w k)) else Inr empty_tree")
  case (Inl e)
  then show ?thesis by (simp add: saveFullTreeValue_def Let_def tree_writes.rel_refl split del: if_split)
next
  case (Inr t)
  then have wf: "wf_tree t" using tree_wf by (auto split: if_splits)
  obtain items err where dfs: "treePreOrderDepthFirstSearch (it_tree i) (Some (item_ref i)) (f_now a) = (items, err)"
    by (rule prod.exhaust)
  let ?st = "\<lparr>sv_rootTree = t, sv_stack = [(it_level i, [])], sv_changed = False, sv_maxTtl = None\<rparr>"
  have wft: "wf_tree (sv_rootTree ?st)" using wf by simp
  have "gen_rel (tree_write c) w (and_then (saveItems c a (it_level i) items ?st (out, w))
      (\<lambda>st (out, w). case err of Some e \<Rightarrow> (Inl (Threw e), out, w)
         | None \<Rightarrow> (Inr (), out, if sv_changed st then persistTree c k (sv_maxTtl st) (sv_rootTree st) w else w)))"
    by (rule tree_writes.rel_bind [OF tree_writes.rel_saveItems [where g = "(out, w)", simplified]])
      (auto intro!: tree_write_persistTree tree_writes.rel_refl saveItems_wf [OF _ wft] split: option.splits)
  with Inr show ?thesis by (simp add: saveFullTreeValue_def Let_def dfs split del: if_split)
qed

lemma tree_write_fullTreeItems:
  "\<forall>i \<in> set is. valid_path (item_path i) \<and> it_level i = length (item_path i) \<Longrightarrow>
   gen_rel (tree_write c) (snd g) (fullTreeItems c a is err g)"
proof (induction "is" arbitrary: g)
  case (Cons i "is")
  show ?case
    using Cons.prems
    by (auto simp: buildKey_eq Let_def gen_rel_def [of _ _ "(_, g)"] tree_writes.rel_refl
        intro!: tree_writes.rel_bind tree_write_guarded tree_write_saveFullTreeValue
        tree_write_fullSetStep Cons.IH [where g = "(out, w)" for out w, simplified])
qed (simp add: gen_rel_def tree_writes.rel_refl split: option.splits)

lemma tree_write_fullTreeSet:
  assumes "wf_tree tree" "\<forall>q. q \<noteq> [] \<and> tree_lookup tree q \<noteq> None \<longrightarrow> valid_path q"
  shows "gen_rel (tree_write c) (snd g) (fullTreeSet c a tree g)"
proof -
  obtain "is" err where bfs: "treePreOrderBreadthFirstSearch tree None (f_now a) = (is, err)" by (rule prod.exhaust)
  then have "is = fst (treePreOrderBreadthFirstSearch tree None (f_now a))" by simp
  note nodes = full_order_nodes(1) [OF assms(1) this refl]
  with assms(2) have "\<forall>i \<in> set is. valid_path (item_path i) \<and> it_level i = length (item_path i)" by simp
  then show ?thesis using tree_write_fullTreeItems by (simp add: fullTreeSet_def bfs)
qed

lemma tree_write_pruneKeys: "2 \<le> keyLevelNodes c \<Longrightarrow> tree_write c w (snd (pruneKeys c now ks w))"
proof (induction ks arbitrary: w)
  case (Cons k ks)
  obtain r w' where g: "getNodeRef c (splitKey k) True now w = (r, w')" by (rule prod.exhaust)
  have w': "w' = w" using getNodeRef_last_world [OF Cons.prems, of k now w] g by simp
  show ?case
  proof (cases "\<exists>item. r = Inr (Some item)")
    case True
    then obtain item where r: "r = Inr (Some item)" by blast
    have "tree_write c w (pruneOne c now item w)"
    proof (cases "length (splitKey k) = keyLevelNodes c")
      case True
      with pruneOne_get(2) [OF refl Cons.prems g [unfolded r]] show ?thesis
        by (auto simp: tree_write_def) (metis wf_prune_ref)
    qed (use pruneOne_get(2) [OF refl Cons.prems g [unfolded r]] in \<open>simp add: tree_writes.rel_refl\<close>)
    from tree_writes.rel_trans [OF this Cons.IH [OF Cons.prems]] g r w' show ?thesis by simp
  next
    case False
    with Cons.IH [OF Cons.prems, of w] g w' show ?thesis
      by (auto simp: tree_writes.rel_refl split: sum.splits option.splits)
  qed
qed (simp add: tree_writes.rel_refl)

lemma tree_write_prune: "2 \<le> keyLevelNodes c \<Longrightarrow> tree_write c w (snd (prune c pattern now w))"
  by (simp add: prune_def tree_write_pruneKeys tree_writes.rel_refl split: option.splits)

end

section \<open>Sequences of operations\<close>

text \<open>
  The operations that write, with their arguments, and the requirement on them: the keys are free of
  separators and the tree given to \<open>fullTreeSet\<close> is a tree of objects.
\<close>

datatype 'v operation =
    SetNode path "'v nodeValue" "'v stepTtl option" int
  | DeepTreeSet "'v setArgs"
  | FullTreeSet "'v fullArgs" "'v tree"
  | Prune "string option" int
  | ReprocessAllKeyLevelChildren nat

fun perform :: "('v, 's, 'm) cache \<Rightarrow> 'v operation \<Rightarrow> ('s, 'm) world \<Rightarrow> ('s, 'm) world" where
  "perform c (SetNode path value ttl now) w = snd (setNode c path value ttl now w)"
| "perform c (DeepTreeSet a) w = snd (snd (deepTreeSet c a [] ([], w)))"
| "perform c (FullTreeSet a tree) w = snd (snd (fullTreeSet c a tree ([], w)))"
| "perform c (Prune pattern now) w = snd (prune c pattern now w)"
| "perform c (ReprocessAllKeyLevelChildren groupSize) w = snd (reprocessAllKeyLevelChildren c groupSize w)"

fun admissible :: "'v operation \<Rightarrow> bool" where
  "admissible (SetNode path value ttl now) \<longleftrightarrow> valid_path path"
| "admissible (DeepTreeSet a) \<longleftrightarrow> valid_path (a_path a)"
| "admissible (FullTreeSet a tree) \<longleftrightarrow>
     wf_tree tree \<and> (\<forall>q. q \<noteq> [] \<and> tree_lookup tree q \<noteq> None \<longrightarrow> valid_path q)"
| "admissible (Prune pattern now) \<longleftrightarrow> True"
| "admissible (ReprocessAllKeyLevelChildren groupSize) \<longleftrightarrow> True"

inductive reaches :: "('v, 's, 'm) cache \<Rightarrow> ('s, 'm) world \<Rightarrow> ('s, 'm) world \<Rightarrow> bool" for c w where
  start: "reaches c w w"
| perform: "reaches c w w' \<Longrightarrow> admissible op \<Longrightarrow> reaches c w (perform c op w')"

inductive_cases reachesE: "reaches c w w'"

definition trees_readable :: "('v, 's, 'm) cache \<Rightarrow> 's \<Rightarrow> bool" where
  "trees_readable c s \<longleftrightarrow> (\<forall>p. valid_path p \<longrightarrow> tree_readable c s p)"

text \<open>A storage whose registry of children is kept apart from the values, also when it is cleared.\<close>

locale maintained_cache = lawful_cache c for c :: "('v, 's, 'm) cache" +
  assumes get_clear: "st_clearAllChildrenRegistry (c_storage c) = Some clear \<Longrightarrow>
    st_get (c_storage c) (clear s) k = st_get (c_storage c) s k"
begin

lemma get_reprocessPath:
  "st_get (c_storage c) (w_store (snd (snd (reprocessPath c n path ck processed promises groups w)))) = store_get c w"
  by (induction path arbitrary: ck processed promises groups w) (simp_all add: Let_def)

lemma get_reprocessKeys:
  "st_get (c_storage c) (w_store (snd (reprocessKeys c n ks promises groups w))) = store_get c w"
proof (induction ks arbitrary: promises groups w)
  case (Cons k ks)
  obtain ps gs w1 where r: "reprocessPath c n (splitKey k) None [] promises groups w = (ps, gs, w1)"
    by (metis prod_cases3)
  with get_reprocessPath [of n "splitKey k" None "[]" promises groups w] Cons show ?case by simp
qed simp

lemma tree_write_reprocess: "tree_write c w (snd (reprocessAllKeyLevelChildren c n w))"
  by (rule tree_write_same)
    (auto simp: reprocessAllKeyLevelChildren_def clearAllChildrenRegistry_def Let_def get_clear
      get_reprocessKeys [THEN fun_cong] split: option.splits prod.splits
      dest!: arg_cong [of _ _ snd])

lemma tree_write_perform:
  "admissible op \<Longrightarrow> 2 \<le> keyLevelNodes c \<Longrightarrow> tree_write c w (perform c op w)"
proof (cases op)
  case (DeepTreeSet a)
  then show "admissible op \<Longrightarrow> 2 \<le> keyLevelNodes c \<Longrightarrow> ?thesis"
    using tree_write_deepTreeSet [of a "([], w)"] by (simp add: gen_rel_def)
next
  case (FullTreeSet a tree)
  then show "admissible op \<Longrightarrow> 2 \<le> keyLevelNodes c \<Longrightarrow> ?thesis"
    using tree_write_fullTreeSet [of tree "([], w)" a] by (simp add: gen_rel_def)
qed (simp_all add: tree_write_setNode tree_write_prune tree_write_reprocess)

lemma tree_write_readable:
  assumes "tree_write c w w'" "trees_readable c (w_store w)" "0 < keyLevelNodes c"
  shows "trees_readable c (w_store w')"
  unfolding trees_readable_def
proof (intro allI impI)
  fix p assume p: "valid_path p"
  show "tree_readable c (w_store w') p"
  proof (cases "keyLevelNodes c \<le> length p")
    case True
    let ?k = "take (keyLevelNodes c) p"
    have k: "valid_path ?k" "length ?k = keyLevelNodes c"
      using p True assms(3) by (auto simp: valid_path_def list_all_take)
    have "tree_readable c (w_store w) ?k" using assms(2) k(1) by (simp add: trees_readable_def)
    with assms(1) k show ?thesis
      unfolding tree_write_def tree_readable_def Let_def
      by (metis min.idem option.sel take_take tree_roundtrip le_refl)
  qed (simp add: tree_readable_def)
qed

lemma reaches_readable:
  assumes "2 \<le> keyLevelNodes c" "trees_readable c (w_store w)"
  shows "reaches c w w' \<Longrightarrow> trees_readable c (w_store w')"
proof (induction rule: reaches.induct)
  case (perform w' op)
  with tree_write_readable [OF tree_write_perform] assms(1) show ?case by simp
qed (rule assms(2))

end

end
