(* ===== verification/Cache_Json.thy ===== *)
theory Cache_Json
  imports Cache_Storage
begin

text \<open>
  The default serializers (\<open>src/internal/default-options.ts\<close>): \<open>JSON.stringify\<close> and
  \<open>JSON.parse\<close>, for values and for trees. Modelled are the JSON texts of \<open>null\<close>, booleans,
  integers, strings of one-byte characters, arrays and objects; a text outside of that fragment, or
  one that is no tree where a tree is expected, is rejected. The lemmas show that parsing inverts
  printing, so that the default serializers fulfil \<open>serializer_laws\<close>.
\<close>

section \<open>Values\<close>

datatype json = JNull | JBool bool | JNum int | JStr string | JArr "json list" | JObj "(key \<times> json) list"

lemma json_member_size [termination_simp]:
  "(k, j) \<in> set ps \<Longrightarrow> size j < Suc (size_list (size_prod (\<lambda>_. 0) size) ps)"
  by (induction ps) auto

section \<open>Printing\<close>

fun commas :: "string list \<Rightarrow> string" where
  "commas [] = []"
| "commas [s] = s"
| "commas (s # t # ss) = s @ CHR '','' # commas (t # ss)"

definition digit_char :: "nat \<Rightarrow> char" where
  "digit_char n = char_of (n + 48)"

fun show_nat :: "nat \<Rightarrow> string" where
  "show_nat n = (if n < 10 then [digit_char n] else show_nat (n div 10) @ [digit_char (n mod 10)])"

declare show_nat.simps [simp del]

definition show_int :: "int \<Rightarrow> string" where
  "show_int i = (if i < 0 then CHR ''-'' # show_nat (nat (- i)) else show_nat (nat i))"

definition hex_char :: "nat \<Rightarrow> char" where
  "hex_char n = (if n < 10 then digit_char n else char_of (n + 87))"

definition escape :: "char \<Rightarrow> string" where
  "escape ch =
     (let n = of_char ch :: nat in
      if n = 34 then [char_of (92::nat), char_of (34::nat)]
      else if n = 92 then [char_of (92::nat), char_of (92::nat)]
      else if n < 32 then
        (if n = 8 then [char_of (92::nat), CHR ''b'']
         else if n = 9 then [char_of (92::nat), CHR ''t'']
         else if n = 10 then [char_of (92::nat), CHR ''n'']
         else if n = 12 then [char_of (92::nat), CHR ''f'']
         else if n = 13 then [char_of (92::nat), CHR ''r'']
         else [char_of (92::nat), CHR ''u'', CHR ''0'', CHR ''0'', hex_char (n div 16), hex_char (n mod 16)])
      else [ch])"

abbreviation quote_char :: char where
  "quote_char \<equiv> char_of (34::nat)"

definition quote :: "string \<Rightarrow> string" where
  "quote s = quote_char # concat (map escape s) @ [quote_char]"

fun stringify :: "json \<Rightarrow> string" where
  "stringify JNull = ''null''"
| "stringify (JBool b) = (if b then ''true'' else ''false'')"
| "stringify (JNum i) = show_int i"
| "stringify (JStr s) = quote s"
| "stringify (JArr js) = CHR ''['' # commas (map stringify js) @ '']''"
| "stringify (JObj ps) = CHR ''{'' # commas (map (\<lambda>(k, j). quote k @ CHR '':'' # stringify j) ps) @ ''}''"

section \<open>Parsing\<close>

fun skip :: "string \<Rightarrow> string" where
  "skip [] = []"
| "skip (ch # cs) = (if of_char ch \<in> {32, 9, 10, 13 :: nat} then skip cs else ch # cs)"

definition hex_val :: "char \<Rightarrow> nat option" where
  "hex_val ch =
     (let n = of_char ch :: nat in
      if 48 \<le> n \<and> n \<le> 57 then Some (n - 48)
      else if 97 \<le> n \<and> n \<le> 102 then Some (n - 87)
      else if 65 \<le> n \<and> n \<le> 70 then Some (n - 55)
      else None)"

definition unescape :: "char \<Rightarrow> char option" where
  "unescape ch =
     map_option char_of (map_of [(34, 34), (92, 92), (47, 47), (98, 8), (102, 12), (110, 10), (114, 13), (116, 9)]
       (of_char ch :: nat) :: nat option)"

function parse_chars :: "string \<Rightarrow> (string \<times> string) option" where
  "parse_chars s =
     (case s of
        [] \<Rightarrow> None
      | ch # cs \<Rightarrow>
          if ch = quote_char then Some ([], cs)
          else if of_char ch < (32::nat) then None
          else if of_char ch = (92::nat) then
            (case cs of
               [] \<Rightarrow> None
             | e # es \<Rightarrow>
                 if e = CHR ''u'' then
                   (case es of
                      a # b # x # y # rest \<Rightarrow>
                        (case (hex_val a, hex_val b, hex_val x, hex_val y) of
                           (Some 0, Some 0, Some m, Some n) \<Rightarrow>
                             map_option (\<lambda>(t, r). (char_of (16 * m + n) # t, r)) (parse_chars rest)
                         | _ \<Rightarrow> None)
                    | _ \<Rightarrow> None)
                 else
                   (case unescape e of
                      None \<Rightarrow> None
                    | Some d \<Rightarrow> map_option (\<lambda>(t, r). (d # t, r)) (parse_chars es)))
          else map_option (\<lambda>(t, r). (ch # t, r)) (parse_chars cs))"
  by pat_completeness auto
termination
  by (relation "measure length") auto

declare parse_chars.simps [simp del]

definition parse_nat :: "string \<Rightarrow> (nat \<times> string) option" where
  "parse_nat s =
     (let ds = takeWhile is_digit s in
      if ds = [] \<or> (hd ds = CHR ''0'' \<and> length ds > 1) then None
      else Some (num_of_key ds, dropWhile is_digit s))"

definition keyword :: "string \<Rightarrow> json \<Rightarrow> string \<Rightarrow> (json \<times> string) option" where
  "keyword word j s = (if take (length word) s = word then Some (j, drop (length word) s) else None)"

text \<open>The first argument bounds the depth of the recursion; the length of the text is enough.\<close>

fun parse_value :: "nat \<Rightarrow> string \<Rightarrow> (json \<times> string) option"
and parse_elements :: "nat \<Rightarrow> string \<Rightarrow> json list \<Rightarrow> (json \<times> string) option"
and parse_members :: "nat \<Rightarrow> string \<Rightarrow> (key \<times> json) list \<Rightarrow> (json \<times> string) option" where
  "parse_value 0 s = None"
| "parse_value (Suc n) s =
     (case skip s of
        [] \<Rightarrow> None
      | ch # cs \<Rightarrow>
          if ch = quote_char then map_option (\<lambda>(t, r). (JStr t, r)) (parse_chars cs)
          else if ch = CHR ''['' then
            (case skip cs of
               [] \<Rightarrow> None
             | d # ds \<Rightarrow> if d = CHR '']'' then Some (JArr [], ds) else parse_elements n (d # ds) [])
          else if ch = CHR ''{'' then
            (case skip cs of
               [] \<Rightarrow> None
             | d # ds \<Rightarrow> if d = CHR ''}'' then Some (JObj [], ds) else parse_members n (d # ds) [])
          else if ch = CHR ''n'' then keyword ''null'' JNull (ch # cs)
          else if ch = CHR ''t'' then keyword ''true'' (JBool True) (ch # cs)
          else if ch = CHR ''f'' then keyword ''false'' (JBool False) (ch # cs)
          else if ch = CHR ''-'' then map_option (\<lambda>(i, r). (JNum (- int i), r)) (parse_nat cs)
          else map_option (\<lambda>(i, r). (JNum (int i), r)) (parse_nat (ch # cs)))"
| "parse_elements 0 s acc = None"
| "parse_elements (Suc n) s acc =
     (case parse_value n s of
        None \<Rightarrow> None
      | Some (j, r) \<Rightarrow>
          (case skip r of
             [] \<Rightarrow> None
           | d # ds \<Rightarrow>
               if d = CHR '','' then parse_elements n ds (acc @ [j])
               else if d = CHR '']'' then Some (JArr (acc @ [j]), ds)
               else None))"
| "parse_members 0 s acc = None"
| "parse_members (Suc n) s acc =
     (case skip s of
        [] \<Rightarrow> None
      | q # qs \<Rightarrow>
          if q \<noteq> quote_char then None else
          (case parse_chars qs of
             None \<Rightarrow> None
           | Some (k, r) \<Rightarrow>
               (case skip r of
                  [] \<Rightarrow> None
                | c # cs \<Rightarrow>
                    if c \<noteq> CHR '':'' then None else
                    (case parse_value n cs of
                       None \<Rightarrow> None
                     | Some (j, r) \<Rightarrow>
                         (case skip r of
                            [] \<Rightarrow> None
                          | d # ds \<Rightarrow>
                              if d = CHR '','' then parse_members n ds (obj_put k j acc)
                              else if d = CHR ''}'' then Some (JObj (obj_put k j acc), ds)
                              else None)))))"

definition parse :: "string \<Rightarrow> error + json" where
  "parse s =
     (case parse_value (Suc (length s)) s of
        Some (j, r) \<Rightarrow> if skip r = [] then Inr j else Inl SerializerError
      | None \<Rightarrow> Inl SerializerError)"

section \<open>Numbers\<close>

lemma of_char_digit: "n < 10 \<Longrightarrow> of_char (digit_char n) = n + 48"
  by (simp add: digit_char_def)

lemma digit_chars:
  "list_all (\<lambda>n. is_digit (digit_char n) \<and> (digit_char n = CHR ''0'' \<longleftrightarrow> n = 0)) [0..<10]"
  by code_simp

lemma digit_digit_char [simp]: "n < 10 \<Longrightarrow> is_digit (digit_char n)"
  using digit_chars by (simp only: list_all_iff set_upt) simp

lemma digit_val_char [simp]: "n < 10 \<Longrightarrow> digit_val (digit_char n) = n"
  by (simp add: digit_val_def of_char_digit)

lemma digit_char_zero: "n < 10 \<Longrightarrow> digit_char n = CHR ''0'' \<longleftrightarrow> n = 0"
  using digit_chars by (simp only: list_all_iff set_upt) simp

lemma show_nat_digits: "list_all is_digit (show_nat n)"
  by (induction n rule: show_nat.induct) (simp add: show_nat.simps)

lemma show_nat_neq_Nil [simp]: "show_nat n \<noteq> []"
  by (simp add: show_nat.simps)

lemma num_of_show_nat: "num_of_key (show_nat n) = n"
  by (induction n rule: show_nat.induct) (simp add: show_nat.simps num_of_key_def)

lemma show_nat_zero: "hd (show_nat n) = CHR ''0'' \<longleftrightarrow> n = 0"
proof (induction n rule: show_nat.induct)
  case (1 n)
  then show ?case
    by (cases "n < 10") (simp_all add: show_nat.simps [of n] digit_char_zero)
qed

definition rest_ok :: "string \<Rightarrow> bool" where
  "rest_ok r \<longleftrightarrow> r = [] \<or> \<not> is_digit (hd r)"

lemma parse_show_nat: "rest_ok r \<Longrightarrow> parse_nat (show_nat n @ r) = Some (n, r)"
proof -
  assume r: "rest_ok r"
  have d: "\<forall>x \<in> set (show_nat n). is_digit x" using show_nat_digits by (simp add: list_all_iff)
  then have "takeWhile is_digit (show_nat n @ r) = show_nat n" "dropWhile is_digit (show_nat n @ r) = r"
    using r by (auto simp: takeWhile_append2 dropWhile_append2 rest_ok_def takeWhile_eq_Nil_iff dropWhile_eq_self_iff)
  moreover have "\<not> (hd (show_nat n) = CHR ''0'' \<and> length (show_nat n) > 1)"
    using show_nat_zero [of n] by (auto simp: show_nat.simps [of 0])
  ultimately show ?thesis by (simp add: parse_nat_def num_of_show_nat Let_def)
qed

section \<open>Strings\<close>

lemma hex_val_char: "n < 16 \<Longrightarrow> hex_val (hex_char n) = Some n"
  by (auto simp: hex_val_def hex_char_def of_char_digit)

lemma hex_val_zero: "hex_val (CHR ''0'') = Some 0"
  by (simp add: hex_val_def)

lemma marks_differ:
  "quote_char \<noteq> CHR ''u''" "char_of (92::nat) \<noteq> CHR ''u''" "quote_char \<noteq> CHR '']''" "quote_char \<noteq> CHR ''}''"
  "CHR ''n'' \<noteq> quote_char" "CHR ''t'' \<noteq> quote_char" "CHR ''f'' \<noteq> quote_char" "CHR ''['' \<noteq> quote_char"
  "CHR ''{'' \<noteq> quote_char" "CHR ''-'' \<noteq> quote_char"
  by code_simp+

lemma parse_escape:
  "parse_chars (escape ch @ t) = map_option (\<lambda>(u, r). (ch # u, r)) (parse_chars t)"
proof -
  let ?n = "of_char ch :: nat"
  have ch: "ch = char_of ?n" by simp
  have q: "of_char quote_char = (34::nat)" by simp
  have lt: "?n < 32 \<Longrightarrow> ?n div 16 < 16" "?n mod 16 < 16" by simp_all
  consider (special) "?n \<in> {34, 92, 8, 9, 10, 12, 13}"
    | (control) "?n < 32" "?n \<notin> {8, 9, 10, 12, 13}" | (plain) "32 \<le> ?n" "?n \<noteq> 34" "?n \<noteq> 92" by force
  then show ?thesis
  proof cases
    case special
    then have "ch \<in> char_of ` {34, 92, 8, 9, 10, 12, 13 :: nat}" using ch by (rule image_eqI [rotated])
    then show ?thesis
      by (elim imageE insertE emptyE)
        (simp_all add: escape_def Let_def parse_chars.simps [of "_ # _"] unescape_def marks_differ)
  next
    case control
    then show ?thesis
      using hex_val_char [OF lt(1)] hex_val_char [OF lt(2)]
      by (simp add: escape_def Let_def parse_chars.simps [of "_ # _"] hex_val_zero)
  next
    case plain
    then have "ch \<noteq> quote_char" using q by metis
    with plain show ?thesis by (simp add: escape_def Let_def parse_chars.simps [of "_ # _"])
  qed
qed

lemma parse_quoted: "parse_chars (concat (map escape s) @ quote_char # r) = Some (s, r)"
  by (induction s) (simp_all add: parse_escape parse_chars.simps [of "_ # _"])

section \<open>Parsing inverts printing\<close>

text \<open>Objects as JavaScript has them, at every depth.\<close>

fun canon :: "json \<Rightarrow> bool" where
  "canon (JArr js) \<longleftrightarrow> list_all canon js"
| "canon (JObj ps) \<longleftrightarrow> js_object ps \<and> list_all (\<lambda>(k, j). canon j) ps"
| "canon _ \<longleftrightarrow> True"

definition starts :: "json \<Rightarrow> char \<Rightarrow> bool" where
  "starts j ch \<longleftrightarrow> (case j of JNull \<Rightarrow> ch = CHR ''n'' | JBool b \<Rightarrow> ch = (if b then CHR ''t'' else CHR ''f'')
     | JNum i \<Rightarrow> (if i < 0 then ch = CHR ''-'' else is_digit ch)
     | JStr s \<Rightarrow> ch = quote_char | JArr js \<Rightarrow> ch = CHR ''['' | JObj ps \<Rightarrow> ch = CHR ''{'')"

lemma show_nat_Cons: "\<exists>ch cs. show_nat n = ch # cs \<and> is_digit ch"
  using show_nat_digits [of n] show_nat_neq_Nil [of n] by (cases "show_nat n") auto

lemma stringify_Cons: "\<exists>ch cs. stringify j = ch # cs \<and> starts j ch"
  using show_nat_Cons by (cases j) (auto simp: starts_def show_int_def quote_def)

lemma digit_code: "is_digit ch \<Longrightarrow> 48 \<le> (of_char ch :: nat) \<and> of_char ch \<le> (57::nat)"
  by (auto simp: is_digit_def)

lemma starts_visible: "starts j ch \<Longrightarrow> of_char ch \<notin> {32, 9, 10, 13 :: nat}"
  by (cases j) (auto simp: starts_def split: if_splits dest: digit_code)

lemma skip_visible: "of_char ch \<notin> {32, 9, 10, 13 :: nat} \<Longrightarrow> skip (ch # cs) = ch # cs"
  by simp

lemma skip_stringify: "skip (stringify j @ r) = stringify j @ r"
proof -
  obtain ch cs where "stringify j = ch # cs" "starts j ch" using stringify_Cons by blast
  with starts_visible [of j ch] skip_visible [of ch "cs @ r"] show ?thesis by simp
qed

lemma stringify_not_close: "\<exists>ch cs. stringify j @ r = ch # cs \<and> ch \<noteq> CHR '']'' \<and> ch \<noteq> CHR ''}''"
proof -
  obtain ch cs where "stringify j = ch # cs" "starts j ch" using stringify_Cons by blast
  moreover have "starts j ch \<Longrightarrow> ch \<noteq> CHR '']'' \<and> ch \<noteq> CHR ''}''"
    by (cases j) (auto simp: starts_def marks_differ split: if_splits dest: digit_code)
  ultimately show ?thesis by auto
qed

definition parses :: "json \<Rightarrow> bool" where
  "parses j \<longleftrightarrow> (\<forall>f r. length (stringify j) \<le> f \<longrightarrow> rest_ok r \<longrightarrow> parse_value f (stringify j @ r) = Some (j, r))"

lemma parse_elements_commas:
  "js \<noteq> [] \<Longrightarrow> list_all parses js \<Longrightarrow> length (commas (map stringify js)) < f \<Longrightarrow>
   parse_elements f (commas (map stringify js) @ CHR '']'' # r) acc = Some (JArr (acc @ js), r)"
proof (induction js arbitrary: f acc)
  case (Cons j js)
  then obtain n where f: "f = Suc n" by (cases f) auto
  show ?case
  proof (cases js)
    case Nil
    with Cons.prems f show ?thesis by (simp add: parses_def rest_ok_def is_digit_def)
  next
    case (Cons j' js')
    with Cons.prems f
    have "parse_value n (stringify j @ CHR '','' # commas (map stringify js) @ CHR '']'' # r)
        = Some (j, CHR '','' # commas (map stringify js) @ CHR '']'' # r)"
      by (simp add: parses_def rest_ok_def is_digit_def)
    moreover have "parse_elements n (commas (map stringify js) @ CHR '']'' # r) (acc @ [j]) = Some (JArr (acc @ j # js), r)"
      using Cons.IH [of n "acc @ [j]"] Cons.prems f Cons by simp
    ultimately show ?thesis using f Cons by simp
  qed
qed simp

abbreviation member :: "key \<times> json \<Rightarrow> string" where
  "member \<equiv> \<lambda>(k, j). quote k @ CHR '':'' # stringify j"

lemma parse_members_commas:
  "ps \<noteq> [] \<Longrightarrow> list_all (\<lambda>(k, j). parses j) ps \<Longrightarrow> length (commas (map member ps)) < f \<Longrightarrow>
   parse_members f (commas (map member ps) @ CHR ''}'' # r) acc
     = Some (JObj (fold (\<lambda>(k, j). obj_put k j) ps acc), r)"
proof (induction ps arbitrary: f acc)
  case (Cons p ps)
  obtain k j where p: "p = (k, j)" by (cases p)
  obtain n where f: "f = Suc n" using Cons.prems by (cases f) auto
  have q: "skip (quote k @ s) = quote k @ s" for s by (simp add: quote_def)
  have k: "parse_chars (concat (map escape k) @ quote_char # s) = Some (k, s)" for s by (rule parse_quoted)
  show ?case
  proof (cases ps)
    case Nil
    with Cons.prems f p k show ?thesis by (simp add: parses_def rest_ok_def is_digit_def quote_def)
  next
    case (Cons p' ps')
    with Cons.prems f p
    have "parse_value n (stringify j @ CHR '','' # commas (map member ps) @ CHR ''}'' # r)
        = Some (j, CHR '','' # commas (map member ps) @ CHR ''}'' # r)"
      by (simp add: parses_def rest_ok_def is_digit_def)
    moreover have "parse_members n (commas (map member ps) @ CHR ''}'' # r) (obj_put k j acc)
        = Some (JObj (fold (\<lambda>(k, j). obj_put k j) ps (obj_put k j acc)), r)"
      using Cons.IH [of n "obj_put k j acc"] Cons.prems f p Cons by simp
    moreover have "commas (map member (p # ps)) @ CHR ''}'' # r
        = quote_char # concat (map escape k) @ quote_char # CHR '':'' # stringify j @ CHR '','' # commas (map member ps) @ CHR ''}'' # r"
      using Cons p by (simp add: quote_def)
    ultimately show ?thesis using f p k by (simp del: commas.simps)
  qed
qed simp

lemma digit_not_mark:
  "is_digit ch \<Longrightarrow> ch \<noteq> quote_char \<and> ch \<notin> {CHR ''['', CHR ''{'', CHR ''n'', CHR ''t'', CHR ''f'', CHR ''-''}"
  by (auto dest: digit_code)

lemma parse_value_digits:
  assumes "rest_ok r"
  shows "parse_value (Suc n) (show_nat m @ r) = Some (JNum (int m), r)"
proof -
  obtain ch cs where s: "show_nat m = ch # cs" "is_digit ch" using show_nat_Cons by blast
  then have "skip (ch # cs @ r) = ch # cs @ r" by (intro skip_visible) (auto dest: digit_code)
  moreover have "parse_nat (ch # cs @ r) = Some (m, r)" using parse_show_nat [OF assms, of m] s by simp
  ultimately show ?thesis
    using digit_not_mark [OF s(2)] by (simp add: s(1) del: skip.simps)
qed

lemma parses_JNum: "parses (JNum i)"
proof -
  have "parse_value f (stringify (JNum i) @ r) = Some (JNum i, r)"
    if f: "length (stringify (JNum i)) \<le> f" and r: "rest_ok r" for f r
  proof -
    obtain n where n: "f = Suc n" using f by (cases f) (auto simp: show_int_def split: if_splits)
    show ?thesis
      using parse_value_digits [OF r, of n "nat i"] parse_show_nat [OF r, of "nat (- i)"]
      by (auto simp: n show_int_def marks_differ split: if_splits)
  qed
  then show ?thesis by (simp add: parses_def)
qed

lemma parses_JArr:
  assumes all: "list_all parses js"
  shows "parses (JArr js)"
proof -
  have "parse_value f (stringify (JArr js) @ r) = Some (JArr js, r)"
    if f: "length (stringify (JArr js)) \<le> f" and r: "rest_ok r" for f r
  proof (cases js)
    case Nil
    then show ?thesis using f by (cases f) (simp_all add: marks_differ)
  next
    case (Cons j js')
    obtain n where n: "f = Suc n" using f by (cases f) auto
    let ?t = "commas (map stringify js) @ CHR '']'' # r"
    have "\<exists>r'. ?t = stringify j @ r'" using Cons by (cases js') auto
    then obtain ch cs where t: "?t = ch # cs" "ch \<noteq> CHR '']''" "skip ?t = ?t"
      using stringify_not_close skip_stringify by metis
    have "parse_elements n ?t [] = Some (JArr js, r)"
      using parse_elements_commas [of js n r "[]"] Cons all f n by simp
    with t n show ?thesis by (simp add: marks_differ)
  qed
  then show ?thesis by (simp add: parses_def)
qed

lemma parses_JObj:
  assumes all: "list_all (\<lambda>(k, j). parses j) ps" and canon: "canon (JObj ps)"
  shows "parses (JObj ps)"
proof -
  have "parse_value f (stringify (JObj ps) @ r) = Some (JObj ps, r)"
    if f: "length (stringify (JObj ps)) \<le> f" and r: "rest_ok r" for f r
  proof (cases ps)
    case Nil
    then show ?thesis using f by (cases f) (simp_all add: marks_differ)
  next
    case (Cons p ps')
    obtain n where n: "f = Suc n" using f by (cases f) auto
    let ?t = "commas (map member ps) @ CHR ''}'' # r"
    have "\<exists>cs. ?t = quote_char # cs" using Cons by (cases ps'; cases p) (auto simp: quote_def)
    then obtain cs where t: "?t = quote_char # cs" "skip ?t = ?t" by auto
    have "fold (\<lambda>(k, j). obj_put k j) ps [] = ps" using fold_obj_put [of "[]" ps] canon by simp
    then have "parse_members n ?t [] = Some (JObj ps, r)"
      using parse_members_commas [of ps n r "[]"] Cons all f n by simp
    with t n show ?thesis by (simp add: marks_differ)
  qed
  then show ?thesis by (simp add: parses_def)
qed

lemma canon_parses: "canon j \<Longrightarrow> parses j"
proof (induction j)
  case (JStr s)
  have "parse_value f (stringify (JStr s) @ r) = Some (JStr s, r)"
    if "length (stringify (JStr s)) \<le> f" "rest_ok r" for f r
    using that by (cases f) (simp_all add: quote_def parse_quoted)
  then show ?case by (simp add: parses_def)
next
  case (JArr js)
  then show ?case by (intro parses_JArr) (auto simp: list_all_iff)
next
  case (JObj ps)
  then show ?case by (intro parses_JObj) (force simp: list_all_iff)+
next
  case JNull
  have "parse_value f (''null'' @ r) = Some (JNull, r)" if "4 \<le> f" for f r
    using that by (cases f) (simp_all add: marks_differ keyword_def)
  then show ?case by (simp add: parses_def)
next
  case (JBool b)
  have "parse_value f ((if b then ''true'' else ''false'') @ r) = Some (JBool b, r)" if "4 \<le> f" for f r
    using that by (cases f) (simp_all add: marks_differ keyword_def)
  then show ?case by (auto simp: parses_def split: if_splits)
qed (rule parses_JNum)

lemma parse_stringify: "canon j \<Longrightarrow> parse (stringify j) = Inr j"
  using canon_parses [of j] unfolding parses_def
  by (auto simp: parse_def rest_ok_def dest!: spec [of _ "Suc (length (stringify j))"] spec [of _ "[]"])

text \<open>What has been parsed consists of objects as JavaScript has them.\<close>

lemma list_all_obj_put:
  "list_all (\<lambda>(k, j). P j) ps \<Longrightarrow> P j \<Longrightarrow> js_object ps \<Longrightarrow> list_all (\<lambda>(k, j). P j) (obj_put k j ps)"
  by (auto simp: list_all_iff dest!: set_obj_put [OF js_object_distinct])

lemma parse_canon_all:
  shows "parse_value f s = Some (j, r) \<Longrightarrow> canon j"
    and "parse_elements f s acc = Some (j, r) \<Longrightarrow> list_all canon acc \<Longrightarrow> canon j"
    and "parse_members f s ps = Some (j, r) \<Longrightarrow> js_object ps \<and> list_all (\<lambda>(k, j). canon j) ps \<Longrightarrow> canon j"
proof (induction f s and f s acc and f s ps arbitrary: j r and j r and j r
    rule: parse_value_parse_elements_parse_members.induct)
  case (2 n s)
  then show ?case
    by (auto simp: keyword_def split: list.splits if_splits)
next
  case (4 n s acc)
  then show ?case
    by (auto split: option.splits prod.splits list.splits if_splits)
next
  case (6 n s ps)
  obtain qs k r1 cs j0 r2 d ds where
    *: "skip s = quote_char # qs" "parse_chars qs = Some (k, r1)" "skip r1 = CHR '':'' # cs"
      "parse_value n cs = Some (j0, r2)" "skip r2 = d # ds"
    and res: "(if d = CHR '','' then parse_members n ds (obj_put k j0 ps)
        else if d = CHR ''}'' then Some (JObj (obj_put k j0 ps), ds) else None) = Some (j, r)"
    using 6(3) by (auto split: option.splits prod.splits list.splits if_splits)
  have "canon j0" using 6(1) * by blast
  with 6(4) have "js_object (obj_put k j0 ps) \<and> list_all (\<lambda>(k, j). canon j) (obj_put k j0 ps)"
    by (simp add: list_all_obj_put)
  with 6(2) * res show ?case by (auto split: if_splits)
qed simp_all

lemma parse_canon: "parse s = Inr j \<Longrightarrow> canon j"
  by (auto simp: parse_def split: option.splits prod.splits if_splits simp del: parse_value.simps
      dest: parse_canon_all(1))

section \<open>Trees as JSON\<close>

fun tree_json :: "rvalue tree \<Rightarrow> json" where
  "tree_json t = JObj
     ((case tvalue t of None \<Rightarrow> [] | Some v \<Rightarrow> [(''v'', JStr v)])
      @ (case tdeadline t of None \<Rightarrow> [] | Some d \<Rightarrow> [(''d'', JNum d)])
      @ (case tchildren t of None \<Rightarrow> [] | Some _ \<Rightarrow> [(''c'', JObj (map (\<lambda>(k, u). (k, tree_json u)) (kids t)))]))"

declare tree_json.simps [simp del]

fun mapM :: "('a \<Rightarrow> 'b option) \<Rightarrow> 'a list \<Rightarrow> 'b list option" where
  "mapM f [] = Some []"
| "mapM f (x # xs) = (case f x of None \<Rightarrow> None | Some y \<Rightarrow> map_option ((#) y) (mapM f xs))"

lemma mapM_cong [fundef_cong]: "xs = ys \<Longrightarrow> (\<And>x. x \<in> set ys \<Longrightarrow> f x = g x) \<Longrightarrow> mapM f xs = mapM g ys"
  by (induction ys arbitrary: xs) (auto split: option.splits)

definition opt_field :: "(json \<Rightarrow> 'b option) \<Rightarrow> key \<Rightarrow> (key \<times> json) list \<Rightarrow> 'b option option" where
  "opt_field f k ps =
     (case map_of ps k of None \<Rightarrow> Some None
      | Some j \<Rightarrow> if j = JNull then Some None else map_option Some (f j))"

text \<open>The fields of a tree node, and whether it has a children object.\<close>

definition tree_fields :: "json \<Rightarrow> (rvalue option \<times> int option \<times> bool) option" where
  "tree_fields j =
     (case j of
        JObj ps \<Rightarrow>
          (case (opt_field (\<lambda>j. case j of JStr s \<Rightarrow> Some s | _ \<Rightarrow> None) ''v'' ps,
                 opt_field (\<lambda>j. case j of JNum i \<Rightarrow> Some i | _ \<Rightarrow> None) ''d'' ps,
                 opt_field (\<lambda>j. case j of JObj cs \<Rightarrow> Some cs | _ \<Rightarrow> None) ''c'' ps) of
             (Some v, Some d, Some c) \<Rightarrow> Some (v, d, c \<noteq> None)
           | _ \<Rightarrow> None)
      | _ \<Rightarrow> None)"

definition tree_members :: "json \<Rightarrow> (key \<times> json) list" where
  "tree_members j =
     (case j of JObj ps \<Rightarrow> (case map_of ps ''c'' of Some (JObj cs) \<Rightarrow> cs | _ \<Rightarrow> []) | _ \<Rightarrow> [])"

lemma tree_member_size [termination_simp]:
  assumes "(k, u) \<in> set (tree_members j)"
  shows "size u < size j"
proof -
  obtain ps cs where j: "j = JObj ps" "map_of ps ''c'' = Some (JObj cs)" "(k, u) \<in> set cs"
    using assms by (auto simp: tree_members_def split: json.splits option.splits dest: sym)
  from json_member_size [OF map_of_SomeD [OF j(2)]] json_member_size [OF j(3)] j(1) show ?thesis by simp
qed

fun json_tree :: "json \<Rightarrow> rvalue tree option" where
  "json_tree j =
     (case tree_fields j of
        None \<Rightarrow> None
      | Some (v, d, hasChildren) \<Rightarrow>
          map_option (\<lambda>us. Tree v d (if hasChildren then Some us else None))
            (mapM (\<lambda>(k, u). if u = JNull then Some (k, None) else map_option (\<lambda>t. (k, Some t)) (json_tree u))
               (tree_members j)))"

declare json_tree.simps [simp del]

lemma mapM_all:
  "(\<And>x. x \<in> set xs \<Longrightarrow> f x = Some (g x)) \<Longrightarrow> mapM f xs = Some (map g xs)"
  by (induction xs) auto

lemma mapM_Some_iff: "mapM f xs = Some ys \<longleftrightarrow> list_all2 (\<lambda>x y. f x = Some y) xs ys"
  by (induction xs arbitrary: ys) (auto simp: list_all2_Cons1 split: option.splits)

lemma tree_json_neq_Null [simp]: "tree_json t \<noteq> JNull"
  by (simp add: tree_json.simps [of t])

lemma tree_fields_json:
  "tree_fields (tree_json t) = Some (tvalue t, tdeadline t, tchildren t \<noteq> None)"
  by (auto simp: tree_fields_def tree_json.simps [of t] opt_field_def split: option.splits)

lemma tree_members_json: "tree_members (tree_json t) = map (\<lambda>(k, u). (k, tree_json u)) (kids t)"
  by (auto simp: tree_members_def tree_json.simps [of t] kids_def kids_of_def split: option.splits)

lemma mapM_map: "mapM f (map g xs) = mapM (\<lambda>x. f (g x)) xs"
  by (induction xs) (auto split: option.splits)

lemma json_tree_tree_json: "json_tree (tree_json t) = Some (strip t)"
proof (induction t rule: tree_kids_induct)
  case (Tree t)
  let ?f = "\<lambda>(k, u). if u = JNull then Some (k, None) else map_option (\<lambda>t. (k, Some t)) (json_tree u)"
  have "mapM ?f (tree_members (tree_json t)) = Some (map (\<lambda>(k, u). (k, Some (strip u))) (kids t))"
    unfolding tree_members_json mapM_map using Tree by (intro mapM_all) auto
  then show ?case
    by (subst json_tree.simps)
      (auto simp: tree_fields_json strip.simps [of t] split: option.splits)
qed

lemma js_object_node:
  "js_object ((case v of None \<Rightarrow> [] | Some x \<Rightarrow> [(''v'', f x)]) @ (case d of None \<Rightarrow> [] | Some x \<Rightarrow> [(''d'', g x)])
     @ (case c of None \<Rightarrow> [] | Some x \<Rightarrow> [(''c'', h x)]))"
  by (simp add: js_object_def key_before_def is_index_key_def is_digit_def split: option.splits)

lemma js_object_kids: "wf_tree t \<Longrightarrow> js_object (map (\<lambda>(k, u). (k, f u)) (kids t))"
proof -
  assume "wf_tree t"
  then have "js_object (children_or_empty t)" by (simp add: wf_tree.simps [of t])
  from js_object_map_filter [OF this, of "\<lambda>k u. f (the u)" "\<lambda>(k, u). u \<noteq> None"] show ?thesis
    by (auto simp: kids_def kids_of_def children_or_empty_def comp_def case_prod_unfold split: option.splits)
qed

lemma canon_tree_json: "wf_tree t \<Longrightarrow> canon (tree_json t)"
proof (induction t rule: tree_kids_induct)
  case (Tree t)
  then have "list_all (\<lambda>(k, j). canon j) (map (\<lambda>(k, u). (k, tree_json u)) (kids t))"
    by (auto simp: list_all_iff intro: wf_kid)
  with js_object_kids [OF Tree.prems, of tree_json] show ?case
    by (subst tree_json.simps, unfold canon.simps, intro conjI js_object_node) (auto split: option.splits)
qed

lemma list_all2_right: "list_all2 P xs ys \<Longrightarrow> y \<in> set ys \<Longrightarrow> \<exists>x \<in> set xs. P x y"
  by (induction rule: list_all2_induct) auto

lemma canon_members:
  assumes "canon j"
  shows "js_object (tree_members j) \<and> list_all (\<lambda>(k, u). canon u) (tree_members j)"
proof (cases "\<exists>ps cs. j = JObj ps \<and> map_of ps ''c'' = Some (JObj cs)")
  case True
  then obtain ps cs where j: "j = JObj ps" "map_of ps ''c'' = Some (JObj cs)" by blast
  then have "canon (JObj cs)" using assms by (force simp: list_all_iff dest: map_of_SomeD)
  with j show ?thesis by (simp add: tree_members_def)
qed (auto simp: tree_members_def split: json.splits option.splits)

lemma json_tree_wf: "canon j \<Longrightarrow> json_tree j = Some t \<Longrightarrow> wf_tree t"
proof (induction j arbitrary: t rule: json_tree.induct)
  case (1 j)
  let ?f = "\<lambda>(k, u). if u = JNull then Some (k, None) else map_option (\<lambda>t. (k, Some t)) (json_tree u)"
  obtain v d h us where f: "tree_fields j = Some (v, d, h)" "mapM ?f (tree_members j) = Some us"
    and t: "t = Tree v d (if h then Some us else None)"
    using 1(3) by (subst (asm) json_tree.simps) (auto split: option.splits)
  have cs: "js_object (tree_members j) \<and> (\<forall>(k, u) \<in> set (tree_members j). canon u)"
    using canon_members [OF 1(2)] by (simp add: list_all_iff)
  have us: "list_all2 (\<lambda>x y. ?f x = Some y) (tree_members j) us" using f(2) by (simp add: mapM_Some_iff)
  then have keys: "map fst us = map fst (tree_members j)"
    by (induction rule: list_all2_induct) (auto split: if_splits)
  have "wf_tree u" if ku: "(k, Some u) \<in> set us" for k u
  proof -
    obtain x where "x \<in> set (tree_members j)" "?f x = Some (k, Some u)"
      using list_all2_right [OF us ku] by blast
    with 1(1) [OF f(1)] cs show ?thesis by (auto split: if_splits)
  qed
  with keys cs show ?case
    unfolding t
    by (subst wf_tree.simps) (auto simp: js_object_def children_or_empty_def list_all_iff in_kids_iff)
qed

section \<open>The default serializers\<close>

text \<open>The values that are neither \<open>null\<close> nor \<open>undefined\<close>.\<close>

typedef jvalue = "{j. canon j \<and> j \<noteq> JNull}"
  by (rule exI [of _ "JBool True"]) simp

definition defaultValueSerializer :: "jvalue valueSerializer" where
  "defaultValueSerializer =
     \<lparr>vs_serialize = (\<lambda>v. stringify (Rep_jvalue v)),
      vs_deserialize = (\<lambda>s. case parse s of Inl e \<Rightarrow> Inl e
        | Inr j \<Rightarrow> Inr (if j = JNull then None else Some (Abs_jvalue j))),
      vs_deserializeList = None, vs_deserializeAsyncList = None\<rparr>"

definition defaultTreeSerializer :: treeSerializer where
  "defaultTreeSerializer =
     \<lparr>ts_serialize = (\<lambda>t. stringify (tree_json t)),
      ts_deserialize = (\<lambda>s. case parse s of Inl e \<Rightarrow> Inl e
        | Inr j \<Rightarrow> (case json_tree j of None \<Rightarrow> Inl SerializerError | Some t \<Rightarrow> Inr t))\<rparr>"

lemma stringify_neq_Nil [simp]: "stringify j \<noteq> []"
  using stringify_Cons [of j] by auto

lemma Rep_jvalue_canon: "canon (Rep_jvalue v)" "Rep_jvalue v \<noteq> JNull"
  using Rep_jvalue [of v] by simp_all

interpretation default_serializer: serializer_laws defaultValueSerializer defaultTreeSerializer
proof
  fix v :: jvalue
  show "vs_deserialize defaultValueSerializer (vs_serialize defaultValueSerializer v) = Inr (Some v)"
    using Rep_jvalue_canon [of v] by (simp add: defaultValueSerializer_def parse_stringify Rep_jvalue_inverse)
  show "vs_serialize defaultValueSerializer v \<noteq> []"
    by (simp add: defaultValueSerializer_def)
  show "vs_deserialize defaultValueSerializer [] \<noteq> Inr (Some v)"
    by (simp add: defaultValueSerializer_def parse_def)
next
  fix t :: "rvalue tree"
  show "ts_serialize defaultTreeSerializer t \<noteq> []"
    by (simp add: defaultTreeSerializer_def)
  assume "wf_tree t"
  then show "ts_deserialize defaultTreeSerializer (ts_serialize defaultTreeSerializer t) = Inr (strip t)"
    by (simp add: defaultTreeSerializer_def parse_stringify canon_tree_json json_tree_tree_json)
next
  fix r and t :: "rvalue tree"
  assume "ts_deserialize defaultTreeSerializer r = Inr t"
  then show "wf_tree t"
    by (auto simp: defaultTreeSerializer_def split: sum.splits option.splits intro: json_tree_wf parse_canon)
qed

end
