(* ===== verification/Cache_Default.thy ===== *)
theory Cache_Default
  imports Cache_Invariant Cache_Json
begin

text \<open>
  The default options and the constructor of \<open>TreeKeyCache\<close> (\<open>src/internal/default-options.ts\<close>,
  \<open>src/tree-key-cache.ts\<close>): the options given by the user override the defaults field by field,
  unless they are \<open>undefined\<close> or \<open>null\<close>. A cache over the in-memory storage with the default
  serializers is a lawful cache, so everything shown of lawful caches holds of it.
\<close>

record ('v, 'm) userOptions =
  u_keyLevelNodes :: nat
  u_valueSerializer :: "'v valueSerializer option"
  u_treeSerializer :: "treeSerializer option"
  u_memoizer :: "('v, 'm) memoizer option"
  u_multiTreeSelector :: "(rvalue option list \<Rightarrow> rvalue list) option"

text \<open>The semaphore of the defaults does nothing; its calls are events of the model in any case.\<close>

record 'v defaultOptions =
  d_valueSerializer :: "'v valueSerializer"
  d_treeSerializer :: treeSerializer
  d_multiTreeSelector :: "rvalue option list \<Rightarrow> rvalue list"

definition defaultOptions :: "jvalue defaultOptions" where
  "defaultOptions =
     \<lparr>d_valueSerializer = defaultValueSerializer, d_treeSerializer = defaultTreeSerializer,
      d_multiTreeSelector = filter_truthy\<rparr>"

definition override :: "'x option \<Rightarrow> 'x \<Rightarrow> 'x" where
  "override given dflt = (if isUndefinedOrNull given then dflt else the given)"

definition newTreeKeyCache ::
  "'v defaultOptions \<Rightarrow> ((key \<times> rvalue tree list) list \<Rightarrow> (key \<times> rvalue tree list) list)
   \<Rightarrow> 's storage \<Rightarrow> ('v, 'm) userOptions \<Rightarrow> ('v, 's, 'm) cache" where
  "newTreeKeyCache defaults dist storage options =
     \<lparr>c_storage = storage,
      c_options =
        \<lparr>o_keyLevelNodes = u_keyLevelNodes options,
         o_valueSerializer = override (u_valueSerializer options) (d_valueSerializer defaults),
         o_treeSerializer = override (u_treeSerializer options) (d_treeSerializer defaults),
         o_memoizer = u_memoizer options,
         o_multiTreeSelector = override (u_multiTreeSelector options) (d_multiTreeSelector defaults)\<rparr>,
      c_distinct = dist\<rparr>"

definition map_cache :: "nat \<Rightarrow> (jvalue, mapState, unit) cache" where
  "map_cache n = newTreeKeyCache defaultOptions id map_storage
     \<lparr>u_keyLevelNodes = n, u_valueSerializer = None, u_treeSerializer = None, u_memoizer = None,
      u_multiTreeSelector = None\<rparr>"

lemma map_cache_simps [simp]:
  "c_storage (map_cache n) = map_storage" "keyLevelNodes (map_cache n) = n"
  "vser (map_cache n) = defaultValueSerializer" "tser (map_cache n) = defaultTreeSerializer"
  "plain_cache (map_cache n)"
  by (simp_all add: map_cache_def newTreeKeyCache_def override_def defaultOptions_def plain_cache_def map_storage_def)

interpretation default_cache: maintained_cache "map_cache n" for n
  by (simp add: maintained_cache_def maintained_cache_axioms_def lawful_cache_def map_laws.storage_laws_axioms
      default_serializer.serializer_laws_axioms map_storage_def [THEN arg_cong, of st_clearAllChildrenRegistry])

definition empty_world :: "(mapState, unit) world" where
  "empty_world = \<lparr>w_store = \<lparr>ms_map = [], ms_ttlMap = []\<rparr>, w_memo = (), w_events = []\<rparr>"

lemma empty_world_simps [simp]:
  "st_get map_storage (w_store empty_world) k = None" "w_events empty_world = []"
  by (simp_all add: empty_world_def map_storage_def)

lemma tree_readable_empty [simp]: "tree_readable (map_cache n) (w_store empty_world) p"
  by (simp add: tree_readable_def)

definition yes :: jvalue where
  "yes = Abs_jvalue (JBool True)"

section \<open>The storage of the traversal tests\<close>

text \<open>
  The method \<open>getChildren\<close> that the traversal tests add to the in-memory storage: the next component
  of every key below the given one, each once.
\<close>

definition starts_with :: "string \<Rightarrow> string \<Rightarrow> bool" where
  "starts_with pre k \<longleftrightarrow> take (length pre) k = pre"

fun childLoop :: "string option \<Rightarrow> nat \<Rightarrow> key list \<Rightarrow> key list \<Rightarrow> key list" where
  "childLoop start childSize [] set' = []"
| "childLoop start childSize (key # keys) set' =
     (if \<not> str_truthy start \<or> (key \<noteq> the start \<and> starts_with (the start) key) then
        (let path = take childSize (splitKey key); childKey = buildKeyList path in
         if childKey \<in> set set' then childLoop start childSize keys set'
         else last path # childLoop start childSize keys (childKey # set'))
      else childLoop start childSize keys set')"

definition test_getChildren :: "mapState \<Rightarrow> key option \<Rightarrow> key list" where
  "test_getChildren s start =
     (let childSize = (if str_truthy start then length (splitKey (the start)) + 1 else 1);
          start' = (if str_truthy start then Some (the start @ '':'') else start)
      in childLoop start' childSize (map fst (ms_map s)) [])"

definition children_cache :: "nat \<Rightarrow> (jvalue, mapState, unit) cache" where
  "children_cache n = (map_cache n)\<lparr>c_storage := map_storage\<lparr>st_getChildren := Some test_getChildren\<rparr>\<rparr>"

lemma children_cache_simps [simp]:
  "keyLevelNodes (children_cache n) = n" "tser (children_cache n) = defaultTreeSerializer"
  "vser (children_cache n) = defaultValueSerializer"
  "c_storage (children_cache n) = map_storage\<lparr>st_getChildren := Some test_getChildren\<rparr>"
  by (simp_all add: children_cache_def)

lemma children_cache_laws: "storage_laws (map_storage\<lparr>st_getChildren := Some test_getChildren\<rparr>)"
  using map_laws.storage_laws_axioms by (auto simp: storage_laws_def map_storage_def)

lemma children_cache_searchable: "searchable_cache (children_cache (Suc n))"
proof -
  have "lawful_cache (children_cache (Suc n))"
    by (simp add: lawful_cache_def children_cache_laws default_serializer.serializer_laws_axioms)
  moreover have "plain_cache (children_cache (Suc n))"
    using map_cache_simps(5) [of "Suc n"] by (simp add: children_cache_def plain_cache_def)
  moreover have "isl (ts_deserialize defaultTreeSerializer [])"
    by (simp add: defaultTreeSerializer_def parse_def)
  ultimately show ?thesis by (simp add: searchable_cache_def searchable_cache_axioms_def)
qed

interpretation tests_cache: searchable_cache "children_cache (Suc n)" for n
  by (rule children_cache_searchable)

end
