(* ===== verification/Cache_Semaphore.thy ===== *)
theory Cache_Semaphore
  imports Cache_Maintenance Cache_Generators
begin

text \<open>
  The semaphore discipline of the writing operations. Whatever the caller's loop body does, whatever
  the storage holds and whichever error is thrown, every \<open>acquire\<close> is followed by the release of the
  same key before the next \<open>acquire\<close> and before the operation ends.

  The proofs go through the log of events: the locale \<open>event_log\<close> collects what holds for any
  property of logs that is closed under concatenation; it is interpreted for logs of deserialization
  errors only, for logs whose events each have a property, and for logs in which the semaphore is
  used correctly. The same logs tell which children \<open>deepTreeSet\<close> registers.
\<close>

section \<open>Properties of event logs\<close>

definition logs :: "(event list \<Rightarrow> bool) \<Rightarrow> ('s, 'm) world \<Rightarrow> ('s, 'm) world \<Rightarrow> bool" where
  "logs P w w' \<longleftrightarrow> (\<exists>es. w_events w' = w_events w @ es \<and> P es)"

abbreviation gen_logs :: "(event list \<Rightarrow> bool) \<Rightarrow> ('s, 'm) world \<Rightarrow> ('x, 'i, ('s, 'm) world) gen \<Rightarrow> bool" where
  "gen_logs P \<equiv> gen_rel (logs P)"

locale event_log =
  fixes P :: "event list \<Rightarrow> bool"
  assumes nil: "P []" and app: "P xs \<Longrightarrow> P ys \<Longrightarrow> P (xs @ ys)"
begin

lemma same: "w_events w' = w_events w \<Longrightarrow> logs P w w'"
  by (auto simp: logs_def nil)

lemma compose: "logs P w w1 \<Longrightarrow> logs P w1 w2 \<Longrightarrow> logs P w w2"
  by (auto simp: logs_def intro: app)

lemma log_rel: "world_rel (logs P)"
  by (rule world_rel.intro) (blast intro: same compose)+

lemmas bind = world_rel.rel_bind [OF log_rel]
lemmas yielded = world_rel.rel_yielded [OF log_rel]
lemmas called = world_rel.rel_called [OF log_rel]

end

section \<open>Logs of deserialization errors\<close>

fun deserialize_event :: "event \<Rightarrow> bool" where
  "deserialize_event (DeserializeError e k) = True"
| "deserialize_event e = False"

interpretation each_log: event_log "list_all P" for P :: "event \<Rightarrow> bool"
  by unfold_locales auto

abbreviation silent :: "event list \<Rightarrow> bool" where
  "silent \<equiv> list_all deserialize_event"

lemma logs_mono: "logs P w w' \<Longrightarrow> (\<And>es. P es \<Longrightarrow> Q es) \<Longrightarrow> logs Q w w'"
  by (auto simp: logs_def)

lemma gen_logs_mono: "gen_logs P w r \<Longrightarrow> (\<And>es. P es \<Longrightarrow> Q es) \<Longrightarrow> gen_logs Q w r"
  by (erule gen_rel_mono) (rule logs_mono)

interpretation silent_log: reading_rel "logs silent"
proof -
  have "world_rel (logs silent)" by (rule each_log.log_rel)
  then show "reading_rel (logs silent)" by (simp add: reading_rel_def reading_rel_axioms_def logs_def)
qed

lemma events_persistStep [simp]: "w_events (persistStep c step cur k ttl w) = w_events w"
  by (simp add: persistStep_def Let_def split: option.splits)

lemma events_persistTree [simp]: "w_events (persistTree c k ttl t w) = w_events w"
  by (simp add: persistTree_def Let_def)

section \<open>Logs without semaphore events\<close>

fun sem_event :: "event \<Rightarrow> bool" where
  "sem_event (Acquire k) = True"
| "sem_event (ScheduleRelease k) = True"
| "sem_event e = False"

abbreviation quiet :: "event list \<Rightarrow> bool" where
  "quiet \<equiv> list_all (\<lambda>e. \<not> sem_event e)"

lemma silent_each:
  assumes "silent es" "\<And>e. deserialize_event e \<Longrightarrow> P e"
  shows "list_all P es"
  using assms by (induction es) auto

lemma silent_quiet: "silent es \<Longrightarrow> quiet es"
  by (erule silent_each) (auto elim: deserialize_event.elims)

lemmas quiet_getStep = logs_mono [OF silent_log.rel_getStep silent_quiet]
lemmas quiet_visitNode = gen_logs_mono [OF silent_log.rel_visitNode silent_quiet]
lemmas quiet_treeLoop = gen_logs_mono [OF silent_log.rel_treeLoop silent_quiet]
lemmas quiet_saveItems = gen_logs_mono [OF silent_log.rel_saveItems silent_quiet]

lemma quiet_register: "logs quiet w (registerChild c p k w)"
  by (auto simp: logs_def)

lemma quiet_register_all: "logs quiet w (fold (registerChild c p) ks w)"
  by (induction ks arbitrary: w) (auto intro: each_log.same each_log.compose quiet_register)

section \<open>Logs in which the semaphore is used correctly\<close>

text \<open>The first argument is the key held, if any.\<close>

fun sem_ok :: "key option \<Rightarrow> event list \<Rightarrow> bool" where
  "sem_ok h [] \<longleftrightarrow> h = None"
| "sem_ok h (Acquire k # es) \<longleftrightarrow> h = None \<and> sem_ok (Some k) es"
| "sem_ok h (ScheduleRelease k # es) \<longleftrightarrow> h = Some k \<and> sem_ok None es"
| "sem_ok h (e # es) \<longleftrightarrow> sem_ok h es"

lemma sem_ok_append: "sem_ok h xs \<Longrightarrow> sem_ok None ys \<Longrightarrow> sem_ok h (xs @ ys)"
  by (induction h xs rule: sem_ok.induct) auto

lemma sem_ok_quiet: "quiet xs \<Longrightarrow> sem_ok h (xs @ ys) \<longleftrightarrow> sem_ok h ys"
  by (induction h xs rule: sem_ok.induct) auto

interpretation sem_log: event_log "sem_ok None"
  by unfold_locales (auto intro: sem_ok_append)

lemma quiet_sem: "logs quiet w w' \<Longrightarrow> logs (sem_ok None) w w'"
  using sem_ok_quiet [of _ None "[]"] by (auto simp: logs_def)

lemma sem_guarded:
  assumes "\<And>w. gen_logs quiet w (body w)"
  shows "gen_logs (sem_ok None) w (guarded cond k w body)"
proof -
  let ?w = "if cond then emit (Acquire k) w else w"
  obtain r out w' where b: "body ?w = (r, out, w')" by (cases "body ?w")
  with assms [of ?w] obtain es where "w_events w' = w_events ?w @ es" "quiet es"
    by (auto simp: logs_def)
  moreover have "quiet es \<Longrightarrow> sem_ok None (Acquire k # es @ [ScheduleRelease k])"
    by (simp add: sem_ok_quiet)
  ultimately show ?thesis
    using sem_ok_quiet [of es None "[]"] b by (auto simp: guarded_eq logs_def)
qed

lemma quiet_and_pure:
  "gen_logs quiet w r \<Longrightarrow> (\<And>x out w'. w_events (snd (snd (f x (out, w')))) = w_events w')
   \<Longrightarrow> gen_logs quiet w (and_then r f)"
  by (rule each_log.bind) (auto simp: gen_rel_def intro: each_log.same)

lemma sem_step:
  assumes "logs quiet w w1" "\<And>w. gen_logs quiet w (body w)"
  shows "gen_logs (sem_ok None) w (guarded cond k w1 body)"
  using sem_log.compose [OF quiet_sem [OF assms(1)]] sem_guarded [of body w1 cond k, OF assms(2)]
  by (simp add: gen_rel_def)

lemma sem_keyStep: "gen_logs (sem_ok None) (snd g) (keyStep c a level ck ref g)"
  unfolding keyStep_def Let_def
  by (cases g; cases "getChainedKey (a_path a) level ck")
    (auto intro!: sem_log.same sem_step quiet_register quiet_and_pure
      quiet_visitNode [where g = "(out, w)" for out w, simplified] split: prod.splits)

lemma sem_keyLoop: "gen_logs (sem_ok None) (snd g) (keyLoop c a upTo level ck ref g)"
proof (induction "upTo - level" arbitrary: level ck ref g rule: less_induct)
  case less
  have "gen_logs (sem_ok None) (snd g) (and_then (keyStep c a level ck ref g)
      (\<lambda>(ck, ref) g. keyLoop c a upTo (Suc level) (Some ck) (Some ref) g))" if "level < upTo"
    using that less by (auto intro!: sem_log.bind sem_keyStep split: prod.splits)
  then show ?case
    by (subst keyLoop.simps) (auto simp: gen_rel_def intro: sem_log.same)
qed

lemma sem_deepTreeSet: "gen_logs (sem_ok None) (snd g) (deepTreeSet c a prev g)"
  unfolding deepTreeSet_def Let_def
  by (intro sem_log.bind [OF sem_keyLoop])
    (auto intro!: sem_log.same sem_guarded each_log.same quiet_and_pure
      quiet_treeLoop [where g = "(out, w)" for out w, simplified] split: prod.splits sum.splits)

lemma sem_setNode: "logs (sem_ok None) w (snd (setNode c path value ttl now w))"
  using sem_deepTreeSet [of "([], w)" c "setNodeArgs path value ttl now" "[]"]
  by (auto simp: setNode_def gen_rel_def sem_log.same
      split: nodeValue.splits option.splits prod.splits sum.splits halt.splits)

section \<open>\<open>fullTreeSet\<close>\<close>

lemma quiet_registerKeyLevelChildren: "logs quiet w (registerKeyLevelChildren c i k w)"
  by (auto simp: registerKeyLevelChildren_def intro: each_log.same quiet_register_all split: option.splits)

lemma quiet_saveFullTreeValue: "gen_logs quiet (snd g) (saveFullTreeValue c a i k g)"
  unfolding saveFullTreeValue_def Let_def
  by (cases g) (auto intro!: each_log.same each_log.bind
      quiet_saveItems [where g = "(out, w)" for out w, simplified] split: prod.splits sum.splits option.splits)

lemma quiet_fullSetStep: "gen_logs quiet (snd g) (fullSetStep c a i k g)"
proof -
  obtain out w where g: "g = (out, w)" by (cases g)
  let ?w = "registerKeyLevelChildren c i k w"
  have "logs quiet w (snd (getStep c sv ref f ?w))" for sv ref f
    by (rule each_log.compose [OF quiet_registerKeyLevelChildren quiet_getStep])
  then show ?thesis
    unfolding fullSetStep_def Let_def g prod.case snd_conv
    by (intro each_log.bind each_log.called) (auto intro!: each_log.yielded each_log.same)
qed

lemma sem_fullTreeItems: "gen_logs (sem_ok None) (snd g) (fullTreeItems c a ns err g)"
proof (induction ns arbitrary: g)
  case (Cons i ns)
  show ?case
    unfolding fullTreeItems.simps Let_def
    by (auto intro!: sem_log.bind Cons [where g = "(out, w)" for out w, simplified] sem_guarded
        quiet_saveFullTreeValue [where g = "(out, w)" for out w, simplified]
        quiet_fullSetStep [where g = "(out, w)" for out w, simplified]
        simp: gen_rel_def [of _ _ "(_, g)"] sem_log.same)
qed (auto simp: gen_rel_def sem_log.same split: option.splits)

lemma sem_fullTreeSet: "gen_logs (sem_ok None) (snd g) (fullTreeSet c a t g)"
  by (simp add: fullTreeSet_def sem_fullTreeItems split: prod.splits)

section \<open>\<open>prune\<close>\<close>

lemma sem_pruneOne: "logs (sem_ok None) w (pruneOne c now item w)"
  by (auto simp: pruneOne_def Let_def logs_def sem_log.nil split: option.splits prod.splits)

lemma quiet_readTree: "logs quiet w (snd (readTree c now k w))"
  by (auto simp: readTree_def deserializeTree_def deserializeTreeFromList_def logs_def
      split: buffer.splits sum.splits prod.splits)

lemma getNodeRef_last_events: "snd (getNodeRef c path True now w) = w"
  by (auto simp: getNodeRef_def Let_def and_then_def split: sum.splits prod.splits option.splits)

lemma sem_pruneKeys: "logs (sem_ok None) w (snd (pruneKeys c now ks w))"
proof (induction ks arbitrary: w)
  case (Cons k ks)
  obtain r where "getNodeRef c (splitKey k) True now w = (r, w)"
    using getNodeRef_last_events by (metis prod.collapse)
  with Cons show ?case
    by (auto intro: sem_log.same sem_log.compose [OF sem_pruneOne] split: sum.splits option.splits)
qed (simp add: sem_log.same)

lemma sem_prune: "logs (sem_ok None) w (snd (prune c pattern now w))"
  by (auto simp: prune_def sem_pruneKeys sem_log.same split: option.splits)

section \<open>When \<open>setNode\<close> takes the semaphore\<close>

lemma unguarded [simp]: "guarded False k w body = body w"
  by (simp add: guarded_eq split: prod.splits)

lemma each_guarded:
  assumes "b \<Longrightarrow> P (Acquire k) \<and> P (ScheduleRelease k)" "\<And>w. gen_logs (list_all P) w (body w)"
  shows "gen_logs (list_all P) w (guarded b k w body)"
  using assms(1) assms(2) [of "if b then emit (Acquire k) w else w"]
  by (cases "body (if b then emit (Acquire k) w else w)") (auto simp: guarded_eq logs_def split: if_splits)

lemma each_keyStep:
  assumes "\<And>e. deserialize_event e \<Longrightarrow> P e"
    "\<And>k. a_minLevelSemaphore a \<le> level \<Longrightarrow> P (Acquire k) \<and> P (ScheduleRelease k)"
    "\<And>ck' k. getChainedKey (a_path a) level ck = Inr (ck', k) \<Longrightarrow> P (RegisterChild ck k)"
  shows "gen_logs (list_all P) (snd g) (keyStep c a level ck ref g)"
proof (cases "getChainedKey (a_path a) level ck")
  case (Inl e)
  then show ?thesis by (cases g) (simp add: keyStep_def each_log.same)
next
  case (Inr p)
  obtain ck' key out w where p: "p = (ck', key)" and g: "g = (out, w)" by (cases p; cases g)
  let ?body = "\<lambda>w. let currentSerialized = store_get c w ck'; r = ChainedObject key (level + 1) ref
     in and_then (visitNode c a r currentSerialized (out, w)) (\<lambda>step (out, w).
          (Inr (ck', r), out, persistStep c step currentSerialized ck' (a_ttl a) w))"
  have body: "gen_logs (list_all P) w' (?body w')" for w'
    unfolding Let_def
    by (intro each_log.bind gen_logs_mono [OF silent_log.rel_visitNode [where g = "(out, w')", simplified] silent_each [OF _ assms(1)]])
      (auto intro: each_log.same)
  have reg: "logs (list_all P) w (registerChild c ck key w)"
    using assms(3) Inr p by (simp add: logs_def)
  have "gen_logs (list_all P) w1 (guarded (a_minLevelSemaphore a \<le> level) ck' w1 ?body)" for w1
    by (intro each_guarded assms(2) body)
  then show ?thesis
    using each_log.compose [OF reg] by (simp add: keyStep_def Inr p g gen_rel_def)
qed

text \<open>\<open>I\<close> is kept of the chained key from level to level.\<close>

lemma each_keyLoop:
  assumes "\<And>e. deserialize_event e \<Longrightarrow> P e"
    and "\<And>level k. level < upTo \<Longrightarrow> a_minLevelSemaphore a \<le> level \<Longrightarrow> P (Acquire k) \<and> P (ScheduleRelease k)"
    and "\<And>level ck ck' k. level < upTo \<Longrightarrow> I level ck \<Longrightarrow> getChainedKey (a_path a) level ck = Inr (ck', k) \<Longrightarrow>
           P (RegisterChild ck k) \<and> I (Suc level) (Some ck')"
  shows "I level ck \<Longrightarrow> gen_logs (list_all P) (snd g) (keyLoop c a upTo level ck ref g)"
proof (induction "upTo - level" arbitrary: level ck ref g)
  case 0
  then show ?case by (subst keyLoop.simps) (auto simp: gen_rel_def intro: each_log.same)
next
  case (Suc n)
  then have lt: "level < upTo" by simp
  have "gen_logs (list_all P) (snd g) (and_then (keyStep c a level ck ref g)
      (\<lambda>(ck, ref) g. keyLoop c a upTo (Suc level) (Some ck) (Some ref) g))"
  proof (rule each_log.bind)
    show "gen_logs (list_all P) (snd g) (keyStep c a level ck ref g)"
      using assms lt Suc.prems by (intro each_keyStep) blast+
    fix x out w' assume st: "keyStep c a level ck ref g = (Inr x, out, w')"
    obtain ck' ref' where x: "x = (ck', ref')" by (cases x)
    then have "I (Suc level) (Some ck')" using keyStep_key st assms(3) [OF lt Suc.prems] by blast
    from Suc.hyps(1) [OF _ this, where g = "(out, w')"] Suc.hyps(2)
    show "gen_logs (list_all P) w' ((case x of (ck, ref) \<Rightarrow> keyLoop c a upTo (Suc level) (Some ck) (Some ref)) (out, w'))"
      by (simp add: x)
  qed
  then show ?case using lt by (subst keyLoop.simps) simp
qed

lemma keyLoop_level: "keyLoop c a upTo level ck ref g = (Inr (l, ck', ref'), g') \<Longrightarrow> l = max level upTo"
proof (induction "upTo - level" arbitrary: level ck ref g)
  case 0
  then show ?case by (subst (asm) keyLoop.simps) auto
next
  case (Suc n)
  then have "level < upTo" by simp
  with Suc.prems obtain ck1 ref1 g1 where "keyLoop c a upTo (Suc level) (Some ck1) (Some ref1) g1 = (Inr (l, ck', ref'), g')"
    by (subst (asm) keyLoop.simps) (auto simp: and_then_def split: sum.splits prod.splits)
  from Suc.hyps(1) [OF _ this] Suc.hyps(2) show ?case by simp
qed

lemma each_deepTreeSet:
  assumes "\<And>e. deserialize_event e \<Longrightarrow> P e"
    and "\<And>level k. level < length (a_path a) \<Longrightarrow> level < keyLevelNodes c - 1 \<Longrightarrow> a_minLevelSemaphore a \<le> level \<Longrightarrow>
           P (Acquire k) \<and> P (ScheduleRelease k)"
    and "\<And>k. 1 < keyLevelNodes c \<Longrightarrow> keyLevelNodes c \<le> length (a_path a) \<Longrightarrow>
           a_minLevelSemaphore a \<le> keyLevelNodes c \<Longrightarrow> P (Acquire k) \<and> P (ScheduleRelease k)"
    and "\<And>level ck ck' k. level < min (keyLevelNodes c - 1) (length (a_path a)) \<Longrightarrow> I level ck \<Longrightarrow>
           getChainedKey (a_path a) level ck = Inr (ck', k) \<Longrightarrow> P (RegisterChild ck k) \<and> I (Suc level) (Some ck')"
    and "I 0 None"
  shows "gen_logs (list_all P) (snd g) (deepTreeSet c a [] g)"
  unfolding deepTreeSet_def Let_def
proof (rule each_log.bind, goal_cases)
  case 1
  show ?case using assms by (intro each_keyLoop [where I = I]) auto
next
  case (2 x out w)
  obtain l ck ref where x: "x = (l, ck, ref)" by (cases x)
  then have l: "l = min (keyLevelNodes c - 1) (length (a_path a))" using 2 keyLoop_level by fastforce
  have tree: "gen_logs (list_all P) w' (and_then (treeLoop c a m key ref t False None (out, w'))
      (\<lambda>(tree, changed, maxTtl) (out, w). (Inr (), out, if changed then persistTree c ck' maxTtl tree w else w)))"
    for w' m key t ck'
    by (intro each_log.bind gen_logs_mono [OF silent_log.rel_treeLoop [where g = "(out, w')", simplified] silent_each [OF _ assms(1)]])
      (auto intro!: each_log.same)
  have sem: "P (Acquire k) \<and> P (ScheduleRelease k)"
    if "l < length (a_path a)" "str_truthy ck" "a_minLevelSemaphore a \<le> Suc l" for k
  proof -
    have "keyLevelNodes c - 1 \<noteq> 0"
    proof
      assume "keyLevelNodes c - 1 = 0"
      with 2 x have "ck = None" by (subst (asm) keyLoop.simps) (auto split: prod.splits)
      with that(2) show False by simp
    qed
    with assms(3) that l show ?thesis by (auto simp: min_def split: if_splits)
  qed
  show ?case
    unfolding x using sem
    by (auto intro!: each_log.same each_guarded tree split: sum.splits)
qed

lemma setNode_unguarded:
  assumes "length path \<noteq> keyLevelNodes c"
  shows "logs quiet w (snd (setNode c path value ttl now w))"
proof -
  let ?a = "setNodeArgs path value ttl now"
  have "gen_logs quiet (snd ([] :: 'a step list, w)) (deepTreeSet c ?a [] ([], w))"
    using assms
    by (intro each_deepTreeSet [where I = "\<lambda>_ _. True"])
      (auto simp: setNodeArgs_def elim: deserialize_event.elims)
  then show ?thesis
    by (auto simp: setNode_def gen_rel_def each_log.same
        split: nodeValue.splits option.splits prod.splits sum.splits halt.splits)
qed

section \<open>Which children \<open>deepTreeSet\<close> registers\<close>

definition registered :: "event list \<Rightarrow> (key option \<times> key) list" where
  "registered es = concat (map (\<lambda>e. case e of RegisterChild p k \<Rightarrow> [(p, k)] | _ \<Rightarrow> []) es)"

lemma registered_simps [simp]:
  "registered [] = []" "registered (es @ ds) = registered es @ registered ds"
  "registered (e # es) = (case e of RegisterChild p k \<Rightarrow> [(p, k)] | _ \<Rightarrow> []) @ registered es"
  by (simp_all add: registered_def)

fun register_event :: "event \<Rightarrow> bool" where
  "register_event (RegisterChild p k) = True"
| "register_event e = False"

abbreviation unregistered :: "event list \<Rightarrow> bool" where
  "unregistered \<equiv> list_all (\<lambda>e. \<not> register_event e)"

lemma registered_none: "unregistered es \<Longrightarrow> registered es = []"
  by (induction es) (auto split: event.splits)

lemma deserialize_unregistered: "deserialize_event e \<Longrightarrow> \<not> register_event e"
  by (cases e) simp_all

lemma keyStep_registers:
  assumes key: "getChainedKey (a_path a) level ck = Inr (ck', k)" and reg: "st_registerChild (c_storage c) \<noteq> None"
  shows "gen_logs (\<lambda>es. registered es = [(ck, k)]) (snd g) (keyStep c a level ck ref g)"
proof -
  obtain out w where g: "g = (out, w)" by (cases g)
  let ?body = "\<lambda>w. let currentSerialized = store_get c w ck'; r = ChainedObject k (level + 1) ref
     in and_then (visitNode c a r currentSerialized (out, w)) (\<lambda>step (out, w).
          (Inr (ck', r), out, persistStep c step currentSerialized ck' (a_ttl a) w))"
  have body: "gen_logs unregistered w' (?body w')" for w'
    unfolding Let_def
    by (intro each_log.bind gen_logs_mono [OF silent_log.rel_visitNode [where g = "(out, w')", simplified] silent_each [OF _ deserialize_unregistered]])
      (auto intro: each_log.same)
  let ?w = "registerChild c ck k w"
  obtain r out' w' where run: "guarded (a_minLevelSemaphore a \<le> level) ck' ?w ?body = (r, out', w')" by (rule prod_cases3)
  have "gen_logs unregistered ?w (guarded (a_minLevelSemaphore a \<le> level) ck' ?w ?body)"
    by (intro each_guarded body) simp
  with run obtain ds where "w_events w' = w_events ?w @ ds" "unregistered ds" by (auto simp: gen_rel_def logs_def)
  moreover have "w_events ?w = w_events w @ [RegisterChild ck k]"
    using reg by (auto simp: registerChild_def)
  ultimately show ?thesis using run by (simp add: keyStep_def key g gen_rel_def logs_def registered_none)
qed

lemma keyLoop_registers:
  assumes reg: "st_registerChild (c_storage c) \<noteq> None" and hd: "hd (a_path a) \<noteq> []" and up: "upTo \<le> length (a_path a)"
  shows "keyLoop c a upTo level (chained_key (a_path a) level) ref g = (r, g') \<Longrightarrow>
    \<exists>es n. w_events (snd g') = w_events (snd g) @ es
      \<and> registered es = take n (map (\<lambda>i. (chained_key (a_path a) i, a_path a ! i)) [level..<upTo])
      \<and> (isl r \<or> registered es = map (\<lambda>i. (chained_key (a_path a) i, a_path a ! i)) [level..<upTo])"
proof (induction "upTo - level" arbitrary: level ref g)
  case 0
  then show ?case by (subst (asm) keyLoop.simps) (auto split: prod.splits)
next
  case (Suc n)
  let ?p = "a_path a" and ?pair = "\<lambda>i. (chained_key (a_path a) i, a_path a ! i)"
  from Suc.hyps(2) have lt: "level < upTo" by simp
  have key: "getChainedKey ?p level (chained_key ?p level) = Inr (join (take (Suc level) ?p), ?p ! level)"
    using getChainedKey_next [of level ?p] lt up hd by simp
  have upt: "map ?pair [level..<upTo] = ?pair level # map ?pair [Suc level..<upTo]" using lt by (simp add: upt_conv_Cons)
  obtain r1 g1 where st: "keyStep c a level (chained_key ?p level) ref g = (r1, g1)" by (rule prod.exhaust)
  obtain es1 where es1: "w_events (snd g1) = w_events (snd g) @ es1" "registered es1 = [?pair level]"
    using keyStep_registers [OF key reg, of g ref] st by (auto simp: gen_rel_def logs_def split: prod.splits)
  show ?case
  proof (cases r1)
    case (Inl h)
    then have "r = Inl h" "g' = g1" using Suc.prems lt st by (subst (asm) keyLoop.simps, simp)+
    then show ?thesis using es1 unfolding upt by (intro exI [of _ es1] exI [of _ 1]) simp
  next
    case (Inr x)
    obtain ck1 ref1 where x: "x = (ck1, ref1)" by (cases x)
    have "ck1 = join (take (Suc level) ?p)" using keyStep_key [OF st [unfolded Inr x]] key by simp
    then have "Some ck1 = chained_key ?p (Suc level)" by simp
    then have "keyLoop c a upTo (Suc level) (chained_key ?p (Suc level)) (Some ref1) g1 = (r, g')"
      using Suc.prems lt st Inr x by (subst (asm) keyLoop.simps) simp
    moreover have "n = upTo - Suc level" using Suc.hyps(2) by simp
    ultimately obtain es i where es: "w_events (snd g') = w_events (snd g1) @ es"
      "registered es = take i (map ?pair [Suc level..<upTo])" "isl r \<or> registered es = map ?pair [Suc level..<upTo]"
      using Suc.hyps(1) by blast
    then show ?thesis using es1 unfolding upt by (intro exI [of _ "es1 @ es"] exI [of _ "Suc i"]) auto
  qed
qed

lemma path_pairs_take: "path_pairs (take n path) = map (\<lambda>i. (chained_key path i, path ! i)) [0..<min n (length path)]"
  by (auto simp: path_pairs_def min_def)

lemma deepTreeSet_registers:
  assumes "hd (a_path a) \<noteq> []" "st_registerChild (c_storage c) \<noteq> None"
    and run: "deepTreeSet c a [] g = (r, g')"
  shows "\<exists>es n. w_events (snd g') = w_events (snd g) @ es
    \<and> registered es = take n (path_pairs (take (keyLevelNodes c - 1) (a_path a)))
    \<and> (isl r \<or> registered es = path_pairs (take (keyLevelNodes c - 1) (a_path a)))"
proof -
  let ?u = "min (keyLevelNodes c - 1) (length (a_path a))"
  obtain r1 g1 where loop: "keyLoop c a ?u 0 None None g = (r1, g1)" by (rule prod.exhaust)
  then obtain es1 n where es1: "w_events (snd g1) = w_events (snd g) @ es1"
    "registered es1 = take n (path_pairs (take (keyLevelNodes c - 1) (a_path a)))"
    "isl r1 \<or> registered es1 = path_pairs (take (keyLevelNodes c - 1) (a_path a))"
    using keyLoop_registers [OF assms(2,1), of ?u 0 None g r1 g1] unfolding path_pairs_take by fastforce
  have tree: "gen_logs unregistered w' (and_then (treeLoop c a l key ref t False None (out, w'))
      (\<lambda>(tree, changed, maxTtl) (out, w). (Inr (), out, if changed then persistTree c ck maxTtl tree w else w)))"
    for w' l key ref t ck out
    by (intro each_log.bind gen_logs_mono [OF silent_log.rel_treeLoop [where g = "(out, w')", simplified] silent_each [OF _ deserialize_unregistered]])
      (auto intro!: each_log.same)
  show ?thesis
  proof (cases r1)
    case (Inl h)
    then have "isl r" "g' = g1" using run loop by (auto simp: deepTreeSet_def)
    with es1 show ?thesis by blast
  next
    case (Inr x)
    obtain l ck ref where x: "x = (l, ck, ref)" by (cases x)
    obtain out w where g1: "g1 = (out, w)" by (cases g1)
    have "gen_logs unregistered w (deepTreeSet c a [] g)"
      unfolding deepTreeSet_def Let_def
      using loop Inr x g1 tree
      by (auto intro!: each_log.same each_guarded tree split: sum.splits)
    with run obtain ds where "w_events (snd g') = w_events w @ ds" "unregistered ds" by (auto simp: gen_rel_def logs_def split: prod.splits)
    with es1 g1 Inr show ?thesis by (intro exI [of _ "es1 @ ds"] exI [of _ n]) (auto simp: registered_none)
  qed
qed

end
