(* ===== verification/Cache_WaitAll.thy ===== *)
theory Cache_WaitAll
  imports Cache_Semaphore "HOL-Library.Sublist"
begin

text \<open>
  The callbacks of \<open>prune\<close> (\<open>src/tree-key-cache.ts\<close>) as concurrent steps. \<open>waitAll\<close> calls the callback for
  each item that passes the filters and waits for all of them at the end, so the enumeration of the
  keys and the callbacks overlap at every \<open>await\<close>: of the \<open>acquire\<close>, of \<open>getCurrentTtl\<close> and of
  \<open>persistTree\<close>. The step relation allows every interleaving, those in which the semaphore makes a
  callback wait and those in which \<open>waitAll\<close> runs the callbacks in turn included.

  The storage may reject the write of a key. The callback then ends without releasing the key, as
  the code has no \<open>finally\<close>, and the promise of \<open>prune\<close> rejects.

  For a storage that enumerates each key once, all interleavings end, and they end with the same
  storage; without rejections it is the one that \<open>prune\<close> leaves when it takes the keys in turn.
\<close>

section \<open>States and steps\<close>

text \<open>What a callback does next.\<close>

datatype callback =
    Acquiring (cb_key: key) "rvalue tree"
  | ReadingTtl (cb_key: key) "rvalue tree"
  | Persisting (cb_key: key) "rvalue tree" "int option"
  | Releasing (cb_key: key)

text \<open>The keys still to be enumerated, the callbacks that are not done, and whether something has been thrown.\<close>

record ('s, 'm) pruning =
  pr_keys :: "key list"
  pr_callbacks :: "callback list"
  pr_failed :: bool
  pr_world :: "('s, 'm) world"

definition startCallback :: "(key \<times> rvalue tree) option \<Rightarrow> callback list" where
  "startCallback p = (case p of None \<Rightarrow> [] | Some (chainedKey, t) \<Rightarrow> [Acquiring chainedKey t])"

inductive prune_step ::
  "('v, 's, 'm) cache \<Rightarrow> int \<Rightarrow> (key \<Rightarrow> bool) \<Rightarrow> ('s, 'm) pruning \<Rightarrow> ('s, 'm) pruning \<Rightarrow> bool" for c now rejects where
  throws: "getNodeRef c (splitKey k) True now w = (Inl e, w') \<Longrightarrow>
    prune_step c now rejects \<lparr>pr_keys = k # ks, pr_callbacks = cbs, pr_failed = f, pr_world = w\<rparr>
      \<lparr>pr_keys = [], pr_callbacks = cbs, pr_failed = True, pr_world = w'\<rparr>"
| skips: "getNodeRef c (splitKey k) True now w = (Inr None, w') \<Longrightarrow>
    prune_step c now rejects \<lparr>pr_keys = k # ks, pr_callbacks = cbs, pr_failed = f, pr_world = w\<rparr>
      \<lparr>pr_keys = ks, pr_callbacks = cbs, pr_failed = f, pr_world = w'\<rparr>"
| starts: "getNodeRef c (splitKey k) True now w = (Inr (Some item), w') \<Longrightarrow>
    prune_step c now rejects \<lparr>pr_keys = k # ks, pr_callbacks = cbs, pr_failed = f, pr_world = w\<rparr>
      \<lparr>pr_keys = ks, pr_callbacks = cbs @ startCallback (pruneFilter c now item), pr_failed = f, pr_world = w'\<rparr>"
| acquires:
    "prune_step c now rejects \<lparr>pr_keys = ks, pr_callbacks = xs @ Acquiring k t # ys, pr_failed = f, pr_world = w\<rparr>
      \<lparr>pr_keys = ks, pr_callbacks = xs @ ReadingTtl k t # ys, pr_failed = f, pr_world = emit (Acquire k) w\<rparr>"
| reads:
    "prune_step c now rejects \<lparr>pr_keys = ks, pr_callbacks = xs @ ReadingTtl k t # ys, pr_failed = f, pr_world = w\<rparr>
      \<lparr>pr_keys = ks, pr_callbacks = xs @ Persisting k t (st_getCurrentTtl (c_storage c) (w_store w) k) # ys,
        pr_failed = f, pr_world = w\<rparr>"
| persists: "\<not> rejects k \<Longrightarrow>
    prune_step c now rejects \<lparr>pr_keys = ks, pr_callbacks = xs @ Persisting k t ttl # ys, pr_failed = f, pr_world = w\<rparr>
      \<lparr>pr_keys = ks, pr_callbacks = xs @ Releasing k # ys, pr_failed = f, pr_world = persistTree c k ttl t w\<rparr>"
| rejected: "rejects k \<Longrightarrow>
    prune_step c now rejects \<lparr>pr_keys = ks, pr_callbacks = xs @ Persisting k t ttl # ys, pr_failed = f, pr_world = w\<rparr>
      \<lparr>pr_keys = ks, pr_callbacks = xs @ ys, pr_failed = True, pr_world = w\<rparr>"
| releases:
    "prune_step c now rejects \<lparr>pr_keys = ks, pr_callbacks = xs @ Releasing k # ys, pr_failed = f, pr_world = w\<rparr>
      \<lparr>pr_keys = ks, pr_callbacks = xs @ ys, pr_failed = f, pr_world = dontWait (Some (ScheduleRelease k)) w\<rparr>"

definition start_prune :: "key list \<Rightarrow> ('s, 'm) world \<Rightarrow> ('s, 'm) pruning" where
  "start_prune ks w = \<lparr>pr_keys = ks, pr_callbacks = [], pr_failed = False, pr_world = w\<rparr>"

definition pruned :: "('s, 'm) pruning \<Rightarrow> bool" where
  "pruned P \<longleftrightarrow> pr_keys P = [] \<and> pr_callbacks P = []"

section \<open>Every run ends\<close>

fun callback_work :: "callback \<Rightarrow> nat" where
  "callback_work (Acquiring k t) = 4"
| "callback_work (ReadingTtl k t) = 3"
| "callback_work (Persisting k t ttl) = 2"
| "callback_work (Releasing k) = 1"

definition prune_work :: "('s, 'm) pruning \<Rightarrow> nat" where
  "prune_work P = 5 * length (pr_keys P) + sum_list (map callback_work (pr_callbacks P))"

lemma prune_step_work: "prune_step c now rejects P P' \<Longrightarrow> prune_work P' < prune_work P"
  by (induction rule: prune_step.induct) (auto simp: prune_work_def startCallback_def split: option.splits)

lemma prune_progress:
  assumes "\<not> pruned P"
  shows "\<exists>P'. prune_step c now rejects P P'"
proof -
  obtain ks cbs f w where P: "P = \<lparr>pr_keys = ks, pr_callbacks = cbs, pr_failed = f, pr_world = w\<rparr>" by (cases P)
  show ?thesis
  proof (cases ks)
    case (Cons k ks')
    obtain r w' where g: "getNodeRef c (splitKey k) True now w = (r, w')" by (rule prod.exhaust)
    then show ?thesis
      unfolding P Cons by (cases r; cases "projr r") (auto intro: prune_step.throws prune_step.skips prune_step.starts)
  next
    case Nil
    then obtain cb ys where cbs: "cbs = [] @ cb # ys" using assms P by (cases cbs) (auto simp: pruned_def)
    show ?thesis
    proof (cases cb)
      case (Persisting k t ttl)
      then show ?thesis unfolding P cbs by (cases "rejects k") (blast intro: prune_step.intros)+
    qed (simp_all only: P cbs, (blast intro: prune_step.intros)+)
  qed
qed

lemma prune_completes: "\<exists>P'. (prune_step c now rejects)\<^sup>*\<^sup>* P P' \<and> pruned P'"
proof (induction P rule: measure_induct_rule [of prune_work])
  case (less P)
  show ?case
  proof (cases "pruned P")
    case False
    then obtain P1 where P1: "prune_step c now rejects P P1" using prune_progress by blast
    with less [OF prune_step_work [OF P1]] show ?thesis
      by (meson converse_rtranclp_into_rtranclp)
  qed blast
qed

section \<open>Processing in turn is one of the runs\<close>

abbreviation sequential :: "(unit, ('s, 'm) world) result \<Rightarrow> ('s, 'm) pruning" where
  "sequential r \<equiv> \<lparr>pr_keys = [], pr_callbacks = [], pr_failed = isl (fst r), pr_world = snd r\<rparr>"

lemma prune_callback_run:
  assumes "\<not> rejects k"
  shows "(prune_step c now rejects)\<^sup>*\<^sup>*
     \<lparr>pr_keys = ks, pr_callbacks = [Acquiring k t], pr_failed = f, pr_world = w\<rparr>
     \<lparr>pr_keys = ks, pr_callbacks = [], pr_failed = f, pr_world = dontWait (Some (ScheduleRelease k))
        (persistTree c k (st_getCurrentTtl (c_storage c) (w_store (emit (Acquire k) w)) k) t (emit (Acquire k) w))\<rparr>"
  using prune_step.acquires [of c now rejects ks "[]" k t "[]" f w]
    prune_step.reads [of c now rejects ks "[]" k t "[]" f "emit (Acquire k) w"]
    prune_step.persists [of rejects k c now ks "[]" t _ "[]" f "emit (Acquire k) w", OF assms]
    prune_step.releases [of c now rejects ks "[]" k "[]" f]
  by (simp only: append_Nil) (meson rtranclp.rtrancl_into_rtrancl rtranclp.rtrancl_refl)

lemma prune_in_turn:
  assumes "\<And>k. \<not> rejects k"
  shows "(prune_step c now rejects)\<^sup>*\<^sup>* (start_prune ks w) (sequential (pruneKeys c now ks w))"
  unfolding start_prune_def
proof (induction ks arbitrary: w)
  case (Cons k ks)
  obtain r w' where g: "getNodeRef c (splitKey k) True now w = (r, w')" by (rule prod.exhaust)
  show ?case
  proof (cases r)
    case (Inl e)
    with g prune_step.throws [of c k now w e w' rejects ks "[]" False] show ?thesis by auto
  next
    case r: (Inr x)
    show ?thesis
    proof (cases x)
      case None
      with g r prune_step.skips [of c k now w w' rejects ks "[]" False] Cons.IH [of w'] show ?thesis
        by (auto intro: converse_rtranclp_into_rtranclp)
    next
      case (Some item)
      let ?mid = "\<lparr>pr_keys = ks, pr_callbacks = startCallback (pruneFilter c now item), pr_failed = False, pr_world = w'\<rparr>"
      have "prune_step c now rejects \<lparr>pr_keys = k # ks, pr_callbacks = [], pr_failed = False, pr_world = w\<rparr> ?mid"
        using prune_step.starts [of c k now w item w' rejects ks "[]" False] g r Some by simp
      also have "(prune_step c now rejects)\<^sup>*\<^sup>* ?mid \<lparr>pr_keys = ks, pr_callbacks = [], pr_failed = False, pr_world = pruneOne c now item w'\<rparr>"
        using prune_callback_run [OF assms]
        by (auto simp: startCallback_def pruneOne_def Let_def split: option.splits)
      also have "(prune_step c now rejects)\<^sup>*\<^sup>* \<dots> (sequential (pruneKeys c now ks (pruneOne c now item w')))" by (rule Cons.IH)
      finally show ?thesis using g r Some by simp
    qed
  qed
qed simp

section \<open>The view of one key\<close>

text \<open>The tree a callback for a key writes, if there is one, and whether the enumeration passes the key.\<close>

definition prune_task :: "('v, 's, 'm) cache \<Rightarrow> int \<Rightarrow> ('s, 'm) world \<Rightarrow> key \<Rightarrow> (key \<times> rvalue tree) option" where
  "prune_task c now w k =
     (case getNodeRef c (splitKey k) True now w of (Inr (Some item), _) \<Rightarrow> pruneFilter c now item | _ \<Rightarrow> None)"

definition passes :: "('v, 's, 'm) cache \<Rightarrow> int \<Rightarrow> ('s, 'm) world \<Rightarrow> key \<Rightarrow> bool" where
  "passes c now w k \<longleftrightarrow> \<not> isl (fst (getNodeRef c (splitKey k) True now w))"

definition own_events :: "key \<Rightarrow> event list \<Rightarrow> event list" where
  "own_events k = filter (\<lambda>e. e = Acquire k \<or> e = ScheduleRelease k)"

definition own_callbacks :: "key \<Rightarrow> callback list \<Rightarrow> callback list" where
  "own_callbacks k = filter (\<lambda>cb. cb_key cb = k)"

lemma own_append [simp]:
  "own_events k (es @ ds) = own_events k es @ own_events k ds" "own_events k [] = []"
  "own_callbacks k (cs @ cs') = own_callbacks k cs @ own_callbacks k cs'" "own_callbacks k [] = []"
  "own_callbacks k (cb # cs) = (if cb_key cb = k then cb # own_callbacks k cs else own_callbacks k cs)"
  "own_events k (e # es) = (if e = Acquire k \<or> e = ScheduleRelease k then e # own_events k es else own_events k es)"
  by (simp_all add: own_events_def own_callbacks_def)

text \<open>
  How far the callback of a key is, with what is stored under the key and what has been done to the
  semaphore under it: \<open>new\<close> is what the callback writes, \<open>old\<close> what was stored before.
\<close>

definition phase ::
  "bool \<Rightarrow> key \<Rightarrow> rvalue tree option \<Rightarrow> (rvalue tree \<Rightarrow> rvalue) \<Rightarrow> rvalue option \<Rightarrow> callback list \<Rightarrow> rvalue option \<Rightarrow> event list \<Rightarrow> bool" where
  "phase rejecting k task ser old cbs stored es \<longleftrightarrow>
     (case task of
        None \<Rightarrow> cbs = [] \<and> stored = old \<and> es = []
      | Some t \<Rightarrow>
          cbs = [Acquiring k t] \<and> stored = old \<and> es = []
        \<or> (cbs = [ReadingTtl k t] \<or> (\<exists>ttl. cbs = [Persisting k t ttl])) \<and> stored = old \<and> es = [Acquire k]
        \<or> cbs = [Releasing k] \<and> \<not> rejecting \<and> stored = Some (ser t) \<and> es = [Acquire k]
        \<or> cbs = [] \<and> \<not> rejecting \<and> stored = Some (ser t) \<and> es = [Acquire k, ScheduleRelease k]
        \<or> cbs = [] \<and> rejecting \<and> stored = old \<and> es = [Acquire k])"

text \<open>What the callback of a key that has been enumerated is to write.\<close>

definition due :: "('v, 's, 'm) cache \<Rightarrow> int \<Rightarrow> ('s, 'm) world \<Rightarrow> key list \<Rightarrow> key \<Rightarrow> rvalue tree option" where
  "due c now w pre k = (if k \<in> set pre then map_option snd (prune_task c now w k) else None)"

definition prune_inv ::
  "('v, 's, 'm) cache \<Rightarrow> int \<Rightarrow> (key \<Rightarrow> bool) \<Rightarrow> ('s, 'm) world \<Rightarrow> key list \<Rightarrow> key list \<Rightarrow> event list \<Rightarrow> ('s, 'm) pruning \<Rightarrow> bool" where
  "prune_inv c now rejects w pre post es P \<longleftrightarrow>
     (\<forall>k \<in> set pre. passes c now w k)
   \<and> (pr_keys P = post \<or> pr_keys P = [] \<and> \<not> passes c now w (hd post))
   \<and> w_events (pr_world P) = w_events w @ es
   \<and> (\<forall>k. phase (rejects k) k (due c now w pre k) (ts_serialize (tser c))
        (store_get c w k) (own_callbacks k (pr_callbacks P)) (store_get c (pr_world P) k) (own_events k es))
   \<and> (pr_failed P \<longleftrightarrow> pr_keys P \<noteq> post
        \<or> (\<exists>k. rejects k \<and> due c now w pre k \<noteq> None \<and> own_callbacks k (pr_callbacks P) = []))"

lemma phase_at_most_one: "phase r k task ser old cbs stored es \<Longrightarrow> length cbs \<le> 1 \<and> (cbs \<noteq> [] \<longrightarrow> task \<noteq> None)"
  by (auto simp: phase_def split: option.splits)

lemma phase_callback:
  assumes "phase r k task ser old (own_callbacks k (xs @ cb # ys)) stored es" "cb_key cb = k"
  shows "own_callbacks k xs = [] \<and> own_callbacks k ys = [] \<and> task \<noteq> None"
  using phase_at_most_one [OF assms(1)] assms(2) by simp

text \<open>A step of a callback is seen under its own key only.\<close>

lemma prune_inv_callback:
  assumes inv: "prune_inv c now rejects w pre post es \<lparr>pr_keys = ks, pr_callbacks = xs @ cb # ys, pr_failed = f, pr_world = v\<rparr>"
    and k: "cb_key cb = k" and cs: "\<And>j. j \<noteq> k \<Longrightarrow> own_callbacks j cs = []" "own_callbacks k cs = cs"
    and v': "\<And>j. j \<noteq> k \<Longrightarrow> store_get c v' j = store_get c v j" "w_events v' = w_events v @ ds"
      "\<And>j. j \<noteq> k \<Longrightarrow> own_events j ds = []"
    and p: "\<And>task. phase (rejects k) k task (ts_serialize (tser c)) (store_get c w k) [cb] (store_get c v k) (own_events k es) \<Longrightarrow>
      phase (rejects k) k task (ts_serialize (tser c)) (store_get c w k) cs (store_get c v' k) (own_events k es @ own_events k ds)
      \<and> (f' \<longleftrightarrow> f \<or> cs = [] \<and> rejects k)"
  shows "prune_inv c now rejects w pre post (es @ ds) \<lparr>pr_keys = ks, pr_callbacks = xs @ cs @ ys, pr_failed = f', pr_world = v'\<rparr>"
proof -
  let ?task = "due c now w pre"
  have ph: "phase (rejects j) j (?task j) (ts_serialize (tser c)) (store_get c w j) (own_callbacks j (xs @ cb # ys)) (store_get c v j) (own_events j es)" for j
    using inv by (simp add: prune_inv_def)
  from phase_callback [OF ph k] have one: "own_callbacks k xs = []" "own_callbacks k ys = []" "?task k \<noteq> None" by auto
  have other: "own_callbacks j (xs @ cs @ ys) = own_callbacks j (xs @ cb # ys)" if "j \<noteq> k" for j
    using that k cs(1) by simp
  have own: "own_callbacks k (xs @ cs @ ys) = cs" "own_callbacks k (xs @ cb # ys) = [cb]" using one cs(2) k by simp_all
  have "phase (rejects j) j (?task j) (ts_serialize (tser c)) (store_get c w j) (own_callbacks j (xs @ cs @ ys)) (store_get c v' j) (own_events j (es @ ds))" for j
  proof (cases "j = k")
    case True
    from p [OF ph [of k, unfolded own]] show ?thesis unfolding True own by simp
  next
    case False
    with ph [of j] other [OF False] v'(1,3) show ?thesis by simp
  qed
  moreover have "(\<exists>j. rejects j \<and> ?task j \<noteq> None \<and> own_callbacks j (xs @ cs @ ys) = [])
      \<longleftrightarrow> (\<exists>j. rejects j \<and> ?task j \<noteq> None \<and> own_callbacks j (xs @ cb # ys) = []) \<or> cs = [] \<and> rejects k"
    using other own one(3) by (metis list.distinct(1))
  ultimately show ?thesis using inv p [OF ph [of k, unfolded own]] v'(2) unfolding prune_inv_def pruning.simps by (metis append.assoc)
qed

lemma prune_inv_key_step:
  assumes "\<exists>pre post es. ks0 = pre @ post
      \<and> prune_inv c now rejects w pre post es \<lparr>pr_keys = ks, pr_callbacks = xs @ cb # ys, pr_failed = f, pr_world = v\<rparr>"
    and "\<And>j. j \<noteq> cb_key cb \<Longrightarrow> own_callbacks j cs = []" "own_callbacks (cb_key cb) cs = cs"
    and "\<And>j. j \<noteq> cb_key cb \<Longrightarrow> store_get c v' j = store_get c v j" "w_events v' = w_events v @ ds"
    and "\<And>j. j \<noteq> cb_key cb \<Longrightarrow> own_events j ds = []"
    and "\<And>task old es. phase (rejects (cb_key cb)) (cb_key cb) task (ts_serialize (tser c)) old [cb] (store_get c v (cb_key cb)) es \<Longrightarrow>
      phase (rejects (cb_key cb)) (cb_key cb) task (ts_serialize (tser c)) old cs (store_get c v' (cb_key cb)) (es @ own_events (cb_key cb) ds)
      \<and> (f' \<longleftrightarrow> f \<or> cs = [] \<and> rejects (cb_key cb))"
  shows "\<exists>pre post es. ks0 = pre @ post
      \<and> prune_inv c now rejects w pre post es \<lparr>pr_keys = ks, pr_callbacks = xs @ cs @ ys, pr_failed = f', pr_world = v'\<rparr>"
proof -
  obtain pre post es where ks0: "ks0 = pre @ post" and inv: "prune_inv c now rejects w pre post es
      \<lparr>pr_keys = ks, pr_callbacks = xs @ cb # ys, pr_failed = f, pr_world = v\<rparr>" using assms(1) by blast
  have "prune_inv c now rejects w pre post (es @ ds) \<lparr>pr_keys = ks, pr_callbacks = xs @ cs @ ys, pr_failed = f', pr_world = v'\<rparr>"
    by (rule prune_inv_callback [OF inv refl]) (use assms(2-7) in auto)
  with ks0 show ?thesis by blast
qed

section \<open>Every interleaving\<close>

context lawful_cache
begin

lemma prune_task_eq:
  assumes "2 \<le> keyLevelNodes c"
  shows "prune_task c now w k =
     (if length (splitKey k) = keyLevelNodes c \<and> str_truthy (store_get c w k)
      then case ts_deserialize (tser c) (the (store_get c w k)) of
             Inl e \<Rightarrow> None | Inr t \<Rightarrow> if has_unset now t then Some (k, prune_ref now t) else None
      else None)"
proof -
  let ?p = "splitKey k"
  have ne: "?p \<noteq> []" by simp
  show ?thesis
  proof (cases "length ?p < keyLevelNodes c")
    case True
    with getNodeRef_last_key [OF ne True, of now w] show ?thesis
      by (simp add: prune_task_def pruneFilter_def split: sync_tree.splits)
  next
    case False
    note g = getNodeRef_last_tree [of c ?p _ w now, OF _ _ refl]
    show ?thesis
    proof (cases "length ?p = keyLevelNodes c")
      case True
      then have "butlast ?p \<noteq> []" using assms by (cases ?p rule: rev_cases) auto
      then obtain r where r: "path_ref (butlast ?p) = Some r" using path_ref_node by blast
      have key: "buildKey (node_ref ?p) = k" using buildKey_node_ref [OF ne] by (simp add: join_splitKey)
      from True have tk: "take (keyLevelNodes c) ?p = ?p" "drop (keyLevelNodes c) ?p = []" by simp_all
      show ?thesis
        using g True assms tree_wf key r unfolding tk
        by (auto simp: prune_task_def pruneFilter_def join_splitKey pruneTree_ref split: sum.splits)
    next
      case ge: False
      with g False assms show ?thesis
        by (auto simp: prune_task_def pruneFilter_def split: sum.splits option.splits)
    qed
  qed
qed

lemma passes_eq:
  assumes "2 \<le> keyLevelNodes c" and j: "j = join (take (keyLevelNodes c) (splitKey k))"
  shows "passes c now w k \<longleftrightarrow> length (splitKey k) < keyLevelNodes c \<or> \<not> str_truthy (store_get c w j)
    \<or> \<not> isl (ts_deserialize (tser c) (the (store_get c w j)))"
proof (cases "length (splitKey k) < keyLevelNodes c")
  case True
  with getNodeRef_last_key [of "splitKey k" c now w] show ?thesis by (simp add: passes_def)
next
  case False
  with getNodeRef_last_tree [of c "splitKey k" _ w now, OF _ _ refl] assms show ?thesis
    by (auto simp: passes_def split: sum.splits)
qed

text \<open>While the callbacks run, an entry is what it was or the tree its callback has written.\<close>

lemma prune_inv_stored:
  assumes "prune_inv c now rejects w pre post es P"
  obtains "store_get c (pr_world P) j = store_get c w j"
  | t where "due c now w pre j = Some t" "store_get c (pr_world P) j = Some (ts_serialize (tser c) t)"
  using assms by (fastforce simp: prune_inv_def phase_def split: option.splits)

lemma due_wf:
  assumes "2 \<le> keyLevelNodes c" "due c now w pre j = Some t"
  shows "wf_tree t" "str_truthy (store_get c w j)" "\<not> isl (ts_deserialize (tser c) (the (store_get c w j)))"
  using assms tree_wf by (auto simp: due_def prune_task_eq wf_prune_ref split: if_splits sum.splits)

lemma prune_inv_passes:
  assumes k: "2 \<le> keyLevelNodes c" and inv: "prune_inv c now rejects w pre post es P"
  shows "passes c now (pr_world P) k \<longleftrightarrow> passes c now w k"
proof -
  let ?j = "join (take (keyLevelNodes c) (splitKey k))"
  note eq = passes_eq [OF k refl, of _ _ k]
  from inv show ?thesis
  proof (rule prune_inv_stored [where j = ?j])
    assume "store_get c (pr_world P) ?j = store_get c w ?j"
    then show ?thesis unfolding eq by simp
  next
    fix t assume t: "due c now w pre ?j = Some t" "store_get c (pr_world P) ?j = Some (ts_serialize (tser c) t)"
    from due_wf [OF k t(1)] t(2) tree_roundtrip show ?thesis unfolding eq by simp
  qed
qed

lemma prune_inv_task:
  assumes k: "2 \<le> keyLevelNodes c" and inv: "prune_inv c now rejects w pre post es P" and j: "j \<notin> set pre"
  shows "prune_task c now (pr_world P) j = prune_task c now w j"
proof -
  have "store_get c (pr_world P) j = store_get c w j"
    using inv by (rule prune_inv_stored [where j = j]) (use j in \<open>simp_all add: due_def\<close>)
  then show ?thesis by (simp add: prune_task_eq [OF k])
qed

lemma prune_task_key: "2 \<le> keyLevelNodes c \<Longrightarrow> prune_task c now w k = Some (k', t) \<Longrightarrow> k' = k"
  by (auto simp: prune_task_eq split: if_splits sum.splits)

lemma prune_step_task:
  assumes "2 \<le> keyLevelNodes c" "prune_task c now w k = Some (k', t)"
  shows "prune_step c now rejects \<lparr>pr_keys = k # ks, pr_callbacks = cbs, pr_failed = f, pr_world = w\<rparr>
    \<lparr>pr_keys = ks, pr_callbacks = cbs @ [Acquiring k' t], pr_failed = f, pr_world = w\<rparr>"
proof -
  obtain item where "getNodeRef c (splitKey k) True now w = (Inr (Some item), w)" "pruneFilter c now item = Some (k', t)"
    using assms(2) getNodeRef_last_world [OF assms(1), of k now w]
    by (cases "getNodeRef c (splitKey k) True now w") (auto simp: prune_task_def split: sum.splits option.splits)
  from prune_step.starts [OF this(1), of rejects ks cbs f] this(2) show ?thesis by (simp add: startCallback_def)
qed

text \<open>The enumeration of the next key.\<close>

lemma prune_inv_enumerate:
  assumes k: "2 \<le> keyLevelNodes c" and d: "distinct (pre @ k # post)"
    and inv: "prune_inv c now rejects w pre (k # post) es \<lparr>pr_keys = k # post, pr_callbacks = cbs, pr_failed = f, pr_world = v\<rparr>"
    and ok: "passes c now v k"
  shows "prune_inv c now rejects w (pre @ [k]) post es
    \<lparr>pr_keys = post, pr_callbacks = cbs @ startCallback (prune_task c now v k), pr_failed = f, pr_world = v\<rparr>"
proof -
  let ?cbs = "cbs @ startCallback (prune_task c now v k)"
  have new: "k \<notin> set pre" using d by simp
  have task: "prune_task c now v k = prune_task c now w k" using prune_inv_task [OF k inv new] by simp
  have own: "own_callbacks j (startCallback (prune_task c now v k))
      = (if j = k then startCallback (prune_task c now v k) else [])" for j
    using prune_task_key [OF k, of now v k] by (auto simp: startCallback_def split: option.splits)
  have due': "due c now w (pre @ [k]) j = (if j = k then map_option snd (prune_task c now v k) else due c now w pre j)" for j
    by (simp add: due_def task)
  have ph: "phase (rejects j) j (due c now w pre j) (ts_serialize (tser c)) (store_get c w j) (own_callbacks j cbs) (store_get c v j) (own_events j es)" for j
    using inv by (simp add: prune_inv_def)
  have k0: "own_callbacks k cbs = []" "store_get c v k = store_get c w k" "own_events k es = []"
    using ph [of k] new by (simp_all add: due_def phase_def)
  have "phase (rejects j) j (due c now w (pre @ [k]) j) (ts_serialize (tser c)) (store_get c w j) (own_callbacks j ?cbs) (store_get c v j) (own_events j es)" for j
    using ph [of j] k0 prune_task_key [OF k, of now v k]
    by (cases "j = k") (auto simp: own due' phase_def startCallback_def split: option.splits)
  moreover have "(\<exists>j. rejects j \<and> due c now w (pre @ [k]) j \<noteq> None \<and> own_callbacks j ?cbs = [])
      \<longleftrightarrow> (\<exists>j. rejects j \<and> due c now w pre j \<noteq> None \<and> own_callbacks j cbs = [])"
  proof -
    have "due c now w pre k = None" using new by (simp add: due_def)
    moreover have "due c now w (pre @ [k]) k \<noteq> None \<Longrightarrow> own_callbacks k ?cbs \<noteq> []"
      using prune_task_key [OF k, of now v k] by (auto simp: own due' startCallback_def)
    ultimately show ?thesis by (metis due' own append.right_neutral own_append(3))
  qed
  moreover have "passes c now w k" using prune_inv_passes [OF k inv] ok by simp
  ultimately show ?thesis using inv by (simp add: prune_inv_def)
qed

text \<open>Every step keeps the invariant.\<close>

lemma prune_inv_step:
  assumes "prune_step c now rejects P P'" and k: "2 \<le> keyLevelNodes c" and d: "distinct ks0"
    and "\<exists>pre post es. ks0 = pre @ post \<and> prune_inv c now rejects w pre post es P"
  shows "\<exists>pre post es. ks0 = pre @ post \<and> prune_inv c now rejects w pre post es P'"
  using assms(1,4)
proof (induction rule: prune_step.induct)
  case (throws k' v e v' ks cbs f)
  then obtain pre post es where inv: "ks0 = pre @ post"
    "prune_inv c now rejects w pre post es \<lparr>pr_keys = k' # ks, pr_callbacks = cbs, pr_failed = f, pr_world = v\<rparr>" by blast
  have post: "post = k' # ks" using inv(2) by (auto simp: prune_inv_def)
  have "\<not> passes c now v k'" "v' = v"
    using throws(1) getNodeRef_last_world [OF k, of k' now v] by (simp_all add: passes_def)
  with prune_inv_passes [OF k inv(2), of k'] inv(2) have
    "prune_inv c now rejects w pre post es \<lparr>pr_keys = [], pr_callbacks = cbs, pr_failed = True, pr_world = v'\<rparr>"
    by (auto simp: prune_inv_def post)
  with inv(1) show ?case by blast
next
  case (skips k' v v' ks cbs f)
  then obtain pre post es where inv: "ks0 = pre @ post"
    "prune_inv c now rejects w pre post es \<lparr>pr_keys = k' # ks, pr_callbacks = cbs, pr_failed = f, pr_world = v\<rparr>" by blast
  have post: "post = k' # ks" using inv(2) by (auto simp: prune_inv_def)
  have "passes c now v k'" "v' = v" "startCallback (prune_task c now v k') = []"
    using skips(1) getNodeRef_last_world [OF k, of k' now v] by (simp_all add: passes_def prune_task_def startCallback_def)
  with prune_inv_enumerate [OF k _ inv(2) [unfolded post]] d inv(1) post
  have "prune_inv c now rejects w (pre @ [k']) ks es \<lparr>pr_keys = ks, pr_callbacks = cbs, pr_failed = f, pr_world = v'\<rparr>" by simp
  with inv(1) post show ?case by (metis append.assoc append_Cons append_Nil)
next
  case (starts k' v item v' ks cbs f)
  then obtain pre post es where inv: "ks0 = pre @ post"
    "prune_inv c now rejects w pre post es \<lparr>pr_keys = k' # ks, pr_callbacks = cbs, pr_failed = f, pr_world = v\<rparr>" by blast
  have post: "post = k' # ks" using inv(2) by (auto simp: prune_inv_def)
  have "passes c now v k'" "v' = v" "prune_task c now v k' = pruneFilter c now item"
    using starts(1) getNodeRef_last_world [OF k, of k' now v] by (simp_all add: passes_def prune_task_def)
  with prune_inv_enumerate [OF k _ inv(2) [unfolded post]] d inv(1) post
  have "prune_inv c now rejects w (pre @ [k']) ks es
      \<lparr>pr_keys = ks, pr_callbacks = cbs @ startCallback (pruneFilter c now item), pr_failed = f, pr_world = v'\<rparr>" by simp
  with inv(1) post show ?case by (metis append.assoc append_Cons append_Nil)
next
  case (acquires ks xs k' t ys f v)
  have "\<exists>pre post es. ks0 = pre @ post
      \<and> prune_inv c now rejects w pre post es \<lparr>pr_keys = ks, pr_callbacks = xs @ [ReadingTtl k' t] @ ys, pr_failed = f, pr_world = emit (Acquire k') v\<rparr>"
    by (rule prune_inv_key_step [OF acquires, where ds = "[Acquire k']"])
      (auto simp: phase_def split: option.splits)
  then show ?case by simp
next
  case (reads ks xs k' t ys f v)
  have "\<exists>pre post es. ks0 = pre @ post
      \<and> prune_inv c now rejects w pre post es \<lparr>pr_keys = ks, pr_callbacks = xs @ [Persisting k' t (st_getCurrentTtl (c_storage c) (w_store v) k')] @ ys, pr_failed = f, pr_world = v\<rparr>"
    by (rule prune_inv_key_step [OF reads, where ds = "[]"])
      (auto simp: phase_def split: option.splits)
  then show ?case by simp
next
  case (persists k' ks xs t ttl ys f v)
  have "\<exists>pre post es. ks0 = pre @ post
      \<and> prune_inv c now rejects w pre post es \<lparr>pr_keys = ks, pr_callbacks = xs @ [Releasing k'] @ ys, pr_failed = f, pr_world = persistTree c k' ttl t v\<rparr>"
    by (rule prune_inv_key_step [OF persists(2), where ds = "[]"])
      (use persists(1) in \<open>auto simp: phase_def get_persistTree split: option.splits\<close>)
  then show ?case by simp
next
  case (rejected k' ks xs t ttl ys f v)
  have "\<exists>pre post es. ks0 = pre @ post
      \<and> prune_inv c now rejects w pre post es \<lparr>pr_keys = ks, pr_callbacks = xs @ [] @ ys, pr_failed = True, pr_world = v\<rparr>"
    by (rule prune_inv_key_step [OF rejected(2), where ds = "[]"])
      (use rejected(1) in \<open>auto simp: phase_def split: option.splits\<close>)
  then show ?case by simp
next
  case (releases ks xs k' ys f v)
  have "\<exists>pre post es. ks0 = pre @ post
      \<and> prune_inv c now rejects w pre post es \<lparr>pr_keys = ks, pr_callbacks = xs @ [] @ ys, pr_failed = f, pr_world = emit (ScheduleRelease k') v\<rparr>"
    by (rule prune_inv_key_step [OF releases, where ds = "[ScheduleRelease k']"])
      (auto simp: phase_def split: option.splits)
  then show ?case by simp
qed

lemma prune_inv_start: "prune_inv c now rejects w [] ks [] (start_prune ks w)"
  by (simp add: prune_inv_def start_prune_def due_def phase_def)

lemma prune_inv_reach:
  assumes "(prune_step c now rejects)\<^sup>*\<^sup>* (start_prune ks w) P" "2 \<le> keyLevelNodes c" "distinct ks"
  obtains pre post es where "ks = pre @ post" "prune_inv c now rejects w pre post es P"
proof -
  have "\<exists>pre post es. ks = pre @ post \<and> prune_inv c now rejects w pre post es P"
    using assms(1)
  proof (induction rule: rtranclp_induct)
    case base
    show ?case using prune_inv_start by fastforce
  next
    case (step P P')
    show ?case by (rule prune_inv_step [OF step(2) assms(2,3) step(3)])
  qed
  with that show thesis by blast
qed

text \<open>The semaphore, at any time and at the end; the keys that are enumerated are those before the first that fails.\<close>

lemma prune_run_semaphore:
  assumes run: "(prune_step c now rejects)\<^sup>*\<^sup>* (start_prune ks w) P" and k: "2 \<le> keyLevelNodes c" and d: "distinct ks"
    and pre': "pre' = takeWhile (passes c now w) ks"
  shows "\<exists>es. w_events (pr_world P) = w_events w @ es \<and> (\<forall>k. prefix (own_events k es) [Acquire k, ScheduleRelease k])
    \<and> (pruned P \<longrightarrow> (\<forall>k. own_events k es = (if due c now w pre' k = None then []
         else if rejects k then [Acquire k] else [Acquire k, ScheduleRelease k])))"
    and "pruned P \<Longrightarrow> store_get c (pr_world P) k' = (case due c now w pre' k' of
         Some t \<Rightarrow> if rejects k' then store_get c w k' else Some (ts_serialize (tser c) t) | None \<Rightarrow> store_get c w k')"
    and "pruned P \<Longrightarrow> pr_failed P \<longleftrightarrow> pre' \<noteq> ks \<or> (\<exists>k. rejects k \<and> due c now w pre' k \<noteq> None)"
proof -
  obtain pre post es where ks: "ks = pre @ post" and inv: "prune_inv c now rejects w pre post es P"
    using prune_inv_reach [OF run k d] .
  have ph: "phase (rejects j) j (due c now w pre j) (ts_serialize (tser c)) (store_get c w j)
      (own_callbacks j (pr_callbacks P)) (store_get c (pr_world P) j) (own_events j es)" for j
    using inv by (simp add: prune_inv_def)
  have pre: "pre = pre'" if "pruned P"
  proof -
    have "\<forall>k \<in> set pre. passes c now w k" "post = [] \<or> \<not> passes c now w (hd post)"
      using inv that by (auto simp: prune_inv_def pruned_def)
    then show ?thesis unfolding pre' ks by (cases post) (simp_all add: takeWhile_append takeWhile_eq_all_conv [THEN iffD2])
  qed
  have "prefix (own_events j es) [Acquire j, ScheduleRelease j]" for j
    using ph [of j] by (auto simp: phase_def split: option.splits)
  moreover have "own_events j es = (if due c now w pre' j = None then []
         else if rejects j then [Acquire j] else [Acquire j, ScheduleRelease j])" if "pruned P" for j
    using ph [of j] pre [OF that] that by (auto simp: phase_def pruned_def split: option.splits)
  moreover have "w_events (pr_world P) = w_events w @ es" using inv by (simp add: prune_inv_def)
  ultimately show "\<exists>es. w_events (pr_world P) = w_events w @ es \<and> (\<forall>k. prefix (own_events k es) [Acquire k, ScheduleRelease k])
    \<and> (pruned P \<longrightarrow> (\<forall>k. own_events k es = (if due c now w pre' k = None then []
         else if rejects k then [Acquire k] else [Acquire k, ScheduleRelease k])))" by blast
  show "store_get c (pr_world P) k' = (case due c now w pre' k' of
         Some t \<Rightarrow> if rejects k' then store_get c w k' else Some (ts_serialize (tser c) t) | None \<Rightarrow> store_get c w k')" if "pruned P"
    using ph [of k'] pre [OF that] that by (auto simp: phase_def pruned_def split: option.splits)
  show "pr_failed P \<longleftrightarrow> pre' \<noteq> ks \<or> (\<exists>k. rejects k \<and> due c now w pre' k \<noteq> None)" if "pruned P"
    using inv pre [OF that] that by (auto simp: prune_inv_def pruned_def ks)
qed

text \<open>Without rejections all complete runs agree, among them the one that takes the keys in turn.\<close>

lemma prune_runs_agree:
  assumes run: "(prune_step c now (\<lambda>_. False))\<^sup>*\<^sup>* (start_prune ks w) P" and k: "2 \<le> keyLevelNodes c" and d: "distinct ks"
    and P: "pruned P"
  shows "store_get c (pr_world P) k' = store_get c (snd (pruneKeys c now ks w)) k'"
    and "pr_failed P \<longleftrightarrow> isl (fst (pruneKeys c now ks w))"
proof -
  let ?Q = "sequential (pruneKeys c now ks w)"
  have turn: "(prune_step c now (\<lambda>_. False))\<^sup>*\<^sup>* (start_prune ks w) ?Q" by (rule prune_in_turn) simp
  have Q: "pruned ?Q" by (simp add: pruned_def)
  note P' = prune_run_semaphore(2,3) [OF run k d refl P] and Q' = prune_run_semaphore(2,3) [OF turn k d refl Q]
  show "store_get c (pr_world P) k' = store_get c (snd (pruneKeys c now ks w)) k'" using P'(1) [of k'] Q'(1) [of k'] by simp
  show "pr_failed P \<longleftrightarrow> isl (fst (pruneKeys c now ks w))" using P'(2) Q'(2) by simp
qed

end

lemma no_infinite_prune: "\<nexists>f. \<forall>n. prune_step c now rejects (f n) (f (Suc n))"
proof
  assume "\<exists>f. \<forall>n. prune_step c now rejects (f n) (f (Suc n))"
  then obtain f where f: "\<And>n. prune_step c now rejects (f n) (f (Suc n))" by blast
  have "(f (Suc n), f n) \<in> measure prune_work" for n using prune_step_work [OF f] by simp
  then show False using wf_measure [of prune_work] unfolding wf_iff_no_infinite_down_chain by blast
qed

end
