(* ===== verification/Cache_EventLoop.thy ===== *)
theory Cache_EventLoop
  imports Cache_Invariant Cache_WaitAll
begin

text \<open>
  Concurrent callers of the cache, the semaphore they share, and the event loop that runs the
  releases which \<open>dontWait\<close> (\<open>src/utils/dont-wait.ts\<close>) has put off.

  Every caller runs one operation, or one of the callbacks of \<open>prune\<close>, which are not in turn; what it does
  to the semaphore is its log. An
  \<open>acquire\<close> goes on when the semaphore grants the key; a release is queued by \<open>setImmediate\<close> and its
  callback is run later, its errors being ignored. The steps of the callers and of the event loop
  interleave in any order.

  The semaphore is code of the user. The locale \<open>semaphore_laws\<close> states what suffices for the cache
  never to lock itself out: an \<open>acquire\<close> waits only for a key that is held, and a release frees its
  key. The locale \<open>exclusive_semaphore\<close> adds that a key is granted to one caller at a time.
\<close>

section \<open>Semaphores\<close>

text \<open>
  \<open>acquire\<close> as a step that is possible when its promise resolves (\<^term>\<open>None\<close>: not yet), and the
  callback it resolves to, which may reject.
\<close>

record 'h semaphore =
  sm_acquire :: "key \<Rightarrow> 'h \<Rightarrow> 'h option"
  sm_release :: "key \<Rightarrow> 'h \<Rightarrow> (error + unit) \<times> 'h"

text \<open>The callback of \<open>setImmediate\<close> in \<open>dontWait\<close>: \<open>try { await callback(); } catch { }\<close>.\<close>

definition runImmediate :: "'h semaphore \<Rightarrow> key \<Rightarrow> 'h \<Rightarrow> 'h" where
  "runImmediate S k s = (case sm_release S k s of (Inr (), s') \<Rightarrow> s' | (Inl _, s') \<Rightarrow> s')"

lemma runImmediate_eq: "runImmediate S k s = snd (sm_release S k s)"
  by (simp add: runImmediate_def split: prod.splits sum.splits unit.splits)

text \<open>The semaphore of the default options: \<open>acquire: async () => async () => undefined\<close>.\<close>

definition defaultSemaphore :: "unit semaphore" where
  "defaultSemaphore = \<lparr>sm_acquire = (\<lambda>k s. Some s), sm_release = (\<lambda>k s. (Inr (), s))\<rparr>"

section \<open>Callers and the event loop\<close>

text \<open>
  A caller has a key it has been granted and has not yet handed to \<open>dontWait\<close>, if any, and the events
  of its operation that are still to come.
\<close>

type_synonym caller = "key option \<times> event list"

record 'h loop =
  lp_callers :: "caller list"
  lp_immediates :: "key list"
  lp_semaphore :: 'h

text \<open>
  The steps. Queued callbacks are started in the order of the queue but are asynchronous themselves,
  so they may have their effect in any order.
\<close>

inductive loop_step :: "'h semaphore \<Rightarrow> 'h loop \<Rightarrow> 'h loop \<Rightarrow> bool" for S where
  acquire: "i < length cs \<Longrightarrow> cs ! i = (h, Acquire k # es) \<Longrightarrow> sm_acquire S k s = Some s' \<Longrightarrow>
    loop_step S \<lparr>lp_callers = cs, lp_immediates = q, lp_semaphore = s\<rparr>
      \<lparr>lp_callers = cs[i := (Some k, es)], lp_immediates = q, lp_semaphore = s'\<rparr>"
| schedule: "i < length cs \<Longrightarrow> cs ! i = (h, ScheduleRelease k # es) \<Longrightarrow>
    loop_step S \<lparr>lp_callers = cs, lp_immediates = q, lp_semaphore = s\<rparr>
      \<lparr>lp_callers = cs[i := (None, es)], lp_immediates = q @ [k], lp_semaphore = s\<rparr>"
| continue: "i < length cs \<Longrightarrow> cs ! i = (h, e # es) \<Longrightarrow> \<not> sem_event e \<Longrightarrow>
    loop_step S \<lparr>lp_callers = cs, lp_immediates = q, lp_semaphore = s\<rparr>
      \<lparr>lp_callers = cs[i := (h, es)], lp_immediates = q, lp_semaphore = s\<rparr>"
| immediate: "loop_step S \<lparr>lp_callers = cs, lp_immediates = xs @ k # ys, lp_semaphore = s\<rparr>
      \<lparr>lp_callers = cs, lp_immediates = xs @ ys, lp_semaphore = runImmediate S k s\<rparr>"

definition all_done :: "'h loop \<Rightarrow> bool" where
  "all_done L \<longleftrightarrow> (\<forall>cl \<in> set (lp_callers L). cl = (None, [])) \<and> lp_immediates L = []"

section \<open>Every execution ends\<close>

text \<open>Each event counts twice, since a release is moved to the queue before it is run.\<close>

definition work :: "'h loop \<Rightarrow> nat" where
  "work L = 2 * (\<Sum>(h, es) \<leftarrow> lp_callers L. length es) + length (lp_immediates L)"

lemma sum_callers_update:
  "i < length cs \<Longrightarrow> cs ! i = (h, e # es) \<Longrightarrow>
   (\<Sum>(h, es) \<leftarrow> cs. length es) = Suc (\<Sum>(h, es) \<leftarrow> cs[i := (h', es)]. length es)"
  by (induction cs arbitrary: i) (auto split: nat.splits simp: nth_Cons' less_Suc_eq_0_disj)

lemma loop_step_work: "loop_step S L L' \<Longrightarrow> work L' < work L"
proof (induction rule: loop_step.induct)
  case (acquire i cs h k es s s' q)
  then show ?case using sum_callers_update [of i cs h _ es "Some k"] by (simp add: work_def)
next
  case (schedule i cs h k es q s)
  then show ?case using sum_callers_update [of i cs h _ es None] by (simp add: work_def)
next
  case (continue i cs h e es q s)
  then show ?case using sum_callers_update [of i cs h _ es h] by (simp add: work_def)
qed (simp add: work_def)

lemma no_infinite_run: "\<nexists>f. \<forall>n. loop_step S (f n) (f (Suc n))"
proof
  assume "\<exists>f. \<forall>n. loop_step S (f n) (f (Suc n))"
  then obtain f where f: "\<And>n. loop_step S (f n) (f (Suc n))" by blast
  have "(f (Suc n), f n) \<in> measure work" for n using loop_step_work [OF f] by simp
  then show False using wf_measure [of work] unfolding wf_iff_no_infinite_down_chain by blast
qed

section \<open>The cache does not lock itself out\<close>

text \<open>A held key is one that a caller works under or whose release is queued.\<close>

definition disciplined :: "('h \<Rightarrow> key set) \<Rightarrow> 'h loop \<Rightarrow> bool" where
  "disciplined held L \<longleftrightarrow> (\<forall>i < length (lp_callers L). sem_ok (fst (lp_callers L ! i)) (snd (lp_callers L ! i)))
     \<and> (\<forall>k \<in> held (lp_semaphore L). k \<in> set (lp_immediates L) \<or> (\<exists>i < length (lp_callers L). fst (lp_callers L ! i) = Some k))"

text \<open>What the next event says about the key a caller holds.\<close>

lemma sem_ok_continue: "\<not> sem_event e \<Longrightarrow> sem_ok h (e # es) \<longleftrightarrow> sem_ok h es"
  by (cases e) auto

locale semaphore_laws =
  fixes S :: "'h semaphore" and held :: "'h \<Rightarrow> key set"
  assumes waits: "sm_acquire S k s = None \<Longrightarrow> k \<in> held s"
    and acquired: "sm_acquire S k s = Some s' \<Longrightarrow> held s' \<subseteq> insert k (held s)"
    and released: "held (snd (sm_release S k s)) \<subseteq> held s - {k}"
begin

lemma disciplined_step: "loop_step S L L' \<Longrightarrow> disciplined held L \<Longrightarrow> disciplined held L'"
proof (induction rule: loop_step.induct)
  case (acquire i cs h k es s s' q)
  then have ok: "sem_ok h (Acquire k # es)" by (force simp: disciplined_def)
  with acquire acquired [OF acquire(3)] show ?case
    by (auto simp: disciplined_def nth_list_update) (metis fst_conv option.distinct(1) subsetD insertE)
next
  case (schedule i cs h k es q s)
  then have "sem_ok h (ScheduleRelease k # es)" by (force simp: disciplined_def)
  with schedule show ?case
    by (auto simp: disciplined_def nth_list_update) (metis fst_conv option.inject)
next
  case (continue i cs h e es q s)
  then have "sem_ok h (e # es)" by (force simp: disciplined_def)
  with continue show ?case
    by (auto simp: disciplined_def nth_list_update sem_ok_continue) (metis fst_conv)
next
  case (immediate cs xs k ys s)
  then show ?case using released [of k s] by (auto simp: disciplined_def runImmediate_eq)
qed

lemma disciplined_reach: "(loop_step S)\<^sup>*\<^sup>* L L' \<Longrightarrow> disciplined held L \<Longrightarrow> disciplined held L'"
  by (induction rule: rtranclp_induct) (auto intro: disciplined_step)

text \<open>A caller that can go on without the semaphore, or can be granted its key, goes on.\<close>

lemma disciplined_progress:
  assumes L: "disciplined held L" and stuck: "\<nexists>L'. loop_step S L L'"
  shows "all_done L \<and> held (lp_semaphore L) = {}"
proof -
  obtain cs q s where [simp]: "L = \<lparr>lp_callers = cs, lp_immediates = q, lp_semaphore = s\<rparr>" by (cases L)
  have q: "q = []"
  proof (rule ccontr)
    assume "q \<noteq> []"
    then obtain k ks where "q = [] @ k # ks" by (cases q) auto
    with stuck loop_step.immediate [of S cs "[]" k ks s] show False by auto
  qed
  have waiting: "fst (cs ! i) = None \<and> (snd (cs ! i) = [] \<or> (\<exists>k es. snd (cs ! i) = Acquire k # es \<and> sm_acquire S k s = None))"
    if i: "i < length cs" for i
  proof -
    obtain h es where cl: "cs ! i = (h, es)" by (cases "cs ! i")
    then have ok: "sem_ok h es" using L i by (force simp: disciplined_def)
    show ?thesis
    proof (cases es)
      case (Cons e es')
      show ?thesis
      proof (cases e)
        case (Acquire k)
        then have "sm_acquire S k s = None"
          using stuck loop_step.acquire [of i cs h k es' S s _ q] i cl Cons by (cases "sm_acquire S k s") auto
        with Acquire Cons ok cl show ?thesis by simp
      next
        case (ScheduleRelease k)
        with stuck loop_step.schedule [of i cs h k es' S q s] i cl Cons show ?thesis by auto
      qed (use stuck loop_step.continue [of i cs h e es' S q s] i cl Cons in auto)
    qed (use ok cl in simp)
  qed
  then have free: "held s = {}" using L q by (force simp: disciplined_def)
  have "snd (cs ! i) = []" if "i < length cs" for i
    using waiting [OF that] waits free by blast
  with waiting have "cs ! i = (None, [])" if "i < length cs" for i using that by (simp add: prod_eq_iff)
  then show ?thesis using q free by (auto simp: all_done_def in_set_conv_nth)
qed

end

interpretation default_semaphore: semaphore_laws defaultSemaphore "\<lambda>_. {}"
  by unfold_locales (simp_all add: defaultSemaphore_def)

section \<open>The operations of the cache as callers\<close>

lemma quiet_reprocessPath:
  "logs quiet w (snd (snd (reprocessPath c n path ck processed promises groups w)))"
proof (induction path arbitrary: ck processed promises groups w)
  case (Cons k path)
  show ?case
    by (auto simp: Let_def intro: Cons each_log.compose [OF quiet_register Cons])
qed (simp add: each_log.same)

lemma quiet_reprocessKeys: "logs quiet w (snd (reprocessKeys c n ks promises groups w))"
proof (induction ks arbitrary: promises groups w)
  case (Cons k ks)
  then show ?case
    using each_log.compose [OF quiet_reprocessPath [of w c n "splitKey k" None "[]" promises groups]]
    by (auto split: prod.splits)
qed (simp add: each_log.same)

lemma quiet_reprocess: "logs quiet w (snd (reprocessAllKeyLevelChildren c n w))"
proof -
  let ?w = "clearAllChildrenRegistry c w"
  have "w_events ?w = w_events w" by (simp add: clearAllChildrenRegistry_def split: option.splits)
  then have "logs quiet w (snd (reprocessKeys c n ks [] [] ?w))" for ks
    by (rule each_log.compose [OF each_log.same quiet_reprocessKeys])
  then show ?thesis
    by (auto simp: reprocessAllKeyLevelChildren_def Let_def each_log.same split: option.splits prod.splits)
      (metis snd_conv)
qed

lemma sem_perform: "logs (sem_ok None) w (perform c op w)"
proof (cases op)
  case (DeepTreeSet a)
  then show ?thesis using sem_deepTreeSet [of "([], w)" c a "[]"] by (simp add: gen_rel_def)
next
  case (FullTreeSet a tree)
  then show ?thesis using sem_fullTreeSet [of "([], w)" c a tree] by (simp add: gen_rel_def)
qed (simp_all add: sem_setNode sem_prune quiet_sem [OF quiet_reprocess])

text \<open>
  The events of an operation that starts in a given world, and the callers that run such operations:
  one caller per operation, for \<open>prune\<close> one caller per key whose callback it starts.
\<close>

definition operation_log :: "('v, 's, 'm) cache \<Rightarrow> 'v operation \<times> ('s, 'm) world \<Rightarrow> event list" where
  "operation_log c = (\<lambda>(op, w). drop (length (w_events w)) (w_events (perform c op w)))"

definition acquired_keys :: "event list \<Rightarrow> key list" where
  "acquired_keys es = remdups (concat (map (\<lambda>e. case e of Acquire k \<Rightarrow> [k] | _ \<Rightarrow> []) es))"

definition caller_logs :: "('v, 's, 'm) cache \<Rightarrow> 'v operation \<times> ('s, 'm) world \<Rightarrow> event list list" where
  "caller_logs c job =
     (let es = operation_log c job in
      case fst job of Prune _ _ \<Rightarrow> map (\<lambda>k. own_events k es) (acquired_keys es) | _ \<Rightarrow> [es])"

definition start_loop :: "('v, 's, 'm) cache \<Rightarrow> ('v operation \<times> ('s, 'm) world) list \<Rightarrow> 'h \<Rightarrow> 'h loop" where
  "start_loop c jobs s =
     \<lparr>lp_callers = map (\<lambda>es. (None, es)) (concat (map (caller_logs c) jobs)), lp_immediates = [], lp_semaphore = s\<rparr>"

lemma operation_log_ok: "sem_ok None (operation_log c job)"
  using sem_perform [of "snd job" c "fst job"] by (auto simp: operation_log_def logs_def split: prod.splits)

lemma sem_ok_own: "sem_ok h es \<Longrightarrow> sem_ok (if h = Some k then Some k else None) (own_events k es)"
  by (induction h es rule: sem_ok.induct) (auto split: if_splits)

lemma caller_logs_ok: "es \<in> set (caller_logs c job) \<Longrightarrow> sem_ok None es"
  using sem_ok_own [of None "operation_log c job"] operation_log_ok [of c job]
  by (cases "fst job") (auto simp: caller_logs_def Let_def)

lemma disciplined_start: "held s = {} \<Longrightarrow> disciplined held (start_loop c jobs s)"
proof -
  have "sem_ok (fst cl) (snd cl)" if "cl \<in> set (lp_callers (start_loop c jobs s))" for cl
    using that caller_logs_ok [of _ c] by (auto simp: start_loop_def)
  then show "held s = {} \<Longrightarrow> disciplined held (start_loop c jobs s)"
    using nth_mem by (fastforce simp: disciplined_def start_loop_def)
qed

context semaphore_laws
begin

lemma run_completes:
  assumes "held s = {}" "(loop_step S)\<^sup>*\<^sup>* (start_loop c jobs s) L"
  shows "\<exists>L'. (loop_step S)\<^sup>*\<^sup>* L L' \<and> all_done L' \<and> held (lp_semaphore L') = {}"
proof -
  have "disciplined held L" by (rule disciplined_reach [OF assms(2) disciplined_start [where held = held, OF assms(1)]])
  then show ?thesis
  proof (induction L rule: measure_induct_rule [of work])
    case (less L)
    show ?case
    proof (cases "\<exists>L'. loop_step S L L'")
      case True
      then obtain L1 where L1: "loop_step S L L1" by blast
      from less.IH [OF loop_step_work [OF L1] disciplined_step [OF L1 less.prems]] obtain L'
        where "(loop_step S)\<^sup>*\<^sup>* L1 L'" "all_done L'" "held (lp_semaphore L') = {}" by blast
      with converse_rtranclp_into_rtranclp [of "loop_step S", OF L1] show ?thesis by blast
    qed (use disciplined_progress [OF less.prems] in blast)
  qed
qed

end

section \<open>Mutual exclusion\<close>

text \<open>The callers that work under a key.\<close>

definition works_under :: "'h loop \<Rightarrow> nat \<Rightarrow> key \<Rightarrow> bool" where
  "works_under L i k \<longleftrightarrow> i < length (lp_callers L) \<and> fst (lp_callers L ! i) = Some k"

definition exclusive :: "('h \<Rightarrow> key set) \<Rightarrow> 'h loop \<Rightarrow> bool" where
  "exclusive held L \<longleftrightarrow> distinct (lp_immediates L) \<and> set (lp_immediates L) \<subseteq> held (lp_semaphore L)
     \<and> (\<forall>i k. works_under L i k \<longrightarrow> k \<in> held (lp_semaphore L) \<and> k \<notin> set (lp_immediates L)
         \<and> (\<forall>j. works_under L j k \<longrightarrow> j = i))"

lemma exclusive_start: "held s = {} \<Longrightarrow> exclusive held (start_loop c jobs s)"
  by (simp add: exclusive_def works_under_def start_loop_def)

locale exclusive_semaphore = semaphore_laws +
  assumes granted: "sm_acquire S k s = Some s' \<Longrightarrow> k \<notin> held s \<and> held s' = insert k (held s)"
    and frees: "held (snd (sm_release S k s)) = held s - {k}"
begin

lemma exclusive_step: "loop_step S L L' \<Longrightarrow> disciplined held L \<Longrightarrow> exclusive held L \<Longrightarrow> exclusive held L'"
proof (induction rule: loop_step.induct)
  case (acquire i cs h k es s s' q)
  with granted [OF acquire(3)] show ?case
    by (auto simp: exclusive_def works_under_def nth_list_update split: if_splits)
next
  case (schedule i cs h k es q s)
  then have "h = Some k" by (force simp: disciplined_def)
  with schedule show ?case by (fastforce simp: exclusive_def works_under_def nth_list_update split: if_splits)
next
  case (continue i cs h e es q s)
  then show ?case by (fastforce simp: exclusive_def works_under_def nth_list_update split: if_splits)
next
  case (immediate cs xs k ys s)
  then show ?case by (auto simp: exclusive_def works_under_def runImmediate_eq frees)
qed

lemma exclusive_reach:
  "(loop_step S)\<^sup>*\<^sup>* L L' \<Longrightarrow> disciplined held L \<Longrightarrow> exclusive held L \<Longrightarrow> exclusive held L'"
  by (induction rule: rtranclp_induct) (auto intro: exclusive_step disciplined_reach)

lemma one_at_a_time:
  assumes "held s = {}" "(loop_step S)\<^sup>*\<^sup>* (start_loop c jobs s) L" "works_under L i k" "works_under L j k"
  shows "i = j"
proof -
  have "exclusive held L"
    by (rule exclusive_reach [OF assms(2)])
      (simp_all add: assms(1) disciplined_start [where held = held] exclusive_start [where held = held])
  with assms(3,4) show ?thesis by (auto simp: exclusive_def)
qed

end

text \<open>A semaphore with one lock per key.\<close>

definition keySemaphore :: "key set semaphore" where
  "keySemaphore = \<lparr>sm_acquire = (\<lambda>k s. if k \<in> s then None else Some (insert k s)), sm_release = (\<lambda>k s. (Inr (), s - {k}))\<rparr>"

interpretation key_semaphore: exclusive_semaphore keySemaphore "\<lambda>s. s"
  by unfold_locales (auto simp: keySemaphore_def split: if_splits)

end
