(* ===== verification/Cache_LostUpdate.thy ===== *)
theory Cache_LostUpdate
  imports Cache_Semaphore
begin

text \<open>
  What other callers do while \<open>setNode\<close> or \<open>deepTreeSet\<close> is between the read of a tree and the write
  of the changed tree. The code there awaits the caller of the generator and the storage, so other
  operations on the same cache may run. \<open>interrupt\<close> is what they do to the world; the definitions are
  those of \<open>Cache_Writes\<close> with that one addition. The tree that is written is the one that was read,
  with the own changes: what the others have written to it is gone. Where the key of the tree is
  acquired, and the others leave alone what is stored under an acquired key, nothing is lost.
\<close>

definition deepTreeSet_interrupted ::
  "(('s, 'm) world \<Rightarrow> ('s, 'm) world) \<Rightarrow> ('v, 's, 'm) cache \<Rightarrow> 'v setArgs \<Rightarrow> string list
   \<Rightarrow> 'v step list \<times> ('s, 'm) world \<Rightarrow> (unit, 'v step, ('s, 'm) world) gen" where
  "deepTreeSet_interrupted interrupt c a previousKeys g =
     (let path = a_path a; upTo = min (keyLevelNodes c - 1) (length path) in
      and_then (keyLoop c a upTo (length previousKeys)
          (if length previousKeys > 0 then Some (join previousKeys) else None) None g)
        (\<lambda>(currentLevel, chainedKey, nodeRef) (out, w).
          if currentLevel < length path then
            (if \<not> str_truthy chainedKey then (Inl (Threw NonConsistentStorage), out, w)
             else
               (case getChainedKey path currentLevel chainedKey of
                  Inl e \<Rightarrow> (Inl (Threw e), out, w)
                | Inr (ck, key) \<Rightarrow>
                    guarded (a_minLevelSemaphore a \<le> Suc currentLevel) ck w (\<lambda>w.
                      (let buffer = store_get c w ck in
                       case (if str_truthy buffer then ts_deserialize (tser c) (the buffer) else Inr empty_tree) of
                         Inl e \<Rightarrow> (Inl (Threw e), out, w)
                       | Inr rootTree \<Rightarrow>
                           and_then (treeLoop c a (Suc currentLevel) key nodeRef rootTree False None (out, w))
                             (\<lambda>(tree, changed, maxTtl) (out, w).
                               (let w = interrupt w in
                                (Inr (), out, if changed then persistTree c ck maxTtl tree w else w)))))))
          else (Inr (), out, w)))"

definition setNode_interrupted ::
  "(('s, 'm) world \<Rightarrow> ('s, 'm) world) \<Rightarrow> ('v, 's, 'm) cache \<Rightarrow> path \<Rightarrow> 'v nodeValue \<Rightarrow> 'v stepTtl option \<Rightarrow> int
   \<Rightarrow> ('s, 'm) world \<Rightarrow> (unit, ('s, 'm) world) result" where
  "setNode_interrupted interrupt c path value ttl now w =
     (case value of
        Given None \<Rightarrow> (Inr (), w)
      | _ \<Rightarrow>
          (case deepTreeSet_interrupted interrupt c (setNodeArgs path value ttl now) [] ([], w) of
             (Inl (Threw e), _, w) \<Rightarrow> (Inl e, w)
           | (_, _, w) \<Rightarrow> (Inr (), w)))"

text \<open>Without interruption they are the operations of the source.\<close>

lemma deepTreeSet_uninterrupted: "deepTreeSet_interrupted (\<lambda>w. w) c a previousKeys g = deepTreeSet c a previousKeys g"
  unfolding deepTreeSet_interrupted_def deepTreeSet_def Let_def by (rule refl)

lemma setNode_uninterrupted: "setNode_interrupted (\<lambda>w. w) c path value ttl now w = setNode c path value ttl now w"
  unfolding setNode_interrupted_def setNode_def deepTreeSet_uninterrupted by (rule refl)

interpretation same_store: reading_rel "\<lambda>w w'. w_store w' = w_store w"
  by unfold_locales auto

lemma overlay_cong: "f q = g q \<Longrightarrow> overlay vs ks f q = overlay vs ks g q"
  by (simp add: overlay_def split: option.splits)

context lawful_cache
begin

text \<open>
  The run up to the interruption and the run after it: \<open>w0\<close> is the world that the others find. If the
  level is guarded, the key of the tree is acquired there.
\<close>

lemma deepTreeSet_split:
  assumes a: "resuming a" and p: "valid_path (a_path a)" and k: "2 \<le> keyLevelNodes c" "keyLevelNodes c \<le> length (a_path a)"
    and run: "deepTreeSet c a [] ([], w) = (Inr (), outs, w')"
    and ck: "ck = join (take (keyLevelNodes c) (a_path a))"
    and cond: "cond \<longleftrightarrow> a_minLevelSemaphore a \<le> keyLevelNodes c"
  shows "\<exists>w0 ch m t. (\<forall>interrupt. deepTreeSet_interrupted interrupt c a [] ([], w)
        = (Inr (), outs, dontWait (if cond then Some (ScheduleRelease ck) else None)
            (if ch then persistTree c ck m t (interrupt w0) else interrupt w0)))
    \<and> store_get c w0 ck = store_get c w ck
    \<and> (cond \<longrightarrow> (\<exists>es ds. w_events w0 = w_events w @ es @ Acquire ck # ds \<and> sem_ok None es \<and> quiet ds))"
proof -
  let ?p = "a_path a" and ?u = "keyLevelNodes c - 1"
  have u: "min ?u (length ?p) = ?u" "?u < length ?p" "?u < keyLevelNodes c" "?u \<le> length ?p" "Suc ?u = keyLevelNodes c" using k by auto
  have hd: "hd ?p \<noteq> []" using p by (simp add: valid_path_def)
  obtain out1 w1 where r1: "keyLoop c a ?u 0 None None ([], w) = (Inr (?u, chained_key ?p ?u, path_ref (take ?u ?p)), out1, w1)"
    and same: "store_get c w1 ck = store_get c w ck"
    using keyLoop_overlay [OF a p u(3,4) refl, of w] p k unfolding ck by blast
  have next_key: "getChainedKey ?p ?u (chained_key ?p ?u) = Inr (ck, ?p ! ?u)"
    using getChainedKey_next [OF u(2) hd] u(5) ck by simp
  let ?w = "if cond then emit (Acquire ck) w1 else w1"
  have tr: "str_truthy (chained_key ?p ?u)"
    using k hd by (cases ?p) (auto simp: join_eq_Nil_iff take_Cons')
  note unfold = deepTreeSet_uninterrupted [symmetric] deepTreeSet_interrupted_def Let_def u(1) list.size less_irrefl if_False r1
    and_then_simps prod.case u(2) if_True tr not_True_eq_False next_key sum.case u(5) guarded_eq cond [symmetric]
  obtain t where t: "(if str_truthy (store_get c ?w ck) then ts_deserialize (tser c) (the (store_get c ?w ck)) else Inr empty_tree) = Inr t"
    using run by (cases "if str_truthy (store_get c ?w ck) then ts_deserialize (tser c) (the (store_get c ?w ck)) else Inr empty_tree")
      (simp_all only: unfold, simp)
  obtain r out2 w2 where r2: "treeLoop c a (keyLevelNodes c) (?p ! ?u) (path_ref (take ?u ?p)) t False None (out1, ?w) = (r, out2, w2)"
    by (metis prod.exhaust)
  obtain t1 ch m where r: "r = Inr (t1, ch, m)"
    using run by (cases r) (simp_all only: unfold t r2, auto)
  have eq: "deepTreeSet_interrupted i c a [] ([], w) = (Inr (), out2, dontWait (if cond then Some (ScheduleRelease ck) else None)
      (if ch then persistTree c ck m t1 (i w2) else i w2))" for i
    by (simp only: unfold t r2 r) simp
  have outs: "outs = out2" using eq [of "\<lambda>w. w"] run by (simp add: deepTreeSet_uninterrupted)
  have store: "store_get c w2 ck = store_get c w ck"
    using same_store.rel_treeLoop [of "(out1, ?w)" c a "keyLevelNodes c" "?p ! ?u" "path_ref (take ?u ?p)" t False None] r2 same
    by (simp add: gen_rel_def)
  obtain es where es: "w_events w1 = w_events w @ es" "sem_ok None es"
    using sem_keyLoop [of "([], w)" c a ?u 0 None None] r1 by (auto simp: gen_rel_def logs_def)
  obtain ds where ds: "w_events w2 = w_events ?w @ ds" "quiet ds"
    using silent_log.rel_treeLoop [of "(out1, ?w)" c a "keyLevelNodes c" "?p ! ?u" "path_ref (take ?u ?p)" t False None] r2
    by (auto simp: gen_rel_def logs_def dest: silent_quiet)
  have "cond \<longrightarrow> (\<exists>es ds. w_events w2 = w_events w @ es @ Acquire ck # ds \<and> sem_ok None es \<and> quiet ds)"
    using es ds by auto
  with eq store outs show ?thesis by blast
qed

text \<open>
  The run with an interruption ends as the one without; if the latter has changed the tree, both have
  written the same tree.
\<close>

lemma deepTreeSet_interrupted_tree:
  assumes "resuming a" "valid_path (a_path a)" "2 \<le> keyLevelNodes c" "keyLevelNodes c \<le> length (a_path a)"
    and run: "deepTreeSet c a [] ([], w) = (Inr (), outs, w')"
    and ck: "ck = join (take (keyLevelNodes c) (a_path a))"
    and changed: "store_get c w' ck \<noteq> store_get c w ck"
  shows "\<exists>w''. deepTreeSet_interrupted interrupt c a [] ([], w) = (Inr (), outs, w'') \<and> store_get c w'' ck = store_get c w' ck"
proof -
  obtain w0 ch m t e where eq: "\<And>i. deepTreeSet_interrupted i c a [] ([], w)
      = (Inr (), outs, dontWait e (if ch then persistTree c ck m t (i w0) else i w0))"
    and same: "store_get c w0 ck = store_get c w ck"
    using deepTreeSet_split [OF assms(1-4) run ck refl] by blast
  have w': "w' = dontWait e (if ch then persistTree c ck m t w0 else w0)"
    using eq [of "\<lambda>w. w"] run by (simp add: deepTreeSet_uninterrupted)
  have dontWait: "store_get c (dontWait e v) ck = store_get c v ck" for v by (cases e) simp_all
  have "ch" using changed same by (cases ch) (simp_all add: w' dontWait)
  with eq [of interrupt] w' show ?thesis by (simp add: dontWait get_persistTree)
qed

text \<open>
  Under the semaphore: if the others leave the entry of the tree as it is, the run ends with the own
  values written over what the others have left.
\<close>

lemma deepTreeSet_guarded_result:
  assumes a: "resuming a" "ttl_ok (a_ttl a)" and p: "valid_path (a_path a)" and k: "2 \<le> keyLevelNodes c" "keyLevelNodes c \<le> length (a_path a)"
    and rd: "tree_readable c (w_store w) (a_path a)" and sem: "a_minLevelSemaphore a \<le> keyLevelNodes c"
    and outs: "outs = deep_steps a [] (map (\<lambda>i. first_step c a (raw_at c (a_now a) (w_store w)) (take i (a_path a)))
        [1..<Suc (length (a_path a))])"
    and ck: "ck = join (take (keyLevelNodes c) (a_path a))"
  shows "\<exists>w0 rest. (\<forall>others. deepTreeSet_interrupted others c a [] ([], w) = (Inr (), outs, rest (others w0)))
    \<and> (\<exists>es ds. w_events w0 = w_events w @ es @ Acquire ck # ds \<and> sem_ok None es \<and> quiet ds)
    \<and> (\<forall>v. w_events (rest v) = w_events v @ [ScheduleRelease ck]
        \<and> (store_get c v ck = store_get c w0 ck \<longrightarrow>
            (\<forall>q. valid_path q \<longrightarrow> node_value c (a_now a) (w_store (rest v)) q =
              (if keyLevelNodes c \<le> length q
               then overlay (None # map step_value outs) (a_path a) (node_value c (a_now a) (w_store v)) q
               else node_value c (a_now a) (w_store v) q))))"
proof -
  let ?p = "a_path a" and ?n = "node_value c (a_now a)" and ?vs = "None # map step_value outs"
  obtain w' where run: "deepTreeSet c a [] ([], w) = (Inr (), outs, w')"
    and nv: "\<And>q. valid_path q \<Longrightarrow> ?n (w_store w') q = overlay ?vs ?p (?n (w_store w)) q"
    using deepTreeSet_result [OF a p k(1) rd outs] by blast
  obtain w0 ch m t where eq: "\<And>i. deepTreeSet_interrupted i c a [] ([], w)
      = (Inr (), outs, dontWait (Some (ScheduleRelease ck)) (if ch then persistTree c ck m t (i w0) else i w0))"
    and same: "store_get c w0 ck = store_get c w ck"
    and log: "\<exists>es ds. w_events w0 = w_events w @ es @ Acquire ck # ds \<and> sem_ok None es \<and> quiet ds"
    using deepTreeSet_split [OF a(1) p k run ck refl] unfolding eqTrueI [OF sem] if_True by blast
  let ?rest = "\<lambda>v. dontWait (Some (ScheduleRelease ck)) (if ch then persistTree c ck m t v else v)"
  have w': "w' = ?rest w0" using eq [of "\<lambda>w. w"] run by (simp add: deepTreeSet_uninterrupted)
  have "?n (w_store (?rest v)) q = (if keyLevelNodes c \<le> length q then overlay ?vs ?p (?n (w_store v)) q else ?n (w_store v) q)"
    if v: "store_get c v ck = store_get c w0 ck" and q: "valid_path q" for v q
  proof (cases "take (keyLevelNodes c) q = take (keyLevelNodes c) ?p")
    case True
    have "keyLevelNodes c \<le> length q" using arg_cong [OF True, of length] k(2) by simp
    moreover have "?n (w_store (?rest v)) q = ?n (w_store w') q"
      by (rule node_value_cong) (use True v in \<open>simp add: w' ck [symmetric] get_persistTree\<close>)
    moreover have "?n (w_store v) q = ?n (w_store w) q"
      by (rule node_value_cong) (use True v same in \<open>simp add: ck [symmetric]\<close>)
    ultimately show ?thesis using nv [OF q] overlay_cong [of "?n (w_store v)" q "?n (w_store w)" ?vs ?p] by simp
  next
    case False
    have "join (take (keyLevelNodes c) q) \<noteq> ck"
      using storage_key_eq [of q ?p "keyLevelNodes c" "keyLevelNodes c"] False q p k by (auto simp: ck valid_path_def)
    then have "?n (w_store (?rest v)) q = ?n (w_store v) q" by (intro node_value_cong) (simp add: get_persistTree)
    moreover have "overlay ?vs ?p (?n (w_store v)) q = ?n (w_store v) q" if "keyLevelNodes c \<le> length q"
      using False that by (intro overlay_other) (metis min.absorb1 take_take)
    ultimately show ?thesis by simp
  qed
  then show ?thesis using eq log by (intro exI [of _ w0] exI [of _ ?rest]) auto
qed

text \<open>What the others have done to the tree is lost.\<close>

lemma setNode_interrupted_result:
  assumes p: "valid_path path" and k: "2 \<le> keyLevelNodes c" "keyLevelNodes c \<le> length path" and t: "ttl_ok ttl"
    and rd: "tree_readable c (w_store w) path" and v: "given_value value = Some v"
    and new: "node_value c now (w_store w) path \<noteq> Some v"
  shows "\<exists>w'. setNode_interrupted interrupt c path value ttl now w = (Inr (), w')
    \<and> (\<forall>q. valid_path q \<and> take (keyLevelNodes c) q = take (keyLevelNodes c) path \<longrightarrow>
        node_value c now (w_store w') q = ((node_value c now (w_store w))(path := Some v)) q)"
proof -
  let ?a = "setNodeArgs path value ttl now" and ?ck = "join (take (keyLevelNodes c) path)"
  have sel: "a_path ?a = path" by (simp add: setNodeArgs_def)
  have ra: "resuming ?a" by (rule setNodeArgs_resuming [OF v])
  obtain outs w1 where run: "deepTreeSet c ?a [] ([], w) = (Inr (), outs, w1)"
    and nv: "\<And>q. valid_path q \<Longrightarrow> node_value c now (w_store w1) q = ((node_value c now (w_store w))(path := Some v)) q"
    using setNode_deep [OF p k(1) t rd v, of now] by blast
  have "store_get c w1 ?ck \<noteq> store_get c w ?ck"
    using node_value_cong [of c "w_store w1" path "w_store w" now] nv [OF p] new by auto
  from deepTreeSet_interrupted_tree [OF ra _ k(1) _ run _ this, of interrupt] p k(2) obtain w2
    where w2: "deepTreeSet_interrupted interrupt c ?a [] ([], w) = (Inr (), outs, w2)" "store_get c w2 ?ck = store_get c w1 ?ck"
    by (auto simp: sel)
  have "node_value c now (w_store w2) q = node_value c now (w_store w1) q"
    if "take (keyLevelNodes c) q = take (keyLevelNodes c) path" for q
    by (rule node_value_cong) (simp add: that w2(2))
  moreover have "setNode_interrupted interrupt c path value ttl now w = (Inr (), w2)"
    using w2(1) v by (auto simp: setNode_interrupted_def given_value_def split: nodeValue.splits option.splits)
  ultimately show ?thesis using nv by auto
qed

end

end
