(* ===== verification/Spec2Isabelle.thy ===== *)
theory Spec2Isabelle
  imports Cache_Default Cache_EventLoop Cache_LostUpdate Cache_Utils
begin

text \<open>
  Verification of \<^emph>\<open>tree-key-cache\<close>, a TypeScript library that keeps a tree of values in a key-value
  storage. File names are relative to the root of the repository.

  \<^bold>\<open>The program.\<close> A node is addressed by a path of keys. Nodes above the level \<open>keyLevelNodes\<close> are entries
  of the storage under the \<^emph>\<open>chained key\<close> of their path (the keys joined by colons); everything below
  a path of \<open>keyLevelNodes\<close> keys is one entry that holds a serialized tree, whose nodes carry their own
  deadlines. \<open>TreeKeyCache\<close> (\<open>src/tree-key-cache.ts\<close>) has the public operations, \<open>TreeInternalControl\<close>
  (\<open>src/internal/tree-internal-control.ts\<close>) the reading and writing of steps and trees,
  \<open>src/utils/graphs\<close> the traversals and their list structures, \<open>src/utils\<close> helpers that are exported
  to users. Storage, serializers, memoizer and semaphore are supplied by the user.

  \<^bold>\<open>How the code is modelled.\<close> Values that may be \<open>undefined\<close> are options; an operation that may throw
  returns \<open>error + 'a\<close>. The state is the record \<open>world\<close>: the state of the storage, of the memoizer, and
  the log of events (acquires and releases of the semaphore, reported deserialization errors, registered
  children). Async functions run in the order of their awaits. A generator is either the list of what it
  yields with the error that ends it, where its caller cannot influence it, or, for \<open>deepTreeSet\<close> and
  \<open>fullTreeSet\<close>, a function that is given the caller's loop body: the body sees what was yielded
  before and the current step and answers by resuming with a value in the step, leaving the loop or
  throwing. \<open>Date.now()\<close> is an argument: one value for an operation (two for \<open>deserializeWholeTree\<close>). The source reads
  the clock once per operation in \<open>deepTreeSet\<close> and \<open>iteratePath\<close>, and again at each traversal and for
  each tree in \<open>fullTreeSet\<close>, \<open>randomIterate\<close>, \<open>prune\<close> and the searches; the model is that of a clock
  that does not pass a deadline meanwhile. The objects of JavaScript are association lists in its
  enumeration order; linked nodes are cells of an explicit heap; references into a tree under
  construction are paths.

  \<^bold>\<open>Theories.\<close>

  \<^item> \<open>Cache_Prelude\<close>: absent values, truthiness, property order, errors, shared lemmas.
  \<^item> \<open>Cache_Keys\<close>: \<open>build-key.ts\<close>, \<open>get-key.ts\<close>, \<open>get-chained-key.ts\<close>; joining and splitting are inverse,
    chained keys identify paths.
  \<^item> \<open>Cache_Trees\<close>: \<open>tree-type.ts\<close>, \<open>create-traversal-item.ts\<close>, \<open>get-next-*-node.ts\<close>; well-formed trees.
  \<^item> \<open>Cache_Lists\<close>, \<open>Cache_Traversals\<close>: \<open>queue.ts\<close> and the synchronous traversals of \<open>src/utils/graphs\<close>.
    \<open>SimpleList\<close> is the locale \<open>push_list\<close> with its extensions \<open>fifo_list\<close> and \<open>lifo_list\<close>; the loop is
    proved once for each and interpreted on the queue and the array.
  \<^item> \<open>Cache_Prune\<close>: \<open>prune-tree.ts\<close>, shown equal to a recursive reference.
  \<^item> \<open>Cache_Storage\<close>: the interfaces of \<open>src/types\<close>, the locales \<open>storage_laws\<close> and \<open>serializer_laws\<close>
    with what the library relies on, and the in-memory storage of \<open>test/helpers.ts\<close>.
  \<^item> \<open>Cache_Internal\<close>, \<open>Cache_Reads\<close>: \<open>TreeInternalControl\<close>, \<open>getNode\<close>, \<open>iteratePath\<close>; \<open>raw_at\<close> is the
    abstract reading of a path.
  \<^item> \<open>Cache_Writes\<close>, \<open>Cache_Set\<close>, \<open>Cache_FullSet\<close>: \<open>deepTreeSet\<close>, \<open>setNode\<close>, \<open>fullTreeSet\<close> and what they
    do to the map from paths to values (\<open>node_value\<close>, \<open>stored_at\<close>). The locale \<open>lawful_cache\<close> combines
    the laws of storage and serializers.
  \<^item> \<open>Cache_Maintenance\<close>: \<open>prune\<close>, \<open>randomIterate\<close>, \<open>reprocessAllKeyLevelChildren\<close>.
  \<^item> \<open>Cache_Generators\<close>, \<open>Cache_Semaphore\<close>, \<open>Cache_Invariant\<close>: relations between the world before and after
    a generator (locales \<open>world_rel\<close>, \<open>reading_rel\<close>), used for the discipline of the semaphore and for
    the invariant of the storage under any sequence of operations (\<open>reaches\<close>).
  \<^item> \<open>Cache_WaitAll\<close>: the callbacks of \<open>prune\<close> as concurrent steps, with a storage that may reject a write;
    every interleaving leaves the same storage, and \<open>prune\<close> of \<open>Cache_Maintenance\<close> is one of them.
  \<^item> \<open>Cache_EventLoop\<close>: the semaphore as an interface (locales \<open>semaphore_laws\<close> and \<open>exclusive_semaphore\<close>), the
    callbacks that \<open>dont-wait.ts\<close> leaves to the event loop, and concurrent callers as a step relation.
  \<^item> \<open>Cache_LostUpdate\<close>: \<open>setNode\<close> and \<open>deepTreeSet\<close> with other callers running between the read and the write
    of a tree: the definitions of \<open>Cache_Writes\<close> with what the others do inserted at that point, equal to
    them when the others do nothing.
  \<^item> \<open>Cache_Async_Lists\<close>, \<open>Cache_Async\<close>: \<open>src/utils/graphs/async\<close> and \<open>async-tree-ref.ts\<close>; the locales
    \<open>async_fifo\<close> and \<open>async_lifo\<close> are the contracts of \<open>AsyncQueue\<close> and \<open>AsyncStack\<close>, \<open>storedTree\<close> is
    the tree a storage represents.
  \<^item> \<open>Cache_Search\<close>, \<open>Cache_Stored\<close>: the four searches of \<open>TreeKeyCache\<close>, what they and \<open>randomIterate\<close> yield.
  \<^item> \<open>Cache_Json\<close>, \<open>Cache_Default\<close>: \<open>default-options.ts\<close> with \<open>JSON\<close>, the constructor, and the cache over the
    in-memory storage, on which the locales are interpreted.
  \<^item> \<open>Cache_Utils\<close>: \<open>deep-tree-set.ts\<close> and \<open>deserialize-whole-tree.ts\<close>.

  \<^bold>\<open>What is shown.\<close> The sections below state the properties in this order. Writing refines the update of
  a map, one path or a whole tree at a time, and keeps every stored tree readable over any sequence of
  operations. Reading returns what is stored. Pruning changes no reading and removes what is dead, and
  random iteration yields what is stored. The semaphore is released on every path of \<open>deepTreeSet\<close> and
  \<open>fullTreeSet\<close>; the overlapping callbacks of \<open>prune\<close> release each key they acquire unless the storage rejects,
  and their interleaving does not matter for the storage. Concurrent callers complete under every
  interleaving. \<open>deepTreeSet\<close> holds the key of a tree from the read to the write, so that callers which
  respect the semaphore lose nothing; \<open>setNode\<close> inside a tree works without it and can lose concurrent
  writes. The traversals visit
  every node once in their order, over a queue that is first-in first-out. Keys and serializers have
  their round trips. Then come errors, child registration and memoization, the asynchronous
  searches of the whole cache with their termination, and the helpers on trees in memory. The witnesses
  run the statements on the in-memory storage with the default serializers.

  \<^bold>\<open>Fuel.\<close> The synchronous loop is bounded by the number of nodes of the tree, the asynchronous one by that
  of \<open>storedTree\<close>; a pop of \<open>AsyncQueue\<close> by the number of nodes ever linked (\<open>q_fresh\<close>), draining an
  iterable by the number of keys \<open>getChildren\<close> lists (\<open>it_bound\<close>). None of these bounds is ever reached: the
  properties of the traversals, the searches and the asynchronous queue state results of complete runs.

  \<^bold>\<open>Not modelled.\<close> The index files only export. A storage that rejects is outside the model, except for
  the writes of \<open>prune\<close> in \<open>Cache_WaitAll\<close>: the storage functions are total. Concurrent callers are modelled
  by what they do to the semaphore, each caller by the log of a run of its operation, and by one
  interruption of an operation between the read and the write of a tree; an operation whose loop body
  calls the cache again while it holds a key is not a caller of this kind. The lists of keys that a
  storage enumerates (\<open>randomIterate\<close>, \<open>getChildren\<close>) are finite and fixed when the enumeration starts.
  \<open>null\<close> and \<open>undefined\<close> are one absent value, also in \<open>checkFullSetItemChange\<close>, where the source would
  serialize a \<open>null\<close>. \<open>createValue\<close> of \<open>fullTreeSet\<close> is a
  function of the reference of the node, where the source passes the whole traversal item.
  In \<open>deepTreeSet\<close> on trees in memory the caller can change the current step; the source lets it also
  change the value of an earlier step later. \<open>JSON\<close> of the language is modelled on strings of one-byte characters,
  integers and objects in JavaScript's order, as far as the default serializers need it; text that does
  not have the form of a tree is an error of the model's tree deserializer, where the source uses what
  \<open>JSON.parse\<close> returns. Values that are buffers instead of strings and properties inherited from
  \<open>Object.prototype\<close> are not modelled. The setter of \<open>MultiTreeRef\<close> children is never called.
\<close>

section \<open>Writing nodes\<close>

text \<open>
  C1. \<open>setNode\<close> refines the update of a finite map. For a storage and serializers that keep their
  laws, at least two key level nodes and a path of separator-free keys whose tree, if there is one,
  can be deserialized, \<open>setNode\<close> returns without an error; afterwards the node of the path has the
  given value and every other node has the value it had before.
\<close>

theorem setNode_updates:
  assumes "lawful_cache c" "valid_path path" "2 \<le> keyLevelNodes c" "ttl_ok ttl"
    and "tree_readable c (w_store w) path" "given_value value = Some v"
  shows "\<exists>w'. setNode c path value ttl now w = (Inr (), w')
    \<and> (\<forall>q. valid_path q \<longrightarrow>
        node_value c now (w_store w') q = ((node_value c now (w_store w))(path := Some v)) q)"
  using lawful_cache.setNode_result [OF assms] .

theorem setNode_updates_witness:
  "\<exists>w'. setNode (map_cache 2) [''a'', ''b'', ''c''] (Given (Some yes)) (Some (TtlNumber 60)) 1000 empty_world = (Inr (), w')
    \<and> (\<forall>q. valid_path q \<longrightarrow> node_value (map_cache 2) 1000 (w_store w') q
        = ((node_value (map_cache 2) 1000 (w_store empty_world))([''a'', ''b'', ''c''] := Some yes)) q)"
  by (rule setNode_updates)
    (simp_all add: default_cache.lawful_cache_axioms valid_path_def sep_free_def given_value_def)

text \<open>
  C2. What \<open>setNode\<close> writes, \<open>getNode\<close> reads: on a cache without memoizer and history the value
  set at a path is the value of the step \<open>getNode\<close> returns for it.
\<close>

theorem setNode_getNode:
  assumes "lawful_cache c" "plain_cache c" "valid_path path" "2 \<le> keyLevelNodes c" "ttl_ok ttl"
    and "tree_readable c (w_store w) path" "given_value value = Some v"
  shows "fst (getNode c path now (snd (setNode c path value ttl now w)))
    = Inr (Some (mountStep (node_ref path) (Some v)))"
proof -
  obtain w' where "setNode c path value ttl now w = (Inr (), w')" "node_value c now (w_store w') path = Some v"
    using lawful_cache.setNode_result [OF assms(1,3-7)] assms(3) by fastforce
  with lawful_cache.getNode_value [OF assms(1,2)] assms(3,4) show ?thesis
    by (simp add: valid_path_def)
qed

theorem setNode_getNode_witness:
  "fst (getNode (map_cache 2) [''a'', ''b'', ''c''] 5
      (snd (setNode (map_cache 2) [''a'', ''b'', ''c''] (Callback (Inr (Some yes))) None 5 empty_world)))
    = Inr (Some (mountStep (node_ref [''a'', ''b'', ''c'']) (Some yes)))"
  by (rule setNode_getNode)
    (simp_all add: default_cache.lawful_cache_axioms valid_path_def sep_free_def given_value_def)

text \<open>
  C3. \<open>deepTreeSet\<close>, run by a caller that never leaves its loop, yields for each prefix of the
  path, shortest first, the step the storage holds or \<open>createValue\<close> makes up, and writes for each
  prefix the value the caller leaves in the step, where there is one; no other node changes.
\<close>

theorem deepTreeSet_refines:
  assumes "lawful_cache c" "resuming a" "ttl_ok (a_ttl a)" "valid_path (a_path a)" "2 \<le> keyLevelNodes c"
    and "tree_readable c (w_store w) (a_path a)"
    and "outs = deep_steps a [] (map (\<lambda>i. first_step c a (raw_at c (a_now a) (w_store w)) (take i (a_path a)))
        [1..<Suc (length (a_path a))])"
  shows "\<exists>w'. deepTreeSet c a [] ([], w) = (Inr (), outs, w')
    \<and> (\<forall>q. valid_path q \<longrightarrow> node_value c (a_now a) (w_store w') q
        = overlay (None # map step_value outs) (a_path a) (node_value c (a_now a) (w_store w)) q)"
  using lawful_cache.deepTreeSet_result [OF assms] .

definition example_args :: "jvalue setArgs" where
  "example_args = \<lparr>a_path = [''a'', ''b'', ''c''], a_createValue = Some (\<lambda>_. Some yes), a_ttl = Some (TtlNumber 60),
     a_minLevelSemaphore = 0, a_now = 7, a_body = (\<lambda>out step. Resume (step_value step))\<rparr>"

theorem deepTreeSet_refines_witness:
  "\<exists>w'. deepTreeSet (map_cache 2) example_args [] ([], empty_world)
      = (Inr (), deep_steps example_args [] (map (\<lambda>i. first_step (map_cache 2) example_args
           (raw_at (map_cache 2) (a_now example_args) (w_store empty_world)) (take i (a_path example_args)))
           [1..<Suc (length (a_path example_args))]), w')
    \<and> (\<forall>q. valid_path q \<longrightarrow> node_value (map_cache 2) (a_now example_args) (w_store w') q
        = overlay (None # map step_value (deep_steps example_args [] (map (\<lambda>i. first_step (map_cache 2) example_args
           (raw_at (map_cache 2) (a_now example_args) (w_store empty_world)) (take i (a_path example_args)))
           [1..<Suc (length (a_path example_args))]))) (a_path example_args)
           (node_value (map_cache 2) (a_now example_args) (w_store empty_world)) q)"
  by (rule deepTreeSet_refines)
    (simp_all add: default_cache.lawful_cache_axioms valid_path_def sep_free_def example_args_def resuming_def)

section \<open>Setting a whole tree\<close>

text \<open>
  C4. \<open>fullTreeSet\<close> writes a tree in memory into the cache. The caller gets one item per node below
  the root of the tree, nodes of the upper levels breadth first and each tree below \<open>keyLevelNodes\<close>
  depth first when its root is reached; an item shows the value of the tree and the live value the
  storage had for the node. Afterwards each node is stored with the value the caller left in its item
  or, where there is none, with its old value (for a node its stored tree did not have, the one of
  \<open>createValue\<close>); nothing else changes.
\<close>

theorem fullTreeSet_writes:
  assumes "lawful_cache c" "full_resuming a" "0 < keyLevelNodes c" "wf_tree tree"
    and "\<And>q. q \<noteq> [] \<Longrightarrow> tree_lookup tree q \<noteq> None \<Longrightarrow> valid_path q"
    and "\<And>q. length q = keyLevelNodes c \<Longrightarrow> tree_lookup tree q \<noteq> None \<Longrightarrow> tree_readable c (w_store w) q"
    and "order = full_order (keyLevelNodes c) (f_now a) (fst (treePreOrderBreadthFirstSearch tree None (f_now a)))"
    and "outs = full_steps a [] (map (full_offer c a (w_store w)) order)"
  shows "distinct (map item_path order) \<and> item_path ` set order = {q. q \<noteq> [] \<and> tree_lookup tree q \<noteq> None}
    \<and> (\<exists>w'. fullTreeSet c a tree ([], w) = (Inr (), outs, w')
      \<and> (\<forall>(i, o') \<in> set (zip order outs). stored_at c (w_store w') (item_path i) = written c (kept c a (w_store w) i) o')
      \<and> (\<forall>q. valid_path q \<and> tree_lookup tree q = None \<longrightarrow>
          stored_at c (w_store w') q = stored_at c (w_store w) q))"
  using full_order_nodes(3,5) [OF assms(4) refl assms(7)] assms(3) lawful_cache.fullTreeSet_result [OF assms]
  by (simp add: handled_def)

definition memory_tree :: "jvalue tree" where
  "memory_tree = Tree None None (Some [(''a'', Some (Tree (Some yes) None (Some [(''b'', Some (Tree (Some yes) None
     (Some [(''c'', Some (Tree (Some yes) None None))])))])))])"

definition full_example :: "jvalue fullArgs" where
  "full_example = \<lparr>f_createValue = None, f_minLevelSemaphore = 0, f_ttl = Some (TtlNumber 60), f_now = 7,
     f_body = (\<lambda>out step. Resume (step_value step))\<rparr>"

lemma memory_tree_wf: "wf_tree memory_tree"
  by (simp add: memory_tree_def wf_tree.simps kids_def kids_of_def children_or_empty_def js_object_def)

lemma memory_tree_nodes:
  "{q. q \<noteq> [] \<and> tree_lookup memory_tree q \<noteq> None} = {[''a''], [''a'', ''b''], [''a'', ''b'', ''c'']}"
proof -
  have "tree_lookup memory_tree q \<noteq> None \<longleftrightarrow> q \<in> {[], [''a''], [''a'', ''b''], [''a'', ''b'', ''c'']}" for q
    by (cases q; cases "tl q"; cases "tl (tl q)"; cases "tl (tl (tl q))")
      (auto simp: memory_tree_def tree_child_def split: if_splits)
  then show ?thesis by auto
qed

lemma memory_tree_valid: "q \<noteq> [] \<Longrightarrow> tree_lookup memory_tree q \<noteq> None \<Longrightarrow> valid_path q"
proof -
  assume "q \<noteq> []" "tree_lookup memory_tree q \<noteq> None"
  then have "q \<in> {[''a''], [''a'', ''b''], [''a'', ''b'', ''c'']}" using memory_tree_nodes by blast
  then show ?thesis by (auto simp: valid_path_def sep_free_def)
qed

theorem fullTreeSet_writes_witness:
  "\<exists>outs w'. fullTreeSet (map_cache 2) full_example memory_tree ([], empty_world) = (Inr (), outs, w')
    \<and> length outs = 3 \<and> stored_at (map_cache 2) (w_store w') [''a'', ''x''] = None"
proof -
  define order where "order = full_order (keyLevelNodes (map_cache 2)) (f_now full_example)
    (fst (treePreOrderBreadthFirstSearch memory_tree None (f_now full_example)))"
  define outs where "outs = full_steps full_example [] (map (full_offer (map_cache 2) full_example (w_store empty_world)) order)"
  have r: "full_resuming full_example" by (simp add: full_resuming_def full_example_def)
  have x: "valid_path [''a'', ''x'']" "tree_lookup memory_tree [''a'', ''x''] = None"
    by (simp_all add: valid_path_def sep_free_def memory_tree_def tree_child_def)
  have n: "0 < keyLevelNodes (map_cache 2)" by simp
  note fact = fullTreeSet_writes [OF default_cache.lawful_cache_axioms r n memory_tree_wf memory_tree_valid tree_readable_empty
      order_def outs_def]
  from fact memory_tree_nodes have d: "distinct (map item_path order)"
    "item_path ` set order = {[''a''], [''a'', ''b''], [''a'', ''b'', ''c'']}" by simp_all
  then have "length order = 3" using distinct_card [OF d(1)] by simp
  then have "length outs = 3" by (simp add: outs_def)
  moreover have "stored_at (map_cache 2) (w_store empty_world) [''a'', ''x''] = None"
    by (simp add: stored_at_def stored_tree_def node_val_def)
  moreover from fact [THEN conjunct2, THEN conjunct2] obtain w' where
    "fullTreeSet (map_cache 2) full_example memory_tree ([], empty_world) = (Inr (), outs, w')"
    "\<And>q. valid_path q \<Longrightarrow> tree_lookup memory_tree q = None \<Longrightarrow>
      stored_at (map_cache 2) (w_store w') q = stored_at (map_cache 2) (w_store empty_world) q" by blast
  ultimately show ?thesis using x by (intro exI [of _ outs] exI [of _ w']) simp
qed

section \<open>The state of the cache\<close>

text \<open>
  C5. The storage stays well formed: for a lawful cache whose registry of children is apart from its
  values, any sequence of \<open>setNode\<close>, \<open>deepTreeSet\<close>, \<open>fullTreeSet\<close>, \<open>prune\<close> and
  \<open>reprocessAllKeyLevelChildren\<close>, whatever the callers do with the steps and however the calls end,
  leads from a storage in which every stored tree can be deserialized to one in which every stored
  tree can be deserialized.
\<close>

theorem trees_stay_readable:
  assumes "maintained_cache c" "2 \<le> keyLevelNodes c" "trees_readable c (w_store w)" "reaches c w w'"
  shows "trees_readable c (w_store w')"
  using maintained_cache.reaches_readable [OF assms] .

theorem trees_stay_readable_witness:
  "trees_readable (map_cache 2) (w_store (perform (map_cache 2) (Prune None 9)
     (perform (map_cache 2) (FullTreeSet full_example memory_tree)
     (perform (map_cache 2) (SetNode [''a'', ''b'', ''x''] (Given (Some yes)) None 5) empty_world))))"
proof (rule trees_stay_readable [OF default_cache.maintained_cache_axioms, where w = empty_world])
  have "admissible (SetNode [''a'', ''b'', ''x''] (Given (Some yes)) None 5)"
    by (simp add: valid_path_def sep_free_def)
  moreover have "admissible (FullTreeSet full_example memory_tree)"
    using memory_tree_wf memory_tree_valid by simp
  ultimately show "reaches (map_cache 2) empty_world (perform (map_cache 2) (Prune None 9)
     (perform (map_cache 2) (FullTreeSet full_example memory_tree)
     (perform (map_cache 2) (SetNode [''a'', ''b'', ''x''] (Given (Some yes)) None 5) empty_world)))"
    by (intro reaches.intros) simp_all
qed (simp_all add: trees_readable_def)

section \<open>Reading\<close>

text \<open>
  C6. On a cache without memoizer and history \<open>getNode\<close> returns the step of the value the storage
  holds for the path: the entry of the chained key above \<open>keyLevelNodes\<close>, the live value inside
  the deserialized tree from there on, nothing for an absent or empty value. The storage stays as it is.
\<close>

theorem getNode_reads:
  assumes "plain_cache c" "path \<noteq> []" "0 < keyLevelNodes c"
  shows "\<exists>w'. getNode c path now w
     = (Inr (case raw_at c now (w_store w) path of None \<Rightarrow> None
         | Some r \<Rightarrow> if r = [] then None else Some (mountStep (node_ref path) (decode c r))), w')
     \<and> w_store w' = w_store w \<and> w_memo w' = w_memo w"
  using getNode_raw_at [OF assms] .

definition example_world :: "(mapState, unit) world" where
  "example_world = \<lparr>w_store = \<lparr>ms_map = [(''a'', ''true''), (''a:b'', ''true'')], ms_ttlMap = []\<rparr>,
     w_memo = (), w_events = []\<rparr>"

theorem getNode_reads_witness:
  "\<exists>w'. getNode (map_cache 4) [''a'', ''b''] 9 example_world
     = (Inr (Some (mountStep (node_ref [''a'', ''b'']) (decode (map_cache 4) ''true''))), w')"
  using getNode_reads [of "map_cache 4" "[''a'', ''b'']" 9 example_world]
  by (auto simp: raw_at_def example_world_def map_storage_def)

text \<open>
  C7. \<open>iteratePath\<close> on a cache without memoizer and history, with at least two key level nodes,
  yields exactly the prefixes of the path that have a value, shortest first, ends without an error
  and leaves the storage as it is.
\<close>

theorem iteratePath_yields:
  assumes "plain_cache c" "2 \<le> keyLevelNodes c" "path \<noteq> []"
  shows "\<exists>w'. iteratePath c path now w
     = ((concat (map (\<lambda>i. shown c now (w_store w) (take i path)) [1..<Suc (length path)]), None), w')
     \<and> w_store w' = w_store w \<and> w_memo w' = w_memo w"
  using iteratePath_result [OF assms] .

theorem iteratePath_yields_witness:
  "\<exists>w'. iteratePath (map_cache 4) [''a'', ''b'', ''x''] 9 example_world
     = (([mountStep (node_ref [''a'']) (decode (map_cache 4) ''true''),
          mountStep (node_ref [''a'', ''b'']) (decode (map_cache 4) ''true'')], None), w')"
  using iteratePath_yields [of "map_cache 4" "[''a'', ''b'', ''x'']" 9 example_world]
  by (auto simp: shown_def raw_at_def example_world_def map_storage_def)

section \<open>Pruning\<close>

text \<open>
  C8. \<open>prune\<close> never changes a reading: for a lawful cache, whichever keys the storage enumerates and
  even when a tree cannot be deserialized and \<open>prune\<close> stops with that error, every path reads the
  same value before and after it.
\<close>

theorem prune_keeps_readings:
  assumes "lawful_cache c" "2 \<le> keyLevelNodes c" "valid_path q"
  shows "raw_at c now (w_store (snd (prune c pattern now w))) q = raw_at c now (w_store w) q"
  using lawful_cache.pruneKeys_reading [OF assms(1,2)] assms(3)
  by (auto simp: prune_def same_reading_def split: option.splits)

text \<open>The in-memory storage of the tests, with the keys of the map as the random iteration.\<close>

definition iter_storage :: "mapState storage" where
  "iter_storage = map_storage\<lparr>st_randomIterate := Some (\<lambda>s pattern. map fst (ms_map s))\<rparr>"

definition iter_cache :: "nat \<Rightarrow> (jvalue, mapState, unit) cache" where
  "iter_cache n = (map_cache n)\<lparr>c_storage := iter_storage\<rparr>"

lemma iter_cache_lawful: "lawful_cache (iter_cache n)"
  using default_cache.lawful_cache_axioms [of n]
  by (auto simp: lawful_cache_def iter_cache_def iter_storage_def storage_laws_def map_storage_def)

lemma iter_cache_simps [simp]:
  "keyLevelNodes (iter_cache n) = n" "c_storage (iter_cache n) = iter_storage" "tser (iter_cache n) = defaultTreeSerializer"
  by (simp_all add: iter_cache_def)

lemma iter_cache_plain: "plain_cache (iter_cache n)"
  using map_cache_simps(5) [of n] by (simp add: iter_cache_def iter_storage_def plain_cache_def)

definition example_tree :: "rvalue tree" where
  "example_tree = Tree (Some ''1'') None (Some [(''x'', Some (Tree (Some ''2'') (Some 5) None)),
     (''y'', Some (Tree None None (Some [(''z'', Some (Tree (Some ''3'') (Some 50) None))])))])"

lemma example_tree_wf: "wf_tree example_tree"
  by (simp add: example_tree_def wf_tree.simps kids_def kids_of_def children_or_empty_def js_object_def
      key_before_def is_index_key_def is_digit_def)

lemma strip_example_tree: "strip example_tree = example_tree"
proof -
  have "strip (Tree v d ch) = Tree v d (map_option (\<lambda>_. map (\<lambda>(k, u). (k, Some (strip u))) (kids_of ch)) ch)"
    for v d and ch :: "(key \<times> rvalue tree option) list option"
    by (subst strip.simps) (simp add: kids_def)
  then show ?thesis by (simp add: example_tree_def kids_of_def children_or_empty_def)
qed

lemma example_tree_x: "tree_at 3 (strip example_tree) [''x''] = Some ''2''"
  unfolding tree_at_strip [OF example_tree_wf]
  by (simp add: example_tree_def tree_child_def getTreeCurrentSerializedValue_def)

definition tree_world :: "(mapState, unit) world" where
  "tree_world = \<lparr>w_store = \<lparr>ms_map = [(''a'', ''true''), (''a:b'', ts_serialize defaultTreeSerializer example_tree)],
     ms_ttlMap = []\<rparr>, w_memo = (), w_events = []\<rparr>"

theorem prune_keeps_readings_witness:
  "raw_at (iter_cache 2) 3 (w_store (snd (prune (iter_cache 2) None 3 tree_world))) [''a'', ''b'', ''x''] = Some ''2''"
  using prune_keeps_readings [of "iter_cache 2" "[''a'', ''b'', ''x'']" 3 None tree_world]
  by (simp add: iter_cache_lawful valid_path_def sep_free_def raw_at_def tree_world_def iter_storage_def map_storage_def
      default_serializer.tree_nonempty default_serializer.tree_roundtrip example_tree_wf example_tree_x
      del: tree_at_Cons)

text \<open>
  C9. After \<open>prune\<close> has returned, every tree under an enumerated key is clean: each node below its
  root has a live value or has a descendant with one, and a node without a live value, the root
  included, keeps neither a value nor a deadline. The root itself is not removed: an entry of the storage
  stays, with an empty tree where everything has expired.
\<close>

theorem prune_cleans:
  assumes "lawful_cache c" "2 \<le> keyLevelNodes c" "st_randomIterate (c_storage c) = Some iter"
    and "prune c pattern now w = (Inr (), w')" "k \<in> set (iter (w_store w) pattern)"
    and "length (splitKey k) = keyLevelNodes c"
  shows "clean_at c now w' k \<and> (store_get c w k \<noteq> None \<longrightarrow> store_get c w' k \<noteq> None)"
proof -
  have run: "pruneKeys c now (iter (w_store w) pattern) w = (Inr (), w')" using assms(3,4) by (simp add: prune_def)
  with lawful_cache.pruneKeys_clean [OF assms(1,2,6,5) run]
    lawful_cache.pruneKeys_keeps_entries [OF assms(1,2), of w k now "iter (w_store w) pattern"]
  show ?thesis by simp
qed

theorem prune_cleans_witness:
  "fst (prune (iter_cache 2) None 10 tree_world) = Inr ()
   \<and> clean_at (iter_cache 2) 10 (snd (prune (iter_cache 2) None 10 tree_world)) ''a:b''
   \<and> store_get (iter_cache 2) (snd (prune (iter_cache 2) None 10 tree_world)) ''a:b'' \<noteq> None"
proof -
  have "fst (prune (iter_cache 2) None 10 tree_world) = Inr ()"
    by (simp add: prune_def iter_storage_def map_storage_def tree_world_def getNodeRef_last_key
        getNodeRef_last_tree [OF _ _ refl] pruneOne_def pruneFilter_def default_serializer.tree_nonempty
        default_serializer.tree_roundtrip example_tree_wf)
  moreover from this
  have "prune (iter_cache 2) None 10 tree_world = (Inr (), snd (prune (iter_cache 2) None 10 tree_world))"
    by (metis prod.collapse)
  from prune_cleans [OF iter_cache_lawful _ _ this, of "\<lambda>s pattern. map fst (ms_map s)" "''a:b''"]
  have "clean_at (iter_cache 2) 10 (snd (prune (iter_cache 2) None 10 tree_world)) ''a:b''
      \<and> store_get (iter_cache 2) (snd (prune (iter_cache 2) None 10 tree_world)) ''a:b'' \<noteq> None"
    by (simp add: iter_storage_def map_storage_def tree_world_def)
  ultimately show ?thesis by simp
qed

text \<open>
  C10. \<open>randomIterate\<close> on a lawful cache without memoizer and history, whose storage enumerates keys
  as the cache writes them (values above \<open>keyLevelNodes\<close>, trees that can be deserialized at it),
  ends without an error and yields, key by key in the order of the storage, the step of the value of
  a key above the trees, and for the key of a tree the step of each of its nodes, breadth first from its
  root; each step carries the live value its path reads. The storage stays as it is.
\<close>

theorem randomIterate_yields:
  assumes "lawful_cache c" "plain_cache c" "st_randomIterate (c_storage c) = Some iter"
    and "\<And>k. k \<in> set (iter (w_store w) pattern) \<Longrightarrow> iterable c (w_store w) k"
  shows "\<exists>w'. randomIterate c pattern now w
      = ((concat (map (random_steps c now (w_store w)) (iter (w_store w) pattern)), None), w')
    \<and> w_store w' = w_store w"
  using lawful_cache.randomIterate_result [OF assms] .

lemma example_tree_paths:
  "map item_path (fst (treePreOrderBreadthFirstSearch example_tree (Some (node_ref [''a'', ''b''])) 3))
   = [[''a'', ''b''], [''a'', ''b'', ''x''], [''a'', ''b'', ''y''], [''a'', ''b'', ''y'', ''z'']]"
  by code_simp

theorem randomIterate_yields_witness:
  "\<exists>w'. randomIterate (iter_cache 2) None 3 tree_world
      = ((map (path_step (iter_cache 2) 3 (w_store tree_world)) [[''a''], [''a'', ''b''], [''a'', ''b'', ''x''],
          [''a'', ''b'', ''y''], [''a'', ''b'', ''y'', ''z'']], None), w')"
proof -
  let ?c = "iter_cache 2" and ?s = "w_store tree_world"
  let ?iter = "\<lambda>s (pattern :: string option). map fst (ms_map s)"
  have split: "splitKey ''a'' = [''a'']" "splitKey ''a:b'' = [''a'', ''b'']" by code_simp+
  have get: "st_get iter_storage ?s ''a:b'' = Some (ts_serialize defaultTreeSerializer example_tree)"
    by (simp add: tree_world_def iter_storage_def map_storage_def)
  have t: "ts_deserialize defaultTreeSerializer (ts_serialize defaultTreeSerializer example_tree) = Inr example_tree"
    using default_serializer.tree_roundtrip [OF example_tree_wf] by (simp add: strip_example_tree)
  then have tree: "stored_tree ?c ?s [''a'', ''b''] = example_tree"
    using get default_serializer.tree_nonempty [of example_tree] by (simp add: stored_tree_def)
  have ks: "map fst (ms_map ?s) = [''a'', ''a:b'']" by (simp add: tree_world_def)
  have it: "iterable ?c ?s k" if "k \<in> set (?iter ?s None)" for k
    using that t get default_serializer.tree_nonempty [of example_tree] unfolding ks by (auto simp: iterable_def split)
  have i: "st_randomIterate (c_storage ?c) = Some ?iter" by (simp add: iter_storage_def)
  from randomIterate_yields [OF iter_cache_lawful iter_cache_plain i it, where now = 3] obtain w'
    where "randomIterate ?c None 3 tree_world = ((concat (map (random_steps ?c 3 ?s) (?iter ?s None)), None), w')"
    by blast
  moreover have "random_steps ?c 3 ?s ''a'' = [path_step ?c 3 ?s [''a'']]"
    by (simp add: random_steps_def split)
  moreover have "random_steps ?c 3 ?s ''a:b'' = map (path_step ?c 3 ?s) (map item_path
      (fst (treePreOrderBreadthFirstSearch example_tree (Some (node_ref [''a'', ''b''])) 3)))"
    by (simp add: random_steps_def split tree)
  ultimately show ?thesis unfolding example_tree_paths ks by simp
qed

text \<open>
  C11. \<open>pruneTree\<close>, a loop over the post order that mutates the tree and keeps per level a map of the
  keys visited, computes the recursive function \<open>prune_ref\<close>, and reports a change exactly when some
  node has no live value.
\<close>

theorem pruneTree_reference:
  assumes "wf_tree t"
  shows "pruneTree t (Some p) now = (has_unset now t, prune_ref now t)"
  using pruneTree_ref [OF assms] .

theorem pruneTree_reference_witness:
  "pruneTree example_tree (Some (node_ref [''a'', ''b''])) 10 = (True, prune_ref 10 example_tree)"
  using pruneTree_reference [OF example_tree_wf, of "node_ref [''a'', ''b'']" 10]
  by (simp add: example_tree_def has_unset.simps kids_def kids_of_def getTreeCurrentSerializedValue_def)

section \<open>The semaphore\<close>

text \<open>
  C12. Whatever the caller of \<open>deepTreeSet\<close> does, whatever is stored and whatever is thrown, each
  \<open>acquire\<close> is followed by the release of the same key before the next \<open>acquire\<close> and before the
  generator ends.
\<close>

theorem deepTreeSet_semaphore:
  "\<exists>es. w_events (snd (snd (deepTreeSet c a previousKeys (out, w)))) = w_events w @ es \<and> sem_ok None es"
  using sem_deepTreeSet [of "(out, w)" c a previousKeys] by (simp add: gen_rel_def logs_def)

text \<open>
  C13. \<open>fullTreeSet\<close> uses the semaphore in the same way: each \<open>acquire\<close> is followed by the release of
  the same key before the next one and before the generator ends, for every caller.
\<close>

theorem fullTreeSet_semaphore:
  "\<exists>es. w_events (snd (snd (fullTreeSet c a tree (out, w)))) = w_events w @ es \<and> sem_ok None es"
  using sem_fullTreeSet [of "(out, w)" c a tree] by (simp add: gen_rel_def logs_def)

text \<open>
  C14. The callbacks of \<open>prune\<close>, which \<open>waitAll\<close> lets overlap in any way with each other and with the
  enumeration of the keys, use the semaphore as follows, where each key is enumerated once: under each key
  there is at most one \<open>acquire\<close> and after it at most one release, at any time. When all is done, exactly
  the keys of the enumerated trees with something to prune have been acquired; those whose write the
  storage has not rejected are released, and those whose write it has rejected stay acquired for ever.
\<close>

theorem prune_semaphore:
  assumes "lawful_cache c" "2 \<le> keyLevelNodes c" "st_randomIterate (c_storage c) = Some iter"
    and "keys = iter (w_store w) pattern" "distinct keys" "(prune_step c now rejects)\<^sup>*\<^sup>* (start_prune keys w) P"
  shows "\<exists>es. w_events (pr_world P) = w_events w @ es \<and> (\<forall>k. prefix (own_events k es) [Acquire k, ScheduleRelease k])
    \<and> (pruned P \<longrightarrow> (\<forall>k. own_events k es = (if due c now w (takeWhile (passes c now w) keys) k = None then []
         else if rejects k then [Acquire k] else [Acquire k, ScheduleRelease k])))"
  using lawful_cache.prune_run_semaphore(1) [OF assms(1,6,2,5) refl] .

text \<open>Two trees that are pruned at the same time: both keys have been acquired, none has been released.\<close>

definition two_trees :: "(mapState, unit) world" where
  "two_trees = \<lparr>w_store = \<lparr>ms_map = [(''a:b'', ts_serialize defaultTreeSerializer example_tree),
     (''a:c'', ts_serialize defaultTreeSerializer example_tree)], ms_ttlMap = []\<rparr>, w_memo = (), w_events = []\<rparr>"

definition overlapping :: "(mapState, unit) pruning" where
  "overlapping = \<lparr>pr_keys = [], pr_callbacks = [ReadingTtl ''a:b'' (prune_ref 10 example_tree), ReadingTtl ''a:c'' (prune_ref 10 example_tree)],
     pr_failed = False, pr_world = emit (Acquire ''a:c'') (emit (Acquire ''a:b'') two_trees)\<rparr>"

lemma example_tree_read: "ts_deserialize defaultTreeSerializer (ts_serialize defaultTreeSerializer example_tree) = Inr example_tree"
  using default_serializer.tree_roundtrip [OF example_tree_wf] by (simp add: strip_example_tree)

lemma example_tree_unset: "has_unset 10 example_tree"
  by (simp add: example_tree_def has_unset.simps kids_def kids_of_def getTreeCurrentSerializedValue_def)

lemma two_trees_get:
  "store_get (iter_cache 2) two_trees ''a:b'' = Some (ts_serialize defaultTreeSerializer example_tree)"
  "store_get (iter_cache 2) two_trees ''a:c'' = Some (ts_serialize defaultTreeSerializer example_tree)"
  by (simp_all add: two_trees_def iter_storage_def map_storage_def)

lemma two_trees_keys: "splitKey ''a:b'' = [''a'', ''b'']" "splitKey ''a:c'' = [''a'', ''c'']"
  by code_simp+

lemma two_trees_task:
  assumes "k = ''a:b'' \<or> k = ''a:c''"
  shows "prune_task (iter_cache 2) 10 two_trees k = Some (k, prune_ref 10 example_tree)" "passes (iter_cache 2) 10 two_trees k"
  using assms two_trees_get default_serializer.tree_nonempty [of example_tree]
  by (auto simp: lawful_cache.prune_task_eq [OF iter_cache_lawful] lawful_cache.passes_eq [OF iter_cache_lawful _ refl]
      two_trees_keys example_tree_read example_tree_unset join_splitKey simp del: iter_cache_simps(2))

lemma overlapping_run: "(prune_step (iter_cache 2) 10 rejects)\<^sup>*\<^sup>* (start_prune [''a:b'', ''a:c''] two_trees) overlapping"
proof -
  let ?R = "prune_step (iter_cache 2) 10 rejects" and ?t = "prune_ref 10 example_tree"
  let ?P = "\<lambda>ks cbs w. \<lparr>pr_keys = ks, pr_callbacks = cbs, pr_failed = False, pr_world = w\<rparr>"
  note start = lawful_cache.prune_step_task [OF iter_cache_lawful _ two_trees_task(1)]
  have "?R\<^sup>*\<^sup>* (?P [''a:b'', ''a:c''] [] two_trees) (?P [''a:c''] [Acquiring ''a:b'' ?t] two_trees)"
    using start [where k = "''a:b''" and rejects = rejects and ks = "[''a:c'']" and cbs = "[]" and f = False]
    by (simp add: r_into_rtranclp)
  also have "?R \<dots> (?P [] [Acquiring ''a:b'' ?t, Acquiring ''a:c'' ?t] two_trees)"
    using start [where k = "''a:c''" and rejects = rejects and ks = "[]" and cbs = "[Acquiring ''a:b'' ?t]" and f = False] by simp
  also have "?R \<dots> (?P [] [ReadingTtl ''a:b'' ?t, Acquiring ''a:c'' ?t] (emit (Acquire ''a:b'') two_trees))"
    using prune_step.acquires [of "iter_cache 2" 10 rejects "[]" "[]" "''a:b''" ?t] by simp
  also have "?R \<dots> overlapping"
    using prune_step.acquires [of "iter_cache 2" 10 rejects "[]" "[ReadingTtl ''a:b'' ?t]" "''a:c''" ?t "[]"]
    by (simp add: overlapping_def)
  finally show ?thesis by (simp add: start_prune_def)
qed

lemma two_trees_passing: "takeWhile (passes (iter_cache 2) 10 two_trees) [''a:b'', ''a:c''] = [''a:b'', ''a:c'']"
  using two_trees_task(2) by simp

lemma two_trees_iter:
  "st_randomIterate (c_storage (iter_cache 2)) = Some (\<lambda>s pattern. map fst (ms_map s))"
  "[''a:b'', ''a:c''] = map fst (ms_map (w_store two_trees))"
  by (simp_all add: iter_storage_def two_trees_def)

theorem prune_semaphore_witness:
  "\<exists>P. (prune_step (iter_cache 2) 10 (\<lambda>k. k = ''a:c''))\<^sup>*\<^sup>* overlapping P \<and> pruned P
    \<and> own_events ''a:b'' (w_events (pr_world P)) = [Acquire ''a:b'', ScheduleRelease ''a:b'']
    \<and> own_events ''a:c'' (w_events (pr_world P)) = [Acquire ''a:c'']"
proof -
  let ?R = "prune_step (iter_cache 2) 10 (\<lambda>k. k = ''a:c'')"
  obtain P where P: "?R\<^sup>*\<^sup>* overlapping P" "pruned P" using prune_completes by blast
  have "?R\<^sup>*\<^sup>* (start_prune [''a:b'', ''a:c''] two_trees) P" using overlapping_run P(1) by (rule rtranclp_trans)
  from prune_semaphore [OF iter_cache_lawful _ two_trees_iter _ this] P(2)
  have "own_events k (w_events (pr_world P)) = (if due (iter_cache 2) 10 two_trees [''a:b'', ''a:c''] k = None then []
      else if k = ''a:c'' then [Acquire k] else [Acquire k, ScheduleRelease k])" for k
    unfolding two_trees_passing by (auto simp: two_trees_def)
  with P show ?thesis by (intro exI [of _ P]) (simp add: due_def two_trees_task)
qed

text \<open>
  C15. The overlapping of the callbacks does not matter: where each key is enumerated once and the storage
  does not reject, \<open>prune\<close> can always be completed and cannot run for ever, and every interleaving leaves under
  every key what \<open>prune\<close> leaves that takes the keys in turn, and fails exactly when that fails.
\<close>

theorem prune_interleavings:
  assumes "lawful_cache c" "2 \<le> keyLevelNodes c" "st_randomIterate (c_storage c) = Some iter"
    and "keys = iter (w_store w) pattern" "distinct keys" "(prune_step c now (\<lambda>_. False))\<^sup>*\<^sup>* (start_prune keys w) P"
  shows "(\<exists>P'. (prune_step c now (\<lambda>_. False))\<^sup>*\<^sup>* P P' \<and> pruned P')
    \<and> (\<nexists>f. \<forall>n. prune_step c now (\<lambda>_. False) (f n) (f (Suc n)))
    \<and> (pruned P \<longrightarrow> (\<forall>k. store_get c (pr_world P) k = store_get c (snd (prune c pattern now w)) k)
         \<and> pr_failed P = isl (fst (prune c pattern now w)))"
proof -
  have "prune c pattern now w = pruneKeys c now keys w" using assms(3,4) by (simp add: prune_def)
  with lawful_cache.prune_runs_agree [OF assms(1,6,2,5)] show ?thesis
    by (intro conjI impI allI prune_completes no_infinite_prune) simp_all
qed

theorem prune_interleavings_witness:
  "\<exists>P. (prune_step (iter_cache 2) 10 (\<lambda>_. False))\<^sup>*\<^sup>* overlapping P \<and> pruned P
    \<and> (\<forall>k. store_get (iter_cache 2) (pr_world P) k = store_get (iter_cache 2) (snd (prune (iter_cache 2) None 10 two_trees)) k)"
proof -
  let ?R = "prune_step (iter_cache 2) 10 (\<lambda>_. False)"
  note run = overlapping_run [of "\<lambda>_. False"]
  obtain P where P: "?R\<^sup>*\<^sup>* overlapping P" "pruned P" using prune_completes by blast
  from prune_interleavings [OF iter_cache_lawful _ two_trees_iter _ rtranclp_trans [OF run P(1)], of None] P show ?thesis
    by auto
qed

text \<open>
  C16. \<open>setNode\<close> calls the semaphore only for paths that end at the root of a stored tree: for every
  other length of the path, deeper nodes of a stored tree included, it neither acquires nor releases.
\<close>

theorem setNode_semaphore_only_at_tree_roots:
  assumes "length path \<noteq> keyLevelNodes c"
  shows "\<exists>es. w_events (snd (setNode c path value ttl now w)) = w_events w @ es
    \<and> (\<forall>k. Acquire k \<notin> set es \<and> ScheduleRelease k \<notin> set es)"
  using setNode_unguarded [OF assms, of w "value" ttl now] by (force simp: logs_def list_all_iff)

theorem setNode_semaphore_only_at_tree_roots_witness:
  "\<exists>es. w_events (snd (setNode (map_cache 2) [''a'', ''b'', ''c''] (Given (Some yes)) None 7 empty_world)) = es
    \<and> (\<forall>k. Acquire k \<notin> set es \<and> ScheduleRelease k \<notin> set es)"
  using setNode_semaphore_only_at_tree_roots [of "[''a'', ''b'', ''c'']" "map_cache 2" "Given (Some yes)" None 7 empty_world]
  by simp

text \<open>
  C17. Concurrent operations always complete. Any number of callers run \<open>setNode\<close>, \<open>deepTreeSet\<close>,
  \<open>fullTreeSet\<close>, \<open>prune\<close> (whose callbacks run as callers of their own) or \<open>reprocessAllKeyLevelChildren\<close>, each
  from any state of the cache, and their uses of the semaphore interleave in any way with each other and with the releases that \<open>dontWait\<close> has put off,
  which may reject. For a semaphore whose \<open>acquire\<close> waits only for held keys and whose release frees its
  key there is no infinite execution, and from every state of an execution all callers can be completed
  and all keys freed; a state without a next step is such a state.
\<close>

theorem callers_complete:
  assumes "semaphore_laws S held" "held s = {}" "(loop_step S)\<^sup>*\<^sup>* (start_loop c jobs s) L"
  shows "(\<nexists>f. \<forall>n. loop_step S (f n) (f (Suc n)))
    \<and> (\<exists>L'. (loop_step S)\<^sup>*\<^sup>* L L' \<and> all_done L' \<and> held (lp_semaphore L') = {})
    \<and> ((\<nexists>L'. loop_step S L L') \<longrightarrow> all_done L \<and> held (lp_semaphore L) = {})"
proof (intro conjI impI)
  show "\<nexists>f. \<forall>n. loop_step S (f n) (f (Suc n))" by (rule no_infinite_run)
  show ends: "\<exists>L'. (loop_step S)\<^sup>*\<^sup>* L L' \<and> all_done L' \<and> held (lp_semaphore L') = {}"
    by (rule semaphore_laws.run_completes [OF assms])
  assume "\<nexists>L'. loop_step S L L'"
  with ends show "all_done L" "held (lp_semaphore L) = {}" by (metis converse_rtranclpE)+
qed

text \<open>Two callers that set the root of the same tree.\<close>

definition root_job :: "jvalue operation \<times> (mapState, unit) world" where
  "root_job = (SetNode [''a'', ''b''] (Given (Some yes)) None 5, empty_world)"

lemma root_job_log: "operation_log (map_cache 2) root_job = [Acquire ''a:b'', ScheduleRelease ''a:b'']"
  by code_simp

lemma root_job_start:
  "start_loop (map_cache 2) [root_job, root_job] s = \<lparr>lp_callers = [(None, [Acquire ''a:b'', ScheduleRelease ''a:b'']),
     (None, [Acquire ''a:b'', ScheduleRelease ''a:b''])], lp_immediates = [], lp_semaphore = s\<rparr>"
  using root_job_log by (simp add: start_loop_def caller_logs_def root_job_def)

text \<open>The state after the first of them has been granted the key: the second one has to wait.\<close>

definition granted_loop :: "key set loop" where
  "granted_loop = \<lparr>lp_callers = [(Some ''a:b'', [ScheduleRelease ''a:b'']),
     (None, [Acquire ''a:b'', ScheduleRelease ''a:b''])], lp_immediates = [], lp_semaphore = {''a:b''}\<rparr>"

lemma granted_loop_step:
  "(loop_step keySemaphore)\<^sup>*\<^sup>* (start_loop (map_cache 2) [root_job, root_job] {}) granted_loop"
proof (rule r_into_rtranclp)
  show "loop_step keySemaphore (start_loop (map_cache 2) [root_job, root_job] {}) granted_loop"
    using loop_step.acquire [of 0 "lp_callers (start_loop (map_cache 2) [root_job, root_job] {})" None "''a:b''"
        "[ScheduleRelease ''a:b'']" keySemaphore "{}" "{''a:b''}" "[]"]
    by (simp add: root_job_start granted_loop_def keySemaphore_def)
qed

theorem callers_complete_witness:
  "\<exists>L'. (loop_step keySemaphore)\<^sup>*\<^sup>* granted_loop L' \<and> all_done L' \<and> lp_semaphore L' = {}"
  using callers_complete [OF key_semaphore.semaphore_laws_axioms _ granted_loop_step] by simp






text \<open>
  C19. \<open>setNode\<close> below the root of a tree, which does not use the semaphore, loses what other callers write
  to that tree meanwhile: whatever they do between its read of the tree and its write, it returns
  without an error, and every node of the tree has the value it had when \<open>setNode\<close> started, except
  the node that \<open>setNode\<close> has given a new value.
\<close>

theorem setNode_loses_concurrent_writes:
  assumes "lawful_cache c" "valid_path path" "2 \<le> keyLevelNodes c" "keyLevelNodes c < length path" "ttl_ok ttl"
    and "tree_readable c (w_store w) path" "given_value value = Some v" "node_value c now (w_store w) path \<noteq> Some v"
  shows "\<exists>w'. setNode_interrupted others c path value ttl now w = (Inr (), w')
    \<and> (\<forall>q. valid_path q \<and> take (keyLevelNodes c) q = take (keyLevelNodes c) path \<longrightarrow>
        node_value c now (w_store w') q = ((node_value c now (w_store w))(path := Some v)) q)"
  using lawful_cache.setNode_interrupted_result [OF assms(1-3) less_imp_le [OF assms(4)] assms(5-8)] .

theorem setNode_loses_concurrent_writes_witness:
  "fst (setNode (map_cache 2) [''a'', ''b'', ''y''] (Given (Some yes)) None 5 empty_world) = Inr ()
    \<and> (\<exists>w'. setNode_interrupted (\<lambda>w. snd (setNode (map_cache 2) [''a'', ''b'', ''y''] (Given (Some yes)) None 5 w))
        (map_cache 2) [''a'', ''b'', ''x''] (Given (Some yes)) None 5 empty_world = (Inr (), w')
      \<and> node_value (map_cache 2) 5 (w_store w') [''a'', ''b'', ''x''] = Some yes
      \<and> node_value (map_cache 2) 5 (w_store w') [''a'', ''b'', ''y''] = None)"
proof -
  have valid: "valid_path [''a'', ''b'', ''x'']" "valid_path [''a'', ''b'', ''y'']" by (simp_all add: valid_path_def sep_free_def)
  have empty: "node_value (map_cache 2) 5 (w_store empty_world) q = None" for q
    by (simp add: node_value_def raw_at_def)
  have "fst (setNode (map_cache 2) [''a'', ''b'', ''y''] (Given (Some yes)) None 5 empty_world) = Inr ()"
    using default_cache.setNode_result [where n = 2, OF valid(2), of None empty_world "Given (Some yes)" yes 5]
    by (auto simp: given_value_def)
  moreover have "\<exists>w'. setNode_interrupted (\<lambda>w. snd (setNode (map_cache 2) [''a'', ''b'', ''y''] (Given (Some yes)) None 5 w))
        (map_cache 2) [''a'', ''b'', ''x''] (Given (Some yes)) None 5 empty_world = (Inr (), w')
      \<and> (\<forall>q. valid_path q \<and> take (keyLevelNodes (map_cache 2)) q = take (keyLevelNodes (map_cache 2)) [''a'', ''b'', ''x''] \<longrightarrow>
        node_value (map_cache 2) 5 (w_store w') q
          = ((node_value (map_cache 2) 5 (w_store empty_world))([''a'', ''b'', ''x''] := Some yes)) q)"
    by (rule setNode_loses_concurrent_writes)
      (simp_all add: default_cache.lawful_cache_axioms valid empty given_value_def)
  ultimately show ?thesis using valid by (auto simp: empty)
qed

section \<open>Traversals\<close>

text \<open>
  C20. \<open>treePreOrderBreadthFirstSearch\<close>, run on the linked queue, ends without an error, yields each
  node that can be reached from the tree exactly once with its path and its subtree (the start node
  included where one is given), and yields them level by level.
\<close>

theorem breadth_first_search_correct:
  assumes "wf_tree t"
  shows "snd (treePreOrderBreadthFirstSearch t p now) = None
    \<and> set (map item_node (fst (treePreOrderBreadthFirstSearch t p now)))
        = {(opt_path p @ q, u) | q u. (q \<noteq> [] \<or> p \<noteq> None) \<and> tree_lookup t q = Some u}
    \<and> distinct (map (chain_path \<circ> item_ref) (fst (treePreOrderBreadthFirstSearch t p now)))
    \<and> sorted (map it_level (fst (treePreOrderBreadthFirstSearch t p now)))"
  using visited_paths [OF assms bfs_visits] bfs_order_sorted [of t p now] by (simp add: bfs_order)

theorem breadth_first_search_correct_witness:
  "snd (treePreOrderBreadthFirstSearch example_tree None 10) = None
    \<and> set (map item_node (fst (treePreOrderBreadthFirstSearch example_tree None 10)))
        = {(opt_path None @ q, u) | q u. (q \<noteq> [] \<or> None \<noteq> (None :: chained option)) \<and> tree_lookup example_tree q = Some u}
    \<and> distinct (map (chain_path \<circ> item_ref) (fst (treePreOrderBreadthFirstSearch example_tree None 10)))
    \<and> sorted (map it_level (fst (treePreOrderBreadthFirstSearch example_tree None 10)))"
  by (rule breadth_first_search_correct [OF example_tree_wf])

text \<open>
  C21. \<open>treePreOrderDepthFirstSearch\<close>, run on an array, ends without an error, yields each reachable
  node exactly once, and never yields a node before one of its ancestors.
\<close>

theorem depth_first_search_correct:
  assumes "wf_tree t"
  shows "snd (treePreOrderDepthFirstSearch t p now) = None
    \<and> set (map item_node (fst (treePreOrderDepthFirstSearch t p now)))
        = {(opt_path p @ q, u) | q u. (q \<noteq> [] \<or> p \<noteq> None) \<and> tree_lookup t q = Some u}
    \<and> distinct (map (chain_path \<circ> item_ref) (fst (treePreOrderDepthFirstSearch t p now)))
    \<and> sorted_wrt (\<lambda>i j. \<not> below j i) (fst (treePreOrderDepthFirstSearch t p now))"
  using visited_paths [OF assms dfs_visits] dfs_order_sorted [OF assms, of p now] by (simp add: dfs_order)

theorem depth_first_search_correct_witness:
  "snd (treePreOrderDepthFirstSearch example_tree None 10) = None
    \<and> set (map item_node (fst (treePreOrderDepthFirstSearch example_tree None 10)))
        = {(opt_path None @ q, u) | q u. (q \<noteq> [] \<or> None \<noteq> (None :: chained option)) \<and> tree_lookup example_tree q = Some u}
    \<and> distinct (map (chain_path \<circ> item_ref) (fst (treePreOrderDepthFirstSearch example_tree None 10)))
    \<and> sorted_wrt (\<lambda>i j. \<not> below j i) (fst (treePreOrderDepthFirstSearch example_tree None 10))"
  by (rule depth_first_search_correct [OF example_tree_wf])

text \<open>
  C22. \<open>treePostOrderTraversal\<close>, with any list structure, yields each reachable node exactly once and
  never yields a node before one of its descendants.
\<close>

theorem post_order_correct:
  assumes "wf_tree t"
  shows "set (map item_node (treePostOrderTraversal push t list p now))
        = {(opt_path p @ q, u) | q u. (q \<noteq> [] \<or> p \<noteq> None) \<and> tree_lookup t q = Some u}
    \<and> distinct (map (chain_path \<circ> item_ref) (treePostOrderTraversal push t list p now))
    \<and> sorted_wrt (\<lambda>i j. \<not> below i j) (treePostOrderTraversal push t list p now)"
  by (intro conjI visited_paths [OF assms post_visits] post_order_sorted [OF assms])

theorem post_order_correct_witness:
  "set (map item_node (treePostOrderTraversal array_push example_tree [] None 10))
        = {(opt_path None @ q, u) | q u. (q \<noteq> [] \<or> None \<noteq> (None :: chained option)) \<and> tree_lookup example_tree q = Some u}
    \<and> distinct (map (chain_path \<circ> item_ref) (treePostOrderTraversal array_push example_tree [] None 10))
    \<and> sorted_wrt (\<lambda>i j. \<not> below i j) (treePostOrderTraversal array_push example_tree [] None 10)"
  by (rule post_order_correct [OF example_tree_wf])

text \<open>
  C23. The post-order breadth-first search yields the same sequence as the post-order depth-first
  search: the list structure that should tell them apart is written and never read.
\<close>

theorem post_order_searches_agree:
  "treePostOrderBreadthFirstSearch t p now = treePostOrderDepthFirstSearch t p now"
  by (simp add: treePostOrderBreadthFirstSearch_def treePostOrderDepthFirstSearch_def post_order)

text \<open>
  C24. The linked \<open>Queue\<close> implements a first-in first-out list: in any state reached from the empty
  queue by pushes and pops, \<open>push\<close> appends to the contents, \<open>pop\<close> returns and removes the first
  element, \<open>peek\<close> returns it, and \<open>length\<close> counts the contents.
\<close>

theorem queue_is_fifo:
  assumes "queue_invar q"
  shows "queue_invar (queue_push v q) \<and> queue_contents (queue_push v q) = queue_contents q @ [v]
    \<and> queue_invar (snd (queue_pop q))
    \<and> queue_pop q = (case queue_contents q of [] \<Rightarrow> (None, q) | x # _ \<Rightarrow> (Some x, snd (queue_pop q)))
    \<and> queue_contents (snd (queue_pop q)) = tl (queue_contents q)
    \<and> queue_peek q = (case queue_contents q of [] \<Rightarrow> None | x # _ \<Rightarrow> Some x)
    \<and> q_size q = length (queue_contents q)"
  using queue_push_refines [OF assms, of v] queue_pop_empty [OF assms] queue_pop_refines [OF assms]
    queue_peek_contents [OF assms] queue_list.length_contents [OF assms] assms
  by (cases "queue_contents q") (auto simp: queue_ops_def)

theorem queue_is_fifo_witness:
  "queue_contents (snd (queue_pop (queue_push (8::nat) (queue_push 7 queue_new)))) = [8]"
proof -
  have i: "queue_invar (queue_new :: nat queue)" "queue_contents (queue_new :: nat queue) = []"
    using queue_list.invar_new queue_list.contents_new by auto
  have one: "queue_invar (queue_push (7::nat) queue_new)" "queue_contents (queue_push (7::nat) queue_new) = [7]"
    using queue_is_fifo [OF i(1), of 7] i(2) by auto
  have two: "queue_invar (queue_push (8::nat) (queue_push 7 queue_new))"
    "queue_contents (queue_push (8::nat) (queue_push 7 queue_new)) = [7, 8]"
    using queue_is_fifo [OF one(1), of 8] one(2) by auto
  show ?thesis using queue_is_fifo [OF two(1), of 0] two(2) by simp
qed

section \<open>Keys\<close>

text \<open>
  C25. \<open>splitKey\<close> inverts \<open>buildKey\<close>: for keys without the separator the chained key of a node
  reference splits into the keys of its path, and any key is joined again from its parts.
\<close>

theorem splitKey_buildKey:
  assumes "list_all sep_free (chain_path nodeRef)"
  shows "splitKey (buildKey nodeRef) = chain_path nodeRef \<and> buildKeyList (splitKey s) = s"
  using assms by (simp add: buildKey_eq splitKey_join buildKeyList_def join_splitKey)

theorem splitKey_buildKey_witness:
  "splitKey (buildKey (node_ref [''a'', ''b''])) = [''a'', ''b''] \<and> buildKeyList (splitKey ''a::b'') = ''a::b''"
  using splitKey_buildKey [of "node_ref [''a'', ''b'']" "''a::b''"] by (simp add: sep_free_def)

text \<open>
  C26. The chained key \<open>deepTreeSet\<close> extends level by level with \<open>getChainedKey\<close> is the one the
  readers build from the node reference, when the first key of the path is not empty.
\<close>

theorem getChainedKey_agrees:
  assumes "l < length path" "hd path \<noteq> []"
  shows "getChainedKey path l (if l = 0 then None else Some (buildKey (node_ref (take l path))))
    = Inr (buildKey (node_ref (take (Suc l) path)), path ! l)"
proof -
  have "buildKey (node_ref (take (Suc l) path)) = join (take (Suc l) path)"
    using assms(1) by (intro buildKey_node_ref) auto
  moreover have "0 < l \<Longrightarrow> buildKey (node_ref (take l path)) = join (take l path)"
    using assms(1) by (intro buildKey_node_ref) auto
  ultimately show ?thesis using getChainedKey_next [OF assms] by (cases "l = 0") auto
qed

theorem getChainedKey_agrees_witness:
  "getChainedKey [''a'', ''b''] 1 (Some ''a'') = Inr (''a:b'', ''b'')"
  using getChainedKey_agrees [of 1 "[''a'', ''b'']"] by (simp add: buildKey_eq)

section \<open>The default serializers\<close>

text \<open>
  C27. A tree written with the default tree serializer is read back without its undefined children,
  so every path reads the same value from it.
\<close>

theorem tree_serializer_roundtrip:
  assumes "wf_tree t"
  shows "\<exists>t'. ts_deserialize defaultTreeSerializer (ts_serialize defaultTreeSerializer t) = Inr t'
    \<and> wf_tree t' \<and> (\<forall>now q. tree_at now t' q = tree_at now t q)"
  using default_serializer.tree_roundtrip [OF assms] default_serializer.tree_wf tree_at_strip [OF assms] by metis

theorem tree_serializer_roundtrip_witness:
  "\<exists>t'. ts_deserialize defaultTreeSerializer (ts_serialize defaultTreeSerializer example_tree) = Inr t'
    \<and> wf_tree t' \<and> (\<forall>now q. tree_at now t' q = tree_at now example_tree q)"
  by (rule tree_serializer_roundtrip [OF example_tree_wf])

section \<open>Errors, registration and memoization\<close>

text \<open>
  C28. With \<open>keyLevelNodes\<close> 1 or 0 there is no key level above the stored trees and \<open>setNode\<close>
  always fails with \<open>Non consistent storage\<close>, without touching the storage.
\<close>

theorem setNode_without_key_level:
  assumes "keyLevelNodes c \<le> 1" "path \<noteq> []" "value \<noteq> Given None"
  shows "setNode c path value ttl now w = (Inl NonConsistentStorage, w)"
  using setNode_no_keys [OF assms] .

theorem setNode_without_key_level_witness:
  "setNode (map_cache 1) [''a''] (Given (Some yes)) None 7 empty_world = (Inl NonConsistentStorage, empty_world)"
  by (rule setNode_without_key_level) simp_all

text \<open>
  C29. \<open>deepTreeSet\<close> on a storage with \<open>registerChild\<close> registers, level by level, each of the first
  \<open>keyLevelNodes - 1\<close> keys of the path under the chained key of the keys before it: all of them when it
  runs to its end, the first few when its caller leaves the loop or something is thrown, and never
  another pair. So the key that leads to the stored tree is never registered with its parent.
\<close>

theorem deepTreeSet_registers_above_trees:
  assumes "hd (a_path a) \<noteq> []" "st_registerChild (c_storage c) \<noteq> None"
  shows "\<exists>es n. w_events (snd (snd (deepTreeSet c a [] (out, w)))) = w_events w @ es
    \<and> registered es = take n (path_pairs (take (keyLevelNodes c - 1) (a_path a)))
    \<and> (fst (deepTreeSet c a [] (out, w)) = Inr () \<longrightarrow> registered es = path_pairs (take (keyLevelNodes c - 1) (a_path a)))"
proof -
  obtain r g' where run: "deepTreeSet c a [] (out, w) = (r, g')" by (rule prod.exhaust)
  from deepTreeSet_registers [OF assms run] show ?thesis by (auto simp: run)
qed

text \<open>A storage that registers children, with three key levels.\<close>

definition registering_cache :: "(jvalue, mapState, unit) cache" where
  "registering_cache = (iter_cache 3)\<lparr>c_storage := iter_storage\<lparr>st_registerChild := Some (\<lambda>p k s. s)\<rparr>\<rparr>"

lemma registering_cache_lawful: "lawful_cache registering_cache"
  using iter_cache_lawful [of 3]
  by (auto simp: lawful_cache_def registering_cache_def storage_laws_def iter_storage_def)

lemma registering_cache_returns: "fst (deepTreeSet registering_cache example_args [] ([], empty_world)) = Inr ()"
proof -
  have p: "resuming example_args" "ttl_ok (a_ttl example_args)" "valid_path (a_path example_args)"
    by (simp_all add: example_args_def resuming_def valid_path_def sep_free_def)
  have c: "2 \<le> keyLevelNodes registering_cache" "tree_readable registering_cache (w_store empty_world) (a_path example_args)"
    by (simp_all add: registering_cache_def iter_cache_def tree_readable_def iter_storage_def map_storage_def empty_world_def)
  from lawful_cache.deepTreeSet_result [OF registering_cache_lawful p c refl] show ?thesis by auto
qed

theorem deepTreeSet_registers_above_trees_witness:
  "registered (w_events (snd (snd (deepTreeSet registering_cache example_args [] ([], empty_world)))))
    = [(None, ''a''), (Some ''a'', ''b'')]"
  using deepTreeSet_registers_above_trees [of example_args registering_cache "[]" empty_world] registering_cache_returns
  by (auto simp: example_args_def registering_cache_def path_pairs_def)

text \<open>
  C30. \<open>reprocessAllKeyLevelChildren\<close> registers, for every key the storage enumerates and every
  prefix of its path, the next partial key under the chained key of the prefix, in order; what it
  yields are these pairs, in groups.
\<close>

theorem reprocess_registers_all:
  assumes "st_randomIterate (c_storage c) = Some iter" "st_registerChild (c_storage c) \<noteq> None"
  shows "\<exists>groups w'. reprocessAllKeyLevelChildren c n w = (Inr groups, w')
    \<and> concat groups = concat (map (\<lambda>k. path_pairs (splitKey k)) (iter (w_store (clearAllChildrenRegistry c w)) None))
    \<and> w_events w' = w_events w @ map (\<lambda>(p, k). RegisterChild p k) (concat groups)"
proof -
  let ?w = "clearAllChildrenRegistry c w"
  obtain groups w' where r: "reprocessKeys c n (iter (w_store ?w) None) [] [] ?w = (groups, w')" by fastforce
  have "w_events ?w = w_events w" by (simp add: clearAllChildrenRegistry_def split: option.splits)
  with reprocessKeys_flat [OF r assms(2)] r assms show ?thesis
    by (auto simp: reprocessAllKeyLevelChildren_def Let_def)
qed

definition registry_cache :: "(jvalue, mapState, unit) cache" where
  "registry_cache = (iter_cache 2)\<lparr>c_storage := iter_storage\<lparr>st_registerChild := Some (\<lambda>p k s. s)\<rparr>\<rparr>"

theorem reprocess_registers_all_witness:
  "\<exists>groups w'. reprocessAllKeyLevelChildren registry_cache 2 example_world = (Inr groups, w')
    \<and> concat groups = [(None, ''a''), (None, ''a''), (Some ''a'', ''b'')]"
  using reprocess_registers_all [of registry_cache "\<lambda>s pattern. map fst (ms_map s)" 2 example_world]
  by (auto simp: registry_cache_def iter_storage_def map_storage_def clearAllChildrenRegistry_def example_world_def
      path_pairs_def)

text \<open>
  C31. The groups that \<open>reprocessAllKeyLevelChildren\<close> yields have the requested size, only the last
  one may be smaller, and none is empty.
\<close>

theorem reprocess_group_sizes:
  assumes "reprocessAllKeyLevelChildren c n w = (Inr groups, w')" "0 < n"
  shows "(\<forall>g \<in> set (butlast groups). length g = n)
    \<and> (groups \<noteq> [] \<longrightarrow> 0 < length (last groups) \<and> length (last groups) \<le> n)"
  using assms reprocessKeys_sizes [of c n _ "[]" "[]"]
  by (auto simp: reprocessAllKeyLevelChildren_def Let_def split: option.splits if_splits prod.splits)

theorem reprocess_group_sizes_witness:
  "\<exists>groups w'. reprocessAllKeyLevelChildren registry_cache 2 example_world = (Inr groups, w')
    \<and> (\<forall>g \<in> set (butlast groups). length g = 2)"
proof -
  have "\<exists>groups w'. reprocessAllKeyLevelChildren registry_cache 2 example_world = (Inr groups, w')"
    by (simp add: reprocessAllKeyLevelChildren_def registry_cache_def iter_storage_def map_storage_def Let_def
        case_prod_unfold)
  then obtain groups w' where r: "reprocessAllKeyLevelChildren registry_cache 2 example_world = (Inr groups, w')"
    by blast
  with reprocess_group_sizes [OF r] show ?thesis by auto
qed

text \<open>
  C32. Within one memoizer context a tree is read once: after a first read of a key the second one
  returns the same result without a storage access, whatever the storage holds by then.
\<close>

theorem memoized_tree_is_stable:
  assumes "o_memoizer (c_options c) = Some mm" "\<forall>k v m. mm_get mm (mm_set mm k v m) k = Some v"
    and "mm_get mm (w_memo w) k = None" "getMemoizedTree c k now w = (r, w1)"
  shows "getMemoizedTree c k now' (w1\<lparr>w_store := s\<rparr>) = (r, w1\<lparr>w_store := s\<rparr>)"
  using assms by (auto simp: getMemoizedTree_def getMemoized_def split: prod.splits)

definition list_memoizer :: "('v, (key \<times> 'v memo) list) memoizer" where
  "list_memoizer = \<lparr>mm_get = map_of, mm_set = (\<lambda>k v m. (k, v) # m)\<rparr>"

definition memo_cache :: "(jvalue, mapState, (key \<times> jvalue memo) list) cache" where
  "memo_cache = newTreeKeyCache defaultOptions id map_storage
     \<lparr>u_keyLevelNodes = 2, u_valueSerializer = None, u_treeSerializer = None, u_memoizer = Some list_memoizer,
      u_multiTreeSelector = None\<rparr>"

theorem memoized_tree_is_stable_witness:
  "\<exists>w1. getMemoizedTree memo_cache ''a:b'' 3 \<lparr>w_store = w_store empty_world, w_memo = [], w_events = []\<rparr> = (Inr None, w1)
    \<and> getMemoizedTree memo_cache ''a:b'' 4 (w1\<lparr>w_store := w_store tree_world\<rparr>) = (Inr None, w1\<lparr>w_store := w_store tree_world\<rparr>)"
proof -
  let ?w = "\<lparr>w_store = w_store empty_world, w_memo = [], w_events = []\<rparr> :: (mapState, (key \<times> jvalue memo) list) world"
  have mm: "o_memoizer (c_options memo_cache) = Some list_memoizer"
    and st: "c_storage memo_cache = map_storage"
    by (simp_all add: memo_cache_def newTreeKeyCache_def)
  obtain w1 where r: "getMemoizedTree memo_cache ''a:b'' 3 ?w = (Inr None, w1)"
    by (simp add: getMemoizedTree_def getMemoized_def mm st readTree_def readStorage_def getReadStorageFunction_def
        list_memoizer_def map_storage_def empty_world_def)
  with memoized_tree_is_stable [OF mm _ _ r] show ?thesis by (auto simp: list_memoizer_def)
qed

section \<open>Searches over the whole cache\<close>

text \<open>
  C33. The four search methods of \<open>TreeKeyCache\<close> always end, whatever the storage answers, which
  errors it causes and where the search starts: the queue and the stack of the asynchronous
  traversals run empty, although the size of the queue is not reduced for the iterators it drops.
\<close>

theorem searches_end:
  "(\<exists>r. preOrderBreadthFirstSearch c basePath now w = Some r)
   \<and> (\<exists>r. preOrderDepthFirstSearch c basePath now w = Some r)
   \<and> (\<exists>r. postOrderBreadthFirstSearch c basePath now w = Some r)
   \<and> (\<exists>r. postOrderDepthFirstSearch c basePath now w = Some r)"
  unfolding preOrderBreadthFirstSearch_def preOrderDepthFirstSearch_def postOrderBreadthFirstSearch_def
    postOrderDepthFirstSearch_def
  by (intro conjI getTraversalSteps_ends async_searches_end)

text \<open>
  C34. The searches over key level nodes agree with the synchronous searches: on a lawful cache
  without history each of them yields, for the nodes that the synchronous search of the same order
  visits in the tree the storage represents below the start, in that order, the step of the value
  \<open>getNode\<close> reads at the node. When a read fails an initial part of these steps has been yielded;
  when no read fails the search ends without an error. The storage stays as it is.
\<close>

theorem searches_agree:
  assumes "searchable_cache c" "length path < keyLevelNodes c"
    and "tree = storedTree c (w_store w) now (search_root c (w_store w) path)"
  shows "yields c now w path (fst (treePreOrderBreadthFirstSearch tree (path_ref path) now))
      (preOrderBreadthFirstSearch c (base_path path) now w)
    \<and> yields c now w path (fst (treePreOrderDepthFirstSearch tree (path_ref path) now))
      (preOrderDepthFirstSearch c (base_path path) now w)
    \<and> yields c now w path (treePostOrderBreadthFirstSearch tree (path_ref path) now)
      (postOrderBreadthFirstSearch c (base_path path) now w)
    \<and> yields c now w path (treePostOrderDepthFirstSearch tree (path_ref path) now)
      (postOrderDepthFirstSearch c (base_path path) now w)"
  unfolding assms(3) treePostOrderBreadthFirstSearch_def treePostOrderDepthFirstSearch_def
  by (intro conjI searchable_cache.search_yields [OF assms(1,2)])

theorem searches_agree_witness:
  "\<exists>steps err w'. preOrderBreadthFirstSearch (children_cache 2) None 3 tree_world = Some ((steps, err), w')
    \<and> prefix steps (map (\<lambda>i. path_step (children_cache 2) 3 (w_store tree_world) (item_path i))
        (fst (treePreOrderBreadthFirstSearch
          (storedTree (children_cache 2) (w_store tree_world) 3 (AsyncTreeRef None)) None 3)))"
proof -
  have "searchable_cache (children_cache 2)" using children_cache_searchable [of 1] by (simp add: numeral_2_eq_2)
  from searches_agree [OF this, of "[]" _ tree_world 3, OF _ refl] show ?thesis
    by (auto simp: yields_def search_root_def)
qed

text \<open>
  C35. The searches are complete: on a lawful cache without history, when no read fails, each of the
  four searches ends without an error and has yielded a step for exactly the nodes that are linked to
  the start: the keys \<open>getChildren\<close> lists above the stored trees, the stored trees under them and
  all nodes inside these. Every step has the value \<open>getNode\<close> reads at its path.
\<close>

theorem searches_complete:
  assumes "searchable_cache c" "length path < keyLevelNodes c"
    and "any_readable c (w_store w) now (search_root c (w_store w) path)"
    and "search \<in> {preOrderBreadthFirstSearch c, preOrderDepthFirstSearch c,
      postOrderBreadthFirstSearch c, postOrderDepthFirstSearch c}"
  shows "\<exists>steps w'. search (base_path path) now w = Some ((steps, None), w') \<and> w_store w' = w_store w
    \<and> (\<forall>step \<in> set steps. step = path_step c now (w_store w) (chain_path (step_nodeRef step)))
    \<and> (\<lambda>step. chain_path (step_nodeRef step)) ` set steps = {path @ r | r. path @ r \<noteq> [] \<and> linked c (w_store w) path r}"
proof -
  note y = searchable_cache.search_yields [OF assms(1,2), of now w]
  note all = searchable_cache.yields_all [OF assms(1) _ assms(2,3)]
  from assms(4) show ?thesis
    by (elim insertE emptyE)
      (use all [OF y(1) bfs_visits] all [OF y(2) dfs_visits]
         all [OF y(3) [of array_push "[]"] post_visits] all [OF y(4) [of array_push "[]"] post_visits] in simp_all)
qed

lemma tree_world_readable:
  "any_readable (children_cache 2) (w_store tree_world) 3 (search_root (children_cache 2) (w_store tree_world) [])"
  by code_simp

lemma tree_world_linked: "linked (children_cache 2) (w_store tree_world) [] [''a'', ''b'', ''y'', ''z'']"
  by code_simp

theorem searches_complete_witness:
  "\<exists>steps w'. preOrderDepthFirstSearch (children_cache 2) None 3 tree_world = Some ((steps, None), w')
    \<and> [''a'', ''b'', ''y'', ''z''] \<in> (\<lambda>step. chain_path (step_nodeRef step)) ` set steps"
proof -
  have "searchable_cache (children_cache 2)" using children_cache_searchable [of 1] by (simp add: numeral_2_eq_2)
  from searches_complete [OF this _ tree_world_readable, of "preOrderDepthFirstSearch (children_cache 2)"]
  obtain steps w' where "preOrderDepthFirstSearch (children_cache 2) None 3 tree_world = Some ((steps, None), w')"
    and "(\<lambda>step. chain_path (step_nodeRef step)) ` set steps = {r. r \<noteq> [] \<and> linked (children_cache 2) (w_store tree_world) [] r}"
    by auto
  with tree_world_linked show ?thesis by auto
qed

text \<open>
  C36. A search whose base path lies in a stored tree needs no \<open>getChildren\<close>: on a lawful cache
  without history, where the tree under the key level part of the path can be deserialized and has a
  node at the rest of the path, each of the four searches ends without an error and yields, in its
  order, the step \<open>getNode\<close> reads for that node and for every node below it.
\<close>

theorem search_in_tree:
  assumes "lawful_cache c" "plain_cache c" "0 < keyLevelNodes c" "keyLevelNodes c \<le> length path"
    and "store_get c w (join (take (keyLevelNodes c) path)) = Some r" "r \<noteq> []"
    and "ts_deserialize (tser c) r = Inr t" "tree_lookup t (drop (keyLevelNodes c) path) = Some u"
    and "(search, items) \<in> {(preOrderBreadthFirstSearch c, fst (treePreOrderBreadthFirstSearch u (Some (node_ref path)) now)),
      (preOrderDepthFirstSearch c, fst (treePreOrderDepthFirstSearch u (Some (node_ref path)) now)),
      (postOrderBreadthFirstSearch c, treePostOrderBreadthFirstSearch u (Some (node_ref path)) now),
      (postOrderDepthFirstSearch c, treePostOrderDepthFirstSearch u (Some (node_ref path)) now)}"
  shows "\<exists>w'. search (Some path) now w
    = Some ((map (\<lambda>i. path_step c now (w_store w) (item_path i)) items, None), w') \<and> w_store w' = w_store w"
  by (rule search_in_tree_result [OF assms])

theorem search_in_tree_witness:
  "\<exists>u w'. preOrderDepthFirstSearch (map_cache 2) (Some [''a'', ''b'', ''y'']) 3 tree_world
      = Some ((map (\<lambda>i. path_step (map_cache 2) 3 (w_store tree_world) (item_path i))
           (fst (treePreOrderDepthFirstSearch u (Some (node_ref [''a'', ''b'', ''y''])) 3)), None), w')
    \<and> tree_lookup (strip example_tree) [''y''] = Some u"
proof -
  obtain u where u: "tree_lookup (strip example_tree) [''y''] = Some u"
    unfolding tree_lookup_strip [OF example_tree_wf] by (auto simp: example_tree_def tree_child_def)
  have "ts_deserialize defaultTreeSerializer (ts_serialize defaultTreeSerializer example_tree) = Inr (strip example_tree)"
    by (rule default_serializer.tree_roundtrip [OF example_tree_wf])
  with search_in_tree [of "map_cache 2" "[''a'', ''b'', ''y'']" tree_world "ts_serialize defaultTreeSerializer example_tree"
      "strip example_tree" u "preOrderDepthFirstSearch (map_cache 2)" _ 3]
  show ?thesis
    using u default_cache.lawful_cache_axioms [of 2] default_serializer.tree_nonempty [of example_tree]
    by (auto simp: tree_world_def map_storage_def)
qed

text \<open>
  C37. On a storage without \<open>getChildren\<close> the searches over key level nodes fail with that error: the
  pre-order searches after the step of the node they start from, the post-order searches at once.
\<close>

theorem search_without_getChildren:
  assumes "searchable_cache c" "st_getChildren (c_storage c) = None" "length path < keyLevelNodes c"
  shows "(\<exists>w'. preOrderBreadthFirstSearch c (base_path path) now w
      = Some ((if path = [] then [] else [path_step c now (w_store w) path], Some NoGetChildren), w'))
    \<and> (\<exists>w'. preOrderDepthFirstSearch c (base_path path) now w
      = Some ((if path = [] then [] else [path_step c now (w_store w) path], Some NoGetChildren), w'))
    \<and> postOrderBreadthFirstSearch c (base_path path) now w = Some (([], Some NoGetChildren), w)
    \<and> postOrderDepthFirstSearch c (base_path path) now w = Some (([], Some NoGetChildren), w)"
  using searchable_cache.search_no_children [OF assms] by simp

lemma map_cache_searchable: "searchable_cache (map_cache (Suc n))"
  using children_cache_searchable [of n] default_cache.lawful_cache_axioms [of "Suc n"]
  by (simp add: searchable_cache_def searchable_cache_axioms_def)

theorem search_without_getChildren_witness:
  "\<exists>w'. preOrderBreadthFirstSearch (map_cache 2) (Some [''a'']) 3 tree_world
    = Some (([path_step (map_cache 2) 3 (w_store tree_world) [''a'']], Some NoGetChildren), w')"
  using search_without_getChildren [of "map_cache 2" "[''a'']" 3 tree_world] map_cache_searchable [of 1]
  by (simp add: numeral_2_eq_2 map_storage_def)

text \<open>
  C38. The asynchronous queue is a first-in first-out list of outcomes. It may hold items and
  iterators over the children of stored nodes; its contents are the items, and for each iterator the
  items and the error it still has to deliver. \<open>push\<close> appends, \<open>pop\<close> takes the first outcome: it
  returns the item, throws the error, or returns \<open>undefined\<close> when nothing is left.
\<close>

theorem asyncQueue_is_fifo:
  assumes "aq_invar q" "w_store w = s" "contents = aq_contents (child_rest c s now)"
  shows "aq_invar (asyncQueue_push v q)
    \<and> contents (asyncQueue_push v q) = contents q @ (case v of Inl x \<Rightarrow> [Inr x] | Inr i \<Rightarrow> child_rest c s now i)
    \<and> (\<exists>r w'. asyncQueue_pop (childIterator c now) q w = Some (r, w') \<and> w_store w' = s \<and>
        (case contents q of
           [] \<Rightarrow> \<exists>q'. r = Inr (None, q')
         | Inl e # os \<Rightarrow> r = Inl e
         | Inr x # os \<Rightarrow> \<exists>q'. r = Inr (Some x, q') \<and> aq_invar q' \<and> contents q' = os))"
  unfolding assms(3) using aq_push_refines [OF assms(1), of v "child_rest c s now"]
    child_iterator.aq_pop_outcome [OF assms(1,2), of c now]
  by blast

theorem asyncQueue_is_fifo_witness:
  "\<exists>q' w'. asyncQueue_pop (childIterator (children_cache 2) 3)
      (asyncQueue_push (Inr (pushIterable None 0 None)) queue_new) tree_world
    = Some (Inr (Some (AsyncTreeRef (Some (node_ref [''a''], Some (Single ''true''))), 1, Some ''a'', None), q'), w')
    \<and> aq_invar q'"
proof -
  let ?q = "asyncQueue_push (Inr (pushIterable None 0 None)) (queue_new :: (async_entry, child_iter) async_queue)"
  have new: "aq_invar (queue_new :: (async_entry, child_iter) async_queue)" by (rule child_iterator.as_queue.invar_new)
  have inv: "aq_invar ?q" using aq_push_refines [OF new] by blast
  have cont: "aq_contents (child_rest (children_cache 2) (w_store tree_world) 3) ?q
      = [Inr (AsyncTreeRef (Some (node_ref [''a''], Some (Single ''true''))), 1, Some ''a'', None)]"
    by code_simp
  from asyncQueue_is_fifo [OF inv refl refl, where w = tree_world and c = "children_cache 2" and now = 3] obtain r w'
    where pop: "asyncQueue_pop (childIterator (children_cache 2) 3) ?q tree_world = Some (r, w')"
      and r: "case aq_contents (child_rest (children_cache 2) (w_store tree_world) 3) ?q of
          [] \<Rightarrow> \<exists>q'. r = Inr (None, q') | Inl e # os \<Rightarrow> r = Inl e
        | Inr x # os \<Rightarrow> \<exists>q'. r = Inr (Some x, q') \<and> aq_invar q'
            \<and> aq_contents (child_rest (children_cache 2) (w_store tree_world) 3) q' = os" by blast
  from r [unfolded cont list.case sum.case] pop show ?thesis by blast
qed

section \<open>Trees in memory\<close>

text \<open>
  C39. \<open>deserializeWholeTree\<close>, given data its serializer reads as a well-formed tree, throws
  \<open>EmptyTree\<close> when the tree has neither children nor a live root value. Otherwise it throws the error
  of a value that cannot be decoded, or returns a tree with exactly the nodes of the given one, each
  holding the decoded live value (an empty root value is taken as absent). Its checks \<open>Path lost\<close> and
  \<open>Stack lost\<close> never fail.
\<close>

theorem deserializeWholeTree_correct:
  assumes "ts_deserialize T data = Inr t" "wf_tree t"
  shows "if tchildren t = None \<and> tree_at now t [] = None
    then deserializeWholeTree data T V now later = Inl EmptyTree
    else (case deserializeWholeTree data T V now later of
        Inl e \<Rightarrow> \<exists>q. decoded_at V now later t q = Inl e
      | Inr u \<Rightarrow> \<forall>q. (tree_lookup u q = None \<longleftrightarrow> tree_lookup t q = None)
          \<and> Inr (node_val u q) = decoded_at V now later t q)"
  using deserializeWholeTree_decodes [OF assms, of now V later] assms(1)
  by (simp add: deserializeWholeTree_def)

theorem deserializeWholeTree_correct_witness:
  "case deserializeWholeTree (ts_serialize defaultTreeSerializer example_tree) defaultTreeSerializer
      defaultValueSerializer 3 4 of
     Inl e \<Rightarrow> \<exists>q. decoded_at defaultValueSerializer 3 4 (strip example_tree) q = Inl e
   | Inr u \<Rightarrow> \<forall>q. (tree_lookup u q = None \<longleftrightarrow> tree_lookup (strip example_tree) q = None)
       \<and> Inr (node_val u q) = decoded_at defaultValueSerializer 3 4 (strip example_tree) q"
proof -
  have t: "ts_deserialize defaultTreeSerializer (ts_serialize defaultTreeSerializer example_tree) = Inr (strip example_tree)"
    by (rule default_serializer.tree_roundtrip [OF example_tree_wf])
  have "wf_tree (strip example_tree)" by (rule wf_tree_strip [OF example_tree_wf])
  from deserializeWholeTree_correct [OF t this, of 3 defaultValueSerializer 4]
  moreover have "tchildren (strip example_tree) \<noteq> None"
    by (subst strip.simps) (simp add: example_tree_def)
  ultimately show ?thesis by simp
qed

text \<open>
  C40. \<open>deepTreeSet\<close> on a tree in memory goes down the path, creating the nodes that are missing; the
  step of a node starts with the value of the node, or the one \<open>createValue\<close> gives for its level when
  the node is new. The node keeps the value the caller leaves in its step. The caller sees one step per
  prefix of the path, up to the one where it leaves the loop; no other node changes.
\<close>

theorem utils_deepTreeSet_edits:
  assumes "utils_deepTreeSet createValue body path 0 None t [] = (h, t', steps)"
  shows "length steps \<le> length path \<and> (h = None \<longrightarrow> length steps = length path)
    \<and> (\<forall>i < length steps.
         let q = take (Suc i) path;
             (v, hi) = body (take i steps) (mountStep (node_ref q) (offered createValue (Suc i) t q))
         in steps ! i = mountStep (node_ref q) v \<and> hi = (if Suc i = length steps then h else None)
            \<and> node_val t' q = v)
    \<and> (\<forall>q. (\<forall>i < length steps. q \<noteq> take (Suc i) path) \<longrightarrow>
         node_val t' q = node_val t q \<and> (tree_lookup t' q = None \<longleftrightarrow> tree_lookup t q = None))"
proof -
  obtain rest where run: "steps = [] @ rest" "length rest \<le> length path"
    "if h = None then length rest = length path else rest \<noteq> []"
    "\<And>i. i < length rest \<Longrightarrow> edited createValue body path 0 None t [] h t' rest i"
    "\<And>q. (\<And>i. i < length rest \<Longrightarrow> q \<noteq> take (Suc i) path) \<Longrightarrow> same_at t' t q"
    by (rule utils_deepTreeSet_run [OF assms]) blast
  have ref: "the (path_ref (take (Suc i) path)) = node_ref (take (Suc i) path)" if "i < length rest" for i
    using that run(2) by (subst path_ref_node) auto
  have "let q = take (Suc i) path;
          (v, hi) = body (take i steps) (mountStep (node_ref q) (offered createValue (Suc i) t q))
        in steps ! i = mountStep (node_ref q) v \<and> hi = (if Suc i = length steps then h else None)
          \<and> node_val t' q = v" if "i < length steps" for i
    using run(4) [of i] ref [of i] that unfolding run(1) by (simp only: edited_def Let_def append_Nil add_0)
  with run show ?thesis by auto
qed

theorem utils_deepTreeSet_edits_witness:
  "\<exists>t' steps. utils_deepTreeSet (Some (\<lambda>l. Some (10 * l))) (\<lambda>out s. (map_option Suc (step_value s), None))
      [''a'', ''b''] 0 None (Tree None None (Some [(''a'', Some (Tree (Some 7) None None))])) [] = (None, t', steps)
    \<and> node_val t' [''a''] = Some (8 :: nat) \<and> node_val t' [''a'', ''b''] = Some 21 \<and> length steps = 2"
proof -
  let ?t = "Tree None None (Some [(''a'', Some (Tree (Some (7 :: nat)) None None))])"
  obtain h t' steps where run: "utils_deepTreeSet (Some (\<lambda>l. Some (10 * l)))
      (\<lambda>out s. (map_option Suc (step_value s), None)) [''a'', ''b''] 0 None ?t [] = (h, t', steps)"
    by (metis prod_cases3)
  then have h: "h = None" by (auto simp: Let_def split: prod.splits)
  note fact = utils_deepTreeSet_edits [OF run]
  then have len: "length steps = 2" using h by simp
  have "node_val t' (take (Suc i) [''a'', ''b''])
      = map_option Suc (offered (Some (\<lambda>l. Some (10 * l))) (Suc i) ?t (take (Suc i) [''a'', ''b'']))" if "i < 2" for i
    using fact that unfolding len by (auto simp: Let_def mountStep_def)
  from this [of 0] this [of 1] run h len show ?thesis
    by (auto simp: offered_def tree_child_def)
qed

end
